(* ===== verification/Prelude.thy ===== *)
theory Prelude
  imports Main "HOL-Library.Word" "HOL-Library.Multiset" "HOL-Library.Sublist" "HOL-Library.Monad_Syntax"
begin

unbundle bit_operations_syntax

section \<open>Shared types, outcomes and list operations\<close>

text \<open>
  What every component of the development shares: the machine integer types of the Rust code,
  the outcome type of code that may panic, and the operations of the Rust standard library on
  vectors that several components use (\<open>position\<close>, \<open>swap_remove\<close>, \<open>binary_search\<close>,
  \<open>chunks_exact\<close>, big endian bytes), each with the lemmas the component proofs rest on.
\<close>

named_theorems run_simps \<open>unfolding of the outcome monad\<close>
named_theorems bit_lits \<open>the bits of the literal masks of the code\<close>

subsection \<open>Machine integers\<close>

type_synonym u8 = "8 word"
type_synonym u16 = "16 word"
type_synonym u32 = "32 word"
type_synonym u64 = "64 word"
type_synonym u128 = "128 word"
type_synonym bytes = "u8 list"

text \<open>\<open>u16::to_be_bytes\<close>, \<open>u16::from_be_bytes\<close> and their 64 bit counterparts.\<close>

definition u16_to_be_bytes :: "u16 \<Rightarrow> bytes" where
  "u16_to_be_bytes w = [ucast (drop_bit 8 w), ucast w]"

definition u16_from_be_bytes :: "u8 \<Rightarrow> u8 \<Rightarrow> u16" where
  "u16_from_be_bytes hi lo = push_bit 8 (ucast hi) OR ucast lo"

definition u64_to_be_bytes :: "u64 \<Rightarrow> bytes" where
  "u64_to_be_bytes w = map (\<lambda>i. ucast (drop_bit (8 * i) w)) [7, 6, 5, 4, 3, 2, 1, 0]"

subsection \<open>Outcomes: a value or a panic\<close>

text \<open>
  A Rust function that reaches a failing \<open>assert!\<close>, \<open>expect\<close>, \<open>unwrap\<close>,
  \<open>todo!\<close>, an index out of range or an arithmetic overflow panics; the model returns
  \<open>Panic\<close>.
\<close>

datatype 'a run = Done 'a | Panic

fun run_bind :: "'a run \<Rightarrow> ('a \<Rightarrow> 'b run) \<Rightarrow> 'b run" where
  "run_bind (Done x) f = f x"
| "run_bind Panic f = Panic"

definition run_assert :: "bool \<Rightarrow> unit run" where
  "run_assert b = (if b then Done () else Panic)"

definition run_expect :: "'a option \<Rightarrow> 'a run" where
  "run_expect x = (case x of None \<Rightarrow> Panic | Some v \<Rightarrow> Done v)"

subsection \<open>Vector operations of the standard library\<close>

text \<open>\<open>Iterator::position\<close>: the index of the first element that satisfies the predicate.\<close>

fun position :: "('a \<Rightarrow> bool) \<Rightarrow> 'a list \<Rightarrow> nat option" where
  "position p [] = None"
| "position p (x # xs) = (if p x then Some 0 else map_option Suc (position p xs))"

text \<open>\<open>Vec::swap_remove\<close> for an index in range: the last element takes the freed place.\<close>

definition swap_remove :: "nat \<Rightarrow> 'a list \<Rightarrow> 'a list" where
  "swap_remove i xs = butlast (xs[i := last xs])"

text \<open>
  \<open>slice::binary_search\<close>: \<open>Inr i\<close> is \<open>Ok(i)\<close>, an index that holds the key, and
  \<open>Inl i\<close> is \<open>Err(i)\<close>, the index where the key can be inserted.
\<close>

function bsearch :: "'a::linorder list \<Rightarrow> 'a \<Rightarrow> nat \<Rightarrow> nat \<Rightarrow> nat + nat" where
  "bsearch xs k lo hi =
     (if lo < hi then
        let mid = (lo + hi) div 2 in
        if xs ! mid = k then Inr mid
        else if xs ! mid < k then bsearch xs k (Suc mid) hi
        else bsearch xs k lo mid
      else Inl lo)"
  by pat_completeness auto
termination
  by (relation "measure (\<lambda>(xs, k, lo, hi). hi - lo)") auto

definition binary_search :: "'a::linorder list \<Rightarrow> 'a \<Rightarrow> nat + nat" where
  "binary_search xs k = bsearch xs k 0 (length xs)"

text \<open>\<open>Vec::insert\<close> for an index in range.\<close>

definition vec_insert :: "nat \<Rightarrow> 'a \<Rightarrow> 'a list \<Rightarrow> 'a list" where
  "vec_insert i x xs = take i xs @ x # drop i xs"

text \<open>\<open>Vec::remove\<close> for an index in range.\<close>

definition vec_remove :: "nat \<Rightarrow> 'a list \<Rightarrow> 'a list" where
  "vec_remove i xs = take i xs @ drop (Suc i) xs"

text \<open>\<open>slice::chunks_exact\<close>, for a positive chunk size; a shorter rest is left out.\<close>

function chunks_exact :: "nat \<Rightarrow> 'a list \<Rightarrow> 'a list list" where
  "chunks_exact n xs =
     (if n = 0 \<or> length xs < n then [] else take n xs # chunks_exact n (drop n xs))"
  by pat_completeness auto
termination
  by (relation "measure (\<lambda>(n, xs). length xs)") auto

declare bsearch.simps [simp del] chunks_exact.simps [simp del]

subsection \<open>Lemmas\<close>

text \<open>The simplifier reduces a bit of a word literal to a bit of the integer literal.\<close>

lemma bit_mask_lits [bit_lits]:
  "bit (1 :: int) n \<longleftrightarrow> n < 1" "bit (3 :: int) n \<longleftrightarrow> n < 2" "bit (15 :: int) n \<longleftrightarrow> n < 4"
  "bit (127 :: int) n \<longleftrightarrow> n < 7" "bit (255 :: int) n \<longleftrightarrow> n < 8" "bit (1023 :: int) n \<longleftrightarrow> n < 10"
  "bit (4095 :: int) n \<longleftrightarrow> n < 12"
  using bit_mask_iff [of 1 n, where 'a = int] bit_mask_iff [of 2 n, where 'a = int]
    bit_mask_iff [of 4 n, where 'a = int] bit_mask_iff [of 7 n, where 'a = int]
    bit_mask_iff [of 8 n, where 'a = int] bit_mask_iff [of 10 n, where 'a = int]
    bit_mask_iff [of 12 n, where 'a = int]
  by (simp_all add: mask_eq_exp_minus_1)

lemma bit_exp_lits [bit_lits]: "bit (128 :: int) n \<longleftrightarrow> n = 7"
  using bit_exp_iff [of 7 n, where 'a = int] by auto

lemma unat_less_exp: "unat (w :: 'a::len word) < 2 ^ LENGTH('a)"
  using unsigned_less [of w, where ?'a = nat] .

lemma unat_of_nat_less: "n < 2 ^ LENGTH('a) \<Longrightarrow> unat (of_nat n :: 'a::len word) = n"
  by (simp add: unat_of_nat)

lemma u16_be_bytes_roundtrip [simp]:
  "u16_from_be_bytes (ucast (drop_bit 8 w)) (ucast w) = w"
  unfolding u16_from_be_bytes_def
  by (rule bit_word_eqI) (auto simp: bit_simps)

lemma length_u16_to_be_bytes [simp]: "length (u16_to_be_bytes w) = 2"
  by (simp add: u16_to_be_bytes_def)

lemma length_u64_to_be_bytes [simp]: "length (u64_to_be_bytes w) = 8"
  by (simp add: u64_to_be_bytes_def)

lemma run_bind_Done_iff [run_simps]:
  "run_bind m f = Done y \<longleftrightarrow> (\<exists>x. m = Done x \<and> f x = Done y)"
  by (cases m) auto

lemma run_assert_Done_iff [run_simps]: "run_assert b = Done u \<longleftrightarrow> b"
  by (simp add: run_assert_def)

lemma run_expect_Done_iff [run_simps]: "run_expect x = Done y \<longleftrightarrow> x = Some y"
  by (cases x) (auto simp: run_expect_def)

lemma run_not_Panic_iff: "m \<noteq> Panic \<longleftrightarrow> (\<exists>x. m = Done x)"
  by (cases m) auto

lemma position_Some_iff:
  "position p xs = Some i \<longleftrightarrow> i < length xs \<and> p (xs ! i) \<and> (\<forall>j<i. \<not> p (xs ! j))"
proof (induction xs arbitrary: i)
  case (Cons x xs)
  show ?case
  proof (cases i)
    case 0
    then show ?thesis by auto
  next
    case (Suc k)
    have "(\<forall>j<Suc k. \<not> p ((x # xs) ! j)) \<longleftrightarrow> \<not> p x \<and> (\<forall>j<k. \<not> p (xs ! j))"
      by (auto simp: less_Suc_eq_0_disj)
    with Suc Cons.IH [of k] show ?thesis by auto
  qed
qed simp

lemma position_None_iff: "position p xs = None \<longleftrightarrow> (\<forall>x\<in>set xs. \<not> p x)"
  by (induction xs) auto

lemma mset_swap_remove:
  assumes "i < length xs"
  shows "mset (swap_remove i xs) = mset xs - {#xs ! i#}"
proof -
  from assms obtain ys z where xs: "xs = ys @ [z]" by (cases xs rule: rev_cases) auto
  show ?thesis
  proof (cases "i = length ys")
    case True
    then show ?thesis by (simp add: swap_remove_def xs)
  next
    case False
    with assms xs have i: "i < length ys" by simp
    then have upd: "mset (ys[i := z]) = add_mset z (mset ys - {#ys ! i#})"
      by (simp add: mset_update)
    have "swap_remove i xs = ys[i := z]"
      using i by (simp add: swap_remove_def xs list_update_append)
    moreover have "ys ! i \<in># mset ys" using i by simp
    ultimately show ?thesis
      using i upd by (simp add: xs nth_append)
  qed
qed

lemma length_swap_remove [simp]: "length (swap_remove i xs) = length xs - 1"
  by (simp add: swap_remove_def)

lemma distinct_swap_remove:
  assumes "distinct xs" and "i < length xs"
  shows "distinct (swap_remove i xs)" and "set (swap_remove i xs) = set xs - {xs ! i}"
proof -
  have m: "mset (swap_remove i xs) = mset xs - {#xs ! i#}"
    using assms(2) by (rule mset_swap_remove)
  then have eq: "mset (swap_remove i xs) = mset (remove1 (xs ! i) xs)"
    by (simp only: mset_remove1)
  show "distinct (swap_remove i xs)"
    unfolding mset_eq_imp_distinct_iff [OF eq] using assms(1) by (rule distinct_remove1)
  show "set (swap_remove i xs) = set xs - {xs ! i}"
    unfolding mset_eq_setD [OF eq] using assms(1) by (rule set_remove1_eq)
qed

lemma bsearch_sorted:
  assumes "sorted_wrt (<) xs" and "lo \<le> hi" and "hi \<le> length xs"
    and "\<forall>j<lo. xs ! j < k" and "\<forall>j<length xs. hi \<le> j \<longrightarrow> k < xs ! j"
  shows "case bsearch xs k lo hi of
      Inr i \<Rightarrow> i < length xs \<and> xs ! i = k
    | Inl i \<Rightarrow> i \<le> length xs \<and> (\<forall>j<i. xs ! j < k) \<and> (\<forall>j<length xs. i \<le> j \<longrightarrow> k < xs ! j)"
  using assms
proof (induction xs k lo hi rule: bsearch.induct)
  case (1 xs k lo hi)
  let ?mid = "(lo + hi) div 2"
  show ?case
  proof (cases "lo < hi")
    case False
    with "1.prems" show ?thesis unfolding bsearch.simps [of xs k lo hi] by auto
  next
    case lt: True
    then have mid: "lo \<le> ?mid" "?mid < hi" "?mid < length xs" using "1.prems" by auto
    consider (eq) "xs ! ?mid = k" | (less) "xs ! ?mid < k" | (gt) "k < xs ! ?mid" by force
    then show ?thesis
    proof cases
      case eq
      with lt mid show ?thesis by (simp add: bsearch.simps [of xs k lo hi])
    next
      case less
      have "\<forall>j<Suc ?mid. xs ! j < k"
      proof (intro allI impI)
        fix j assume "j < Suc ?mid"
        then have "j = ?mid \<or> xs ! j < xs ! ?mid"
          using sorted_wrt_nth_less [OF "1.prems"(1), of j ?mid] mid by (auto simp: less_Suc_eq)
        then show "xs ! j < k" using less by auto
      qed
      then show ?thesis
        using "1.IH"(1) [OF lt refl] lt less mid "1.prems"
        by (simp add: bsearch.simps [of xs k lo hi] Let_def less_imp_neq)
    next
      case gt
      have "\<forall>j<length xs. ?mid \<le> j \<longrightarrow> k < xs ! j"
      proof (intro allI impI)
        fix j assume "j < length xs" and "?mid \<le> j"
        then have "j = ?mid \<or> xs ! ?mid < xs ! j"
          using sorted_wrt_nth_less [OF "1.prems"(1), of ?mid j] by (auto simp: le_less)
        then show "k < xs ! j" using gt by auto
      qed
      then show ?thesis
        using "1.IH"(2) [OF lt refl] lt gt less_imp_neq [OF gt] less_not_sym [OF gt] mid "1.prems"
        by (simp add: bsearch.simps [of xs k lo hi] Let_def)
    qed
  qed
qed

lemma binary_search_Ok:
  assumes "sorted_wrt (<) xs" and "binary_search xs k = Inr i"
  shows "i < length xs \<and> xs ! i = k"
  using bsearch_sorted [OF assms(1), of 0 "length xs" k] assms(2)
  by (simp add: binary_search_def)

lemma binary_search_Err:
  assumes "sorted_wrt (<) xs" and "binary_search xs k = Inl i"
  shows "i \<le> length xs \<and> (\<forall>j<i. xs ! j < k) \<and> (\<forall>j<length xs. i \<le> j \<longrightarrow> k < xs ! j)"
  using bsearch_sorted [OF assms(1), of 0 "length xs" k] assms(2)
  by (simp add: binary_search_def)

lemma binary_search_Ok_iff:
  assumes "sorted_wrt (<) xs"
  shows "(\<exists>i. binary_search xs k = Inr i) \<longleftrightarrow> k \<in> set xs"
proof
  assume "\<exists>i. binary_search xs k = Inr i"
  then show "k \<in> set xs" using binary_search_Ok [OF assms] nth_mem by blast
next
  assume "k \<in> set xs"
  then obtain j where j: "j < length xs" "xs ! j = k" by (auto simp: in_set_conv_nth)
  show "\<exists>i. binary_search xs k = Inr i"
  proof (cases "binary_search xs k")
    case (Inl i)
    with binary_search_Err [OF assms Inl] j have False by (metis leI less_irrefl)
    then show ?thesis ..
  qed auto
qed

lemma chunks_exact_append:
  "length xs = n \<Longrightarrow> 0 < n \<Longrightarrow> chunks_exact n (xs @ ys) = xs # chunks_exact n ys"
  by (subst chunks_exact.simps) auto

lemma chunks_exact_concat:
  assumes "0 < n" and "\<forall>c\<in>set cs. length c = n"
  shows "chunks_exact n (concat cs) = cs"
  using assms(2)
proof (induction cs)
  case Nil
  show ?case using assms(1) by (subst chunks_exact.simps) simp
next
  case (Cons c cs)
  then show ?case using assms(1) by (simp add: chunks_exact_append)
qed

lemma length_chunks_exact:
  assumes "0 < n"
  shows "length (chunks_exact n xs) = length xs div n"
proof (induction n xs rule: chunks_exact.induct)
  case (1 n xs)
  show ?case
  proof (cases "n = 0 \<or> length xs < n")
    case True
    then show ?thesis by (subst chunks_exact.simps) auto
  next
    case False
    then have "length (chunks_exact n (drop n xs)) = (length xs - n) div n" using "1" by simp
    with False show ?thesis by (subst chunks_exact.simps) (simp add: le_div_geq)
  qed
qed

subsection \<open>The interface of maps\<close>

text \<open>The contract of a mutable map; the routing table and the linear map provide it.\<close>

locale id_map =
  fixes insert :: "'m \<Rightarrow> 'k \<Rightarrow> 'v \<Rightarrow> 'm"
    and remove :: "'m \<Rightarrow> 'k \<Rightarrow> 'm"
    and lookup :: "'m \<Rightarrow> 'k \<Rightarrow> 'v option"
    and invar :: "'m \<Rightarrow> bool"
  assumes invar_insert: "invar m \<Longrightarrow> invar (insert m k v)"
    and invar_remove: "invar m \<Longrightarrow> invar (remove m k)"
    and lookup_insert: "invar m \<Longrightarrow> lookup (insert m k v) = (lookup m)(k \<mapsto> v)"
    and lookup_remove: "invar m \<Longrightarrow> lookup (remove m k) = (lookup m)(k := None)"
begin

text \<open>Any sequence of updates (a value inserts, none removes) is the sequence of map updates.\<close>

lemma fold_updates:
  "invar m \<Longrightarrow>
   invar (fold (\<lambda>(k, v) m. case v of Some x \<Rightarrow> insert m k x | None \<Rightarrow> remove m k) us m) \<and>
   lookup (fold (\<lambda>(k, v) m. case v of Some x \<Rightarrow> insert m k x | None \<Rightarrow> remove m k) us m) =
   fold (\<lambda>(k, v) f. f(k := v)) us (lookup m)"
proof (induction us arbitrary: m)
  case (Cons u us)
  obtain k v where u: "u = (k, v)" by force
  let ?m = "case v of Some x \<Rightarrow> insert m k x | None \<Rightarrow> remove m k"
  have "invar ?m" and "lookup ?m = (lookup m)(k := v)"
    using Cons.prems by (auto simp: invar_insert invar_remove lookup_insert lookup_remove split: option.split)
  with Cons.IH [of ?m] show ?case by (simp add: u)
qed simp

end

end
