(* ===== verification/Codec.thy ===== *)
theory Codec
  imports Prelude
begin

section \<open>The wire codec (\<open>utils/component-utils/src/codec.rs\<close>)\<close>

text \<open>
  The trait \<open>Buffer\<close> and its implementations (\<open>Vec<u8>\<close>, \<open>&mut [u8]\<close>, and
  \<open>NoCapOverflow\<close> of \<open>stream.rs\<close>), the trait \<open>Codec\<close> with its implementations for
  integers, booleans, byte strings, strings, options, results, sequences, arrays, maps and
  tuples, the length prefix of packets and the code that the derive macro generates for structs
  and enums. An encoder takes the operations of the buffer it writes to and returns the success
  flag of the \<open>Option<()>\<close> together with the buffer, since a failed encoding leaves a part of
  its bytes behind. A decoder returns the value and the rest of the input.

  The interface \<open>buffer\<close> states what an implementation of \<open>Buffer\<close> promises; in it every
  encoder is shown to write a fixed byte string. The interface \<open>codec\<close> adds the decoder and
  the round trip law, and is interpreted on the implementations.
\<close>

named_theorems dec_simps \<open>round trips of the decoders\<close>

subsection \<open>Buffers\<close>

record 'b buffer_ops =
  push :: "u8 \<Rightarrow> 'b \<Rightarrow> bool \<times> 'b"
  extend_from_slice :: "bytes \<Rightarrow> 'b \<Rightarrow> bool \<times> 'b"

text \<open>\<open>Vec<u8>\<close>\<close>

definition vec_ops :: "bytes buffer_ops" where
  "vec_ops = \<lparr>push = (\<lambda>x b. (True, b @ [x])), extend_from_slice = (\<lambda>s b. (True, b @ s))\<rparr>"

text \<open>
  \<open>&mut [u8]\<close>: the bytes written so far and the part of the slice that is still free;
  \<open>take_mut\<close> and \<open>take_first_mut\<close> shorten it from the front.
\<close>

record slice_buf =
  sl_written :: bytes
  sl_free :: bytes

definition slice_ops :: "slice_buf buffer_ops" where
  "slice_ops =
     \<lparr>push = (\<lambda>x b. case sl_free b of [] \<Rightarrow> (False, b)
              | _ # rest \<Rightarrow> (True, \<lparr>sl_written = sl_written b @ [x], sl_free = rest\<rparr>)),
      extend_from_slice = (\<lambda>s b. if length (sl_free b) < length s then (False, b)
              else (True, \<lparr>sl_written = sl_written b @ s, sl_free = drop (length s) (sl_free b)\<rparr>))\<rparr>"

text \<open>\<open>NoCapOverflow\<close>: a vector that is never grown beyond the capacity it has.\<close>

record cap_vec =
  cv_data :: bytes
  cv_capacity :: nat

definition no_cap_overflow_ops :: "cap_vec buffer_ops" where
  "no_cap_overflow_ops =
     \<lparr>push = (\<lambda>x b. if length (cv_data b) = cv_capacity b then (False, b)
              else (True, b\<lparr>cv_data := cv_data b @ [x]\<rparr>)),
      extend_from_slice = (\<lambda>s b. if length (cv_data b) + length s > cv_capacity b then (False, b)
              else (True, b\<lparr>cv_data := cv_data b @ s\<rparr>))\<rparr>"

text \<open>The \<open>?\<close> between two writes, the write that does nothing, and a loop of writes.\<close>

definition seq_enc :: "('b \<Rightarrow> bool \<times> 'b) \<Rightarrow> ('b \<Rightarrow> bool \<times> 'b) \<Rightarrow> 'b \<Rightarrow> bool \<times> 'b" where
  "seq_enc f g b = (case f b of (ok, b') \<Rightarrow> if ok then g b' else (False, b'))"

definition skip_enc :: "'b \<Rightarrow> bool \<times> 'b" where
  "skip_enc b = (True, b)"

primrec for_enc :: "('a \<Rightarrow> 'b \<Rightarrow> bool \<times> 'b) \<Rightarrow> 'a list \<Rightarrow> 'b \<Rightarrow> bool \<times> 'b" where
  "for_enc e [] = skip_enc"
| "for_enc e (x # xs) = seq_enc (e x) (for_enc e xs)"

subsection \<open>Packet lengths\<close>

definition encode_len :: "nat \<Rightarrow> bytes" where
  "encode_len len = u16_to_be_bytes (of_nat len)"

definition decode_len :: "u8 \<Rightarrow> u8 \<Rightarrow> nat" where
  "decode_len hi lo = unat (u16_from_be_bytes hi lo)"

subsection \<open>Integers in base 128\<close>

text \<open>One turn of the loop of \<open>base128_encode\<close>: the byte it pushes, and the value left.\<close>

definition base128_byte :: "u64 \<Rightarrow> u8" where
  "base128_byte v =
     (let byte = ucast (v AND 127) in if drop_bit 7 v \<noteq> 0 then byte OR 128 else byte)"

function base128_encode :: "'b buffer_ops \<Rightarrow> u64 \<Rightarrow> 'b \<Rightarrow> bool \<times> 'b" where
  "base128_encode ops v b =
     seq_enc (push ops (base128_byte v))
       (\<lambda>b'. if drop_bit 7 v = 0 then (True, b') else base128_encode ops (drop_bit 7 v) b') b"
  by pat_completeness auto
termination
proof (relation "measure (\<lambda>(ops, v, b). unat v)")
  fix ops :: "'b buffer_ops" and v :: u64 and b b' :: 'b
  assume "drop_bit 7 v \<noteq> 0"
  then have "v \<noteq> 0" by (cases "v = 0") auto
  then have "0 < unat v" by (simp add: unat_gt_0)
  then have "unat v div 128 < unat v" by simp
  then show "((ops, drop_bit 7 v, b'), (ops, v, b)) \<in> measure (\<lambda>(ops, v, b). unat v)"
    by (simp add: drop_bit_eq_div unat_div)
qed simp

fun base128_decode_loop :: "nat \<Rightarrow> u64 \<Rightarrow> nat \<Rightarrow> bytes \<Rightarrow> (u64 \<times> bytes) option" where
  "base128_decode_loop 0 v shift bs = None"
| "base128_decode_loop (Suc n) v shift [] = None"
| "base128_decode_loop (Suc n) v shift (byte # bs) =
     (let v' = v OR push_bit shift (ucast (byte AND 127)) in
      if byte AND 128 = 0 then Some (v', bs) else base128_decode_loop n v' (shift + 7) bs)"

definition base128_decode :: "bytes \<Rightarrow> (u64 \<times> bytes) option" where
  "base128_decode bs = base128_decode_loop 10 0 0 bs"

text \<open>
  The instances of \<open>impl_int!\<close>: the value is cast to \<open>u64\<close> and back. A \<open>usize\<close> is
  a natural number of the model, cast to its 64 bits.
\<close>

definition encode_int :: "'b buffer_ops \<Rightarrow> 'a::len word \<Rightarrow> 'b \<Rightarrow> bool \<times> 'b" where
  "encode_int ops x = base128_encode ops (ucast x)"

definition decode_int :: "bytes \<Rightarrow> ('a::len word \<times> bytes) option" where
  "decode_int bs = map_option (apfst ucast) (base128_decode bs)"

definition encode_usize :: "'b buffer_ops \<Rightarrow> nat \<Rightarrow> 'b \<Rightarrow> bool \<times> 'b" where
  "encode_usize ops n = base128_encode ops (of_nat n)"

definition decode_usize :: "bytes \<Rightarrow> (nat \<times> bytes) option" where
  "decode_usize bs = map_option (apfst unat) (base128_decode bs)"

text \<open>
  The iterator \<open>Base128Bytes\<close>: its state is the value left and the flag of the first call.
\<close>

record base128_bytes_iter =
  bb_value :: u64
  bb_first :: bool

definition base128_bytes_new :: "u64 \<Rightarrow> base128_bytes_iter" where
  "base128_bytes_new v = \<lparr>bb_value = v, bb_first = True\<rparr>"

definition base128_bytes_next :: "base128_bytes_iter \<Rightarrow> u8 option \<times> base128_bytes_iter" where
  "base128_bytes_next it =
     (let first = bb_first it; it' = it\<lparr>bb_first := False\<rparr> in
      if \<not> first \<and> bb_value it = 0 then (None, it')
      else let byte = ucast (bb_value it AND 127); v = drop_bit 7 (bb_value it);
               v' = (if v \<noteq> 0 then v OR 128 else v)
           in (Some byte, it'\<lparr>bb_value := v'\<rparr>))"

subsection \<open>Booleans, bytes and byte strings\<close>

definition encode_bool :: "'b buffer_ops \<Rightarrow> bool \<Rightarrow> 'b \<Rightarrow> bool \<times> 'b" where
  "encode_bool ops x = push ops (if x then 1 else 0)"

fun decode_bool :: "bytes \<Rightarrow> (bool \<times> bytes) option" where
  "decode_bool [] = None"
| "decode_bool (x # rest) = (if x = 0 \<or> x = 1 then Some (x = 1, rest) else None)"

definition encode_u8 :: "'b buffer_ops \<Rightarrow> u8 \<Rightarrow> 'b \<Rightarrow> bool \<times> 'b" where
  "encode_u8 ops x = push ops x"

fun decode_u8 :: "bytes \<Rightarrow> (u8 \<times> bytes) option" where
  "decode_u8 [] = None"
| "decode_u8 (x # rest) = Some (x, rest)"

definition encode_unit :: "'b buffer_ops \<Rightarrow> unit \<Rightarrow> 'b \<Rightarrow> bool \<times> 'b" where
  "encode_unit ops u = skip_enc"

definition decode_unit :: "bytes \<Rightarrow> (unit \<times> bytes) option" where
  "decode_unit bs = Some ((), bs)"

text \<open>
  \<open>Reminder\<close>, \<open>OwnedReminder\<close> and \<open>Unbound<Vec<u8>>\<close>: the bytes with no length, the
  last part of a message.
\<close>

definition encode_reminder :: "'b buffer_ops \<Rightarrow> bytes \<Rightarrow> 'b \<Rightarrow> bool \<times> 'b" where
  "encode_reminder ops s = extend_from_slice ops s"

definition decode_reminder :: "bytes \<Rightarrow> (bytes \<times> bytes) option" where
  "decode_reminder bs = Some (bs, [])"

text \<open>\<open>&[u8]\<close> and \<open>Box<[u8]>\<close>: the length, then the bytes.\<close>

definition encode_slice :: "'b buffer_ops \<Rightarrow> bytes \<Rightarrow> 'b \<Rightarrow> bool \<times> 'b" where
  "encode_slice ops s = seq_enc (encode_usize ops (length s)) (extend_from_slice ops s)"

definition decode_slice :: "bytes \<Rightarrow> (bytes \<times> bytes) option" where
  "decode_slice bs = do {
     (len, bs) \<leftarrow> decode_usize bs;
     if length bs < len then None else Some (take len bs, drop len bs)
   }"

text \<open>
  \<open>core::str::from_utf8\<close>: which byte strings are UTF-8 (no overlong form, no surrogate, at
  most U+10FFFF).
\<close>

definition utf8_cont :: "u8 \<Rightarrow> bool" where
  "utf8_cont b \<longleftrightarrow> 128 \<le> b \<and> b \<le> 191"

fun valid_utf8 :: "bytes \<Rightarrow> bool" where
  "valid_utf8 [] = True"
| "valid_utf8 (a # bs) =
     (if a < 128 then valid_utf8 bs
      else case bs of [] \<Rightarrow> False | b # cs \<Rightarrow>
        if 194 \<le> a \<and> a \<le> 223 then utf8_cont b \<and> valid_utf8 cs
        else case cs of [] \<Rightarrow> False | c # ds \<Rightarrow>
          if 224 \<le> a \<and> a \<le> 239 then
            utf8_cont b \<and> (a = 224 \<longrightarrow> 160 \<le> b) \<and> (a = 237 \<longrightarrow> b \<le> 159) \<and> utf8_cont c \<and> valid_utf8 ds
          else case ds of [] \<Rightarrow> False | d # es \<Rightarrow>
            240 \<le> a \<and> a \<le> 244 \<and> utf8_cont b \<and> (a = 240 \<longrightarrow> 144 \<le> b) \<and> (a = 244 \<longrightarrow> b \<le> 143) \<and>
            utf8_cont c \<and> utf8_cont d \<and> valid_utf8 es)"

text \<open>
  \<open>&str\<close>, \<open>String\<close> and \<open>ArrayString<LEN>\<close>: a string is its UTF-8 bytes. The
  conversion into an \<open>ArrayString\<close> fails for a string longer than the capacity.
\<close>

definition encode_str :: "'b buffer_ops \<Rightarrow> bytes \<Rightarrow> 'b \<Rightarrow> bool \<times> 'b" where
  "encode_str ops s = encode_slice ops s"

definition decode_str :: "bytes \<Rightarrow> (bytes \<times> bytes) option" where
  "decode_str bs = do { (s, bs) \<leftarrow> decode_slice bs; if valid_utf8 s then Some (s, bs) else None }"

definition decode_array_string :: "nat \<Rightarrow> bytes \<Rightarrow> (bytes \<times> bytes) option" where
  "decode_array_string LEN bs = do {
     (s, bs) \<leftarrow> decode_slice bs;
     if valid_utf8 s then (if length s \<le> LEN then Some (s, bs) else None) else None
   }"

subsection \<open>Options, results and tuples\<close>

definition encode_option ::
  "('b buffer_ops \<Rightarrow> 'a \<Rightarrow> 'b \<Rightarrow> bool \<times> 'b) \<Rightarrow> 'b buffer_ops \<Rightarrow> 'a option \<Rightarrow> 'b \<Rightarrow> bool \<times> 'b" where
  "encode_option e ops x =
     (case x of Some t \<Rightarrow> seq_enc (encode_bool ops True) (e ops t) | None \<Rightarrow> encode_bool ops False)"

definition decode_option ::
  "(bytes \<Rightarrow> ('a \<times> bytes) option) \<Rightarrow> bytes \<Rightarrow> ('a option \<times> bytes) option" where
  "decode_option d bs = do {
     (is_some, bs) \<leftarrow> decode_bool bs;
     if is_some then map_option (apfst Some) (d bs) else Some (None, bs)
   }"

text \<open>A \<open>Result<R, E>\<close> is a sum with \<open>Inr\<close> for \<open>Ok\<close> and \<open>Inl\<close> for \<open>Err\<close>.\<close>

definition encode_result ::
  "('b buffer_ops \<Rightarrow> 'r \<Rightarrow> 'b \<Rightarrow> bool \<times> 'b) \<Rightarrow> ('b buffer_ops \<Rightarrow> 'e \<Rightarrow> 'b \<Rightarrow> bool \<times> 'b) \<Rightarrow>
   'b buffer_ops \<Rightarrow> 'e + 'r \<Rightarrow> 'b \<Rightarrow> bool \<times> 'b" where
  "encode_result er ee ops x =
     (case x of Inr r \<Rightarrow> seq_enc (encode_bool ops True) (er ops r)
      | Inl e \<Rightarrow> seq_enc (encode_bool ops False) (ee ops e))"

definition decode_result ::
  "(bytes \<Rightarrow> ('r \<times> bytes) option) \<Rightarrow> (bytes \<Rightarrow> ('e \<times> bytes) option) \<Rightarrow>
   bytes \<Rightarrow> (('e + 'r) \<times> bytes) option" where
  "decode_result dr de bs = do {
     (is_ok, bs) \<leftarrow> decode_bool bs;
     if is_ok then map_option (apfst Inr) (dr bs) else map_option (apfst Inl) (de bs)
   }"

text \<open>
  The tuples of \<open>derive_tuples!\<close>, \<open>Range<T>\<close> and the structs of the derive macro encode
  their fields one after the other; a pair composes to any number of fields.
\<close>

definition encode_pair ::
  "('b buffer_ops \<Rightarrow> 'x \<Rightarrow> 'b \<Rightarrow> bool \<times> 'b) \<Rightarrow> ('b buffer_ops \<Rightarrow> 'y \<Rightarrow> 'b \<Rightarrow> bool \<times> 'b) \<Rightarrow>
   'b buffer_ops \<Rightarrow> 'x \<times> 'y \<Rightarrow> 'b \<Rightarrow> bool \<times> 'b" where
  "encode_pair ex ey ops p = seq_enc (ex ops (fst p)) (ey ops (snd p))"

definition decode_pair ::
  "(bytes \<Rightarrow> ('x \<times> bytes) option) \<Rightarrow> (bytes \<Rightarrow> ('y \<times> bytes) option) \<Rightarrow>
   bytes \<Rightarrow> (('x \<times> 'y) \<times> bytes) option" where
  "decode_pair dx dy bs = do { (x, bs) \<leftarrow> dx bs; (y, bs) \<leftarrow> dy bs; Some ((x, y), bs) }"

subsection \<open>Sequences\<close>

text \<open>The loop \<open>for _ in 0..len { s.push(T::decode(buffer)?) }\<close>.\<close>

fun decode_n :: "(bytes \<Rightarrow> ('a \<times> bytes) option) \<Rightarrow> nat \<Rightarrow> bytes \<Rightarrow> ('a list \<times> bytes) option" where
  "decode_n d 0 bs = Some ([], bs)"
| "decode_n d (Suc n) bs = do { (x, bs) \<leftarrow> d bs; (xs, bs) \<leftarrow> decode_n d n bs; Some (x # xs, bs) }"

text \<open>\<open>Vec<T>\<close>, \<open>VecDeque<T>\<close> and \<open>Arc<[T]>\<close>.\<close>

definition encode_vec ::
  "('b buffer_ops \<Rightarrow> 'a \<Rightarrow> 'b \<Rightarrow> bool \<times> 'b) \<Rightarrow> 'b buffer_ops \<Rightarrow> 'a list \<Rightarrow> 'b \<Rightarrow> bool \<times> 'b" where
  "encode_vec e ops xs = seq_enc (encode_usize ops (length xs)) (for_enc (e ops) xs)"

definition decode_vec :: "(bytes \<Rightarrow> ('a \<times> bytes) option) \<Rightarrow> bytes \<Rightarrow> ('a list \<times> bytes) option" where
  "decode_vec d bs = do {
     (len, bs) \<leftarrow> decode_usize bs;
     if len > length bs then None else decode_n d len bs
   }"

text \<open>\<open>ArrayVec<T, LEN>\<close>: bounded by its capacity, not by the length of the input.\<close>

definition decode_array_vec ::
  "nat \<Rightarrow> (bytes \<Rightarrow> ('a \<times> bytes) option) \<Rightarrow> bytes \<Rightarrow> ('a list \<times> bytes) option" where
  "decode_array_vec LEN d bs = do {
     (len, bs) \<leftarrow> decode_usize bs;
     if len > LEN then None else decode_n d len bs
   }"

text \<open>
  \<open>[T; SIZE]\<close>: no length; the decoder tries every element, and a failed try leaves the
  input where it stands, before it looks at the tries.
\<close>

definition encode_array ::
  "('b buffer_ops \<Rightarrow> 'a \<Rightarrow> 'b \<Rightarrow> bool \<times> 'b) \<Rightarrow> 'b buffer_ops \<Rightarrow> 'a list \<Rightarrow> 'b \<Rightarrow> bool \<times> 'b" where
  "encode_array e ops xs = for_enc (e ops) xs"

fun array_tries :: "(bytes \<Rightarrow> ('a \<times> bytes) option) \<Rightarrow> nat \<Rightarrow> bytes \<Rightarrow> 'a option list \<times> bytes" where
  "array_tries d 0 bs = ([], bs)"
| "array_tries d (Suc n) bs =
     (case d bs of
        None \<Rightarrow> (case array_tries d n bs of (ts, r) \<Rightarrow> (None # ts, r))
      | Some (x, bs') \<Rightarrow> (case array_tries d n bs' of (ts, r) \<Rightarrow> (Some x # ts, r)))"

definition decode_array :: "nat \<Rightarrow> (bytes \<Rightarrow> ('a \<times> bytes) option) \<Rightarrow> bytes \<Rightarrow> ('a list \<times> bytes) option" where
  "decode_array SIZE d bs =
     (case array_tries d SIZE bs of (ts, r) \<Rightarrow>
        if list_ex (\<lambda>t. t = None) ts then None else Some (map the ts, r))"

text \<open>
  \<open>HashMap<K, V>\<close>: encoded in the map's iteration order, here the order of the association
  list; the decoder inserts the pairs one by one, and a key read again replaces its value.
  \<open>len * 2\<close> is computed in 64 bits.
\<close>

definition encode_hashmap ::
  "('b buffer_ops \<Rightarrow> 'k \<Rightarrow> 'b \<Rightarrow> bool \<times> 'b) \<Rightarrow> ('b buffer_ops \<Rightarrow> 'v \<Rightarrow> 'b \<Rightarrow> bool \<times> 'b) \<Rightarrow>
   'b buffer_ops \<Rightarrow> ('k \<times> 'v) list \<Rightarrow> 'b \<Rightarrow> bool \<times> 'b" where
  "encode_hashmap ek ev ops kvs =
     seq_enc (encode_usize ops (length kvs)) (for_enc (encode_pair ek ev ops) kvs)"

definition decode_hashmap ::
  "(bytes \<Rightarrow> ('k \<times> bytes) option) \<Rightarrow> (bytes \<Rightarrow> ('v \<times> bytes) option) \<Rightarrow>
   bytes \<Rightarrow> (('k \<rightharpoonup> 'v) \<times> bytes) option" where
  "decode_hashmap dk dv bs = do {
     (len, bs) \<leftarrow> decode_usize bs;
     if (len * 2) mod 2 ^ 64 > length bs then None
     else map_option (apfst (\<lambda>kvs. fold (\<lambda>(k, v) m. m(k \<mapsto> v)) kvs Map.empty))
            (decode_n (decode_pair dk dv) len bs)
   }"

subsection \<open>Derived enums\<close>

text \<open>
  The derive macro writes the index of the variant in one byte and then its fields. The model
  takes the variants' encoders and decoders as lists in declaration order.
\<close>

definition encode_variant ::
  "'b buffer_ops \<Rightarrow> nat \<Rightarrow> ('b \<Rightarrow> bool \<times> 'b) \<Rightarrow> 'b \<Rightarrow> bool \<times> 'b" where
  "encode_variant ops index flds = seq_enc (push ops (of_nat index)) flds"

fun decode_enum :: "(bytes \<Rightarrow> ('a \<times> bytes) option) list \<Rightarrow> bytes \<Rightarrow> ('a \<times> bytes) option" where
  "decode_enum ds [] = None"
| "decode_enum ds (index # bs) =
     (if unat index < length ds then (ds ! unat index) bs else None)"

subsection \<open>Whole values and packets\<close>

text \<open>\<open>Codec::to_bytes\<close> and \<open>Codec::to_packet\<close>; \<open>expect\<close> panics on a failed write.\<close>

definition to_bytes :: "(bytes buffer_ops \<Rightarrow> 'a \<Rightarrow> bytes \<Rightarrow> bool \<times> bytes) \<Rightarrow> 'a \<Rightarrow> bytes run" where
  "to_bytes e x = (case e vec_ops x [] of (ok, b) \<Rightarrow> if ok then Done b else Panic)"

definition to_packet :: "(bytes buffer_ops \<Rightarrow> 'a \<Rightarrow> bytes \<Rightarrow> bool \<times> bytes) \<Rightarrow> 'a \<Rightarrow> bytes run" where
  "to_packet e x =
     (case e vec_ops x (replicate 4 0) of (ok, b) \<Rightarrow>
        if ok then Done (encode_len (length b - 4) @ drop 4 b) else Panic)"

text \<open>
  \<open>CodecExt::from_stream\<close> on a stream that delivers the given bytes and then ends:
  \<open>read_exact\<close> fails with an end-of-file error when too few are left.
\<close>

datatype io_error = UnexpectedEof | InvalidData | OutOfMemory | WriteZero

definition from_stream :: "(bytes \<Rightarrow> ('a \<times> bytes) option) \<Rightarrow> bytes \<Rightarrow> io_error + 'a" where
  "from_stream d s =
     (case s of hi # lo # s' \<Rightarrow>
        let len = decode_len hi lo in
        if length s' < len then Inl UnexpectedEof
        else (case d (take len s') of None \<Rightarrow> Inl InvalidData | Some (x, _) \<Rightarrow> Inr x)
      | _ \<Rightarrow> Inl UnexpectedEof)"

declare base128_encode.simps [simp del]

subsection \<open>The buffer interface\<close>

text \<open>
  A writer \<open>f\<close> writes \<open>bs\<close> when it appends exactly \<open>bs\<close> wherever that many
  bytes fit, and otherwise fails with only a prefix of \<open>bs\<close> appended. The first argument
  gives a buffer's contents, the second says how many more bytes fit into it.
\<close>

definition writes ::
  "('b \<Rightarrow> bool) \<Rightarrow> ('b \<Rightarrow> bytes) \<Rightarrow> ('b \<Rightarrow> nat \<Rightarrow> bool) \<Rightarrow> ('b \<Rightarrow> bool \<times> 'b) \<Rightarrow> bytes \<Rightarrow> bool" where
  "writes invar contents fits f bs \<longleftrightarrow>
     (\<forall>b. invar b \<longrightarrow> invar (snd (f b)) \<and>
        (if fits b (length bs)
         then fst (f b) \<and> contents (snd (f b)) = contents b @ bs \<and>
              (\<forall>n. fits (snd (f b)) n \<longleftrightarrow> fits b (length bs + n))
         else \<not> fst (f b) \<and> (\<exists>p. prefix p bs \<and> contents (snd (f b)) = contents b @ p)))"

lemma writes_fits:
  assumes "writes invar contents fits f bs" and "invar b" and "fits b (length bs)"
  obtains b' where "f b = (True, b')" and "invar b'" and "contents b' = contents b @ bs"
    and "\<forall>n. fits b' n \<longleftrightarrow> fits b (length bs + n)"
  using assms unfolding writes_def by (metis prod.collapse)

lemma writes_full:
  assumes "writes invar contents fits f bs" and "invar b" and "\<not> fits b (length bs)"
  obtains b' p where "f b = (False, b')" and "invar b'" and "contents b' = contents b @ p"
    and "prefix p bs"
  using assms unfolding writes_def by (metis prod.collapse)

lemma writesI:
  assumes "\<And>b. invar b \<Longrightarrow> fits b (length bs) \<Longrightarrow>
      \<exists>b'. f b = (True, b') \<and> invar b' \<and> contents b' = contents b @ bs \<and>
           (\<forall>n. fits b' n \<longleftrightarrow> fits b (length bs + n))"
    and "\<And>b. invar b \<Longrightarrow> \<not> fits b (length bs) \<Longrightarrow>
      \<exists>b' p. f b = (False, b') \<and> invar b' \<and> contents b' = contents b @ p \<and> prefix p bs"
  shows "writes invar contents fits f bs"
  unfolding writes_def
proof (intro allI impI)
  fix b assume b: "invar b"
  show "invar (snd (f b)) \<and> (if fits b (length bs)
      then fst (f b) \<and> contents (snd (f b)) = contents b @ bs \<and>
           (\<forall>n. fits (snd (f b)) n = fits b (length bs + n))
      else \<not> fst (f b) \<and> (\<exists>p. prefix p bs \<and> contents (snd (f b)) = contents b @ p))"
  proof (cases "fits b (length bs)")
    case True
    with assms(1) [OF b] obtain b' where "f b = (True, b')" "invar b'"
      "contents b' = contents b @ bs" "\<forall>n. fits b' n \<longleftrightarrow> fits b (length bs + n)" by blast
    with True show ?thesis by simp
  next
    case False
    with assms(2) [OF b] obtain b' p where "f b = (False, b')" "invar b'"
      "contents b' = contents b @ p" "prefix p bs" by blast
    with False show ?thesis by auto
  qed
qed

locale buffer =
  fixes ops :: "'b buffer_ops"
    and invar :: "'b \<Rightarrow> bool"
    and contents :: "'b \<Rightarrow> bytes"
    and fits :: "'b \<Rightarrow> nat \<Rightarrow> bool"
  assumes push_law: "writes invar contents fits (push ops x) [x]"
    and extend_law: "writes invar contents fits (extend_from_slice ops s) s"
    and fits_0: "invar b \<Longrightarrow> fits b 0"
    and fits_mono: "invar b \<Longrightarrow> fits b n \<Longrightarrow> m \<le> n \<Longrightarrow> fits b m"
begin

abbreviation wr :: "('b \<Rightarrow> bool \<times> 'b) \<Rightarrow> bytes \<Rightarrow> bool" where
  "wr \<equiv> writes invar contents fits"

lemma wr_skip: "wr skip_enc []"
  by (simp add: writes_def skip_enc_def fits_0)

lemma wr_seq:
  assumes f: "wr f xs" and g: "wr g ys"
  shows "wr (seq_enc f g) (xs @ ys)"
proof (rule writesI)
  fix b assume b: "invar b" and fits: "fits b (length (xs @ ys))"
  have fx: "fits b (length xs)" using fits_mono [OF b fits] by simp
  obtain b1 where b1: "f b = (True, b1)" "invar b1" "contents b1 = contents b @ xs"
    "\<forall>n. fits b1 n \<longleftrightarrow> fits b (length xs + n)" by (rule writes_fits [OF f b fx])
  have fy: "fits b1 (length ys)" using fits b1(4) by simp
  obtain b2 where "g b1 = (True, b2)" "invar b2" "contents b2 = contents b1 @ ys"
    "\<forall>n. fits b2 n \<longleftrightarrow> fits b1 (length ys + n)" by (rule writes_fits [OF g b1(2) fy])
  with b1 show "\<exists>b'. seq_enc f g b = (True, b') \<and> invar b' \<and> contents b' = contents b @ xs @ ys \<and>
      (\<forall>n. fits b' n \<longleftrightarrow> fits b (length (xs @ ys) + n))"
    by (auto simp: seq_enc_def add.assoc)
next
  fix b assume b: "invar b" and full: "\<not> fits b (length (xs @ ys))"
  show "\<exists>b' p. seq_enc f g b = (False, b') \<and> invar b' \<and> contents b' = contents b @ p \<and> prefix p (xs @ ys)"
  proof (cases "fits b (length xs)")
    case False
    obtain b1 p where "f b = (False, b1)" "invar b1" "contents b1 = contents b @ p" "prefix p xs"
      by (rule writes_full [OF f b False])
    then show ?thesis by (auto simp: seq_enc_def intro: prefix_prefix)
  next
    case True
    obtain b1 where b1: "f b = (True, b1)" "invar b1" "contents b1 = contents b @ xs"
      "\<forall>n. fits b1 n \<longleftrightarrow> fits b (length xs + n)" by (rule writes_fits [OF f b True])
    have ny: "\<not> fits b1 (length ys)" using full b1(4) by simp
    obtain b2 p where "g b1 = (False, b2)" "invar b2" "contents b2 = contents b1 @ p" "prefix p ys"
      by (rule writes_full [OF g b1(2) ny])
    with b1 show ?thesis by (auto simp: seq_enc_def)
  qed
qed

lemma wr_for:
  "(\<And>x. x \<in> set xs \<Longrightarrow> wr (e x) (bs x)) \<Longrightarrow> wr (for_enc e xs) (concat (map bs xs))"
  by (induction xs) (auto intro!: wr_skip wr_seq)

end

definition cap_vec_ok :: "cap_vec \<Rightarrow> bool" where
  "cap_vec_ok b \<longleftrightarrow> length (cv_data b) \<le> cv_capacity b"

interpretation vec: buffer vec_ops "\<lambda>b. True" "\<lambda>b. b" "\<lambda>b n. True"
  by unfold_locales (auto simp: writes_def vec_ops_def)

interpretation slc: buffer slice_ops "\<lambda>b. True" sl_written "\<lambda>b n. n \<le> length (sl_free b)"
  by unfold_locales (auto simp: writes_def slice_ops_def split: list.splits)

interpretation ncap: buffer no_cap_overflow_ops cap_vec_ok cv_data
  "\<lambda>b n. length (cv_data b) + n \<le> cv_capacity b"
  by unfold_locales (auto simp: writes_def no_cap_overflow_ops_def cap_vec_ok_def)

subsection \<open>What the encoders write\<close>

text \<open>The bytes of an integer in base 128, least significant group first.\<close>

function base128_bytes :: "u64 \<Rightarrow> bytes" where
  "base128_bytes v = base128_byte v # (if drop_bit 7 v = 0 then [] else base128_bytes (drop_bit 7 v))"
  by pat_completeness auto
termination
proof (relation "measure unat")
  fix v :: u64
  assume "drop_bit 7 v \<noteq> 0"
  then have "v \<noteq> 0" by (cases "v = 0") auto
  then have "0 < unat v" by (simp add: unat_gt_0)
  then have "unat v div 128 < unat v" by simp
  then show "(drop_bit 7 v, v) \<in> measure unat" by (simp add: drop_bit_eq_div unat_div)
qed simp

declare base128_bytes.simps [simp del]

definition usize_bytes :: "nat \<Rightarrow> bytes" where
  "usize_bytes n = base128_bytes (of_nat n)"

definition slice_bytes :: "bytes \<Rightarrow> bytes" where
  "slice_bytes s = usize_bytes (length s) @ s"

definition option_bytes :: "('a \<Rightarrow> bytes) \<Rightarrow> 'a option \<Rightarrow> bytes" where
  "option_bytes f x = (case x of Some t \<Rightarrow> 1 # f t | None \<Rightarrow> [0])"

definition result_bytes :: "('r \<Rightarrow> bytes) \<Rightarrow> ('e \<Rightarrow> bytes) \<Rightarrow> 'e + 'r \<Rightarrow> bytes" where
  "result_bytes f g x = (case x of Inr r \<Rightarrow> 1 # f r | Inl e \<Rightarrow> 0 # g e)"

definition vec_bytes :: "('a \<Rightarrow> bytes) \<Rightarrow> 'a list \<Rightarrow> bytes" where
  "vec_bytes f xs = usize_bytes (length xs) @ concat (map f xs)"

lemma base128_bytes_nonempty [simp]: "base128_bytes v \<noteq> []"
  by (subst base128_bytes.simps) simp

lemma base128_byte_low: "ucast (base128_byte v AND 127) = v AND (127 :: u64)"
  by (rule bit_word_eqI) (auto simp: base128_byte_def Let_def bit_simps bit_lits)

lemma base128_byte_high: "base128_byte v AND 128 = 0 \<longleftrightarrow> drop_bit 7 v = 0"
proof -
  have "base128_byte v AND 128 = 0 \<longleftrightarrow> \<not> bit (base128_byte v) 7"
    unfolding bit_eq_iff [of _ "0 :: u8"] by (auto simp: bit_simps bit_lits dest: spec [of _ 7])
  also have "\<dots> \<longleftrightarrow> drop_bit 7 v = 0"
    by (auto simp: base128_byte_def Let_def bit_simps bit_lits)
  finally show ?thesis .
qed

lemma base128_shift_split:
  "push_bit s (v AND 127) OR push_bit (s + 7) (drop_bit 7 v) = push_bit s (v :: u64)"
proof (rule bit_word_eqI)
  fix n assume "n < LENGTH(64)"
  show "bit (push_bit s (v AND 127) OR push_bit (s + 7) (drop_bit 7 v)) n \<longleftrightarrow> bit (push_bit s v) n"
  proof (cases "s + 7 \<le> n")
    case True
    then have "7 + (n - (s + 7)) = n - s" and "\<not> n - s < 7" by auto
    with True show ?thesis by (simp add: bit_simps bit_lits)
  qed (auto simp: bit_simps bit_lits)
qed

lemma length_base128_bytes: "0 < k \<Longrightarrow> unat v < 2 ^ (7 * k) \<Longrightarrow> length (base128_bytes v) \<le> k"
proof (induction k arbitrary: v)
  case (Suc k)
  show ?case
  proof (cases "drop_bit 7 v = 0")
    case True
    then show ?thesis by (subst base128_bytes.simps) simp
  next
    case False
    have d: "unat (drop_bit 7 v) = unat v div 128" by (simp add: drop_bit_eq_div unat_div)
    with False have "0 < unat v div 128" by (metis gr0I unat_eq_zero)
    then have "128 \<le> unat v" by (simp add: div_greater_zero_iff)
    with Suc.prems have "0 < k" by (cases k) auto
    moreover have "unat (drop_bit 7 v) < 2 ^ (7 * k)"
      unfolding d using Suc.prems(2) by (simp add: less_mult_imp_div_less power_add mult.commute)
    ultimately have "length (base128_bytes (drop_bit 7 v)) \<le> k" by (rule Suc.IH)
    with False show ?thesis by (subst base128_bytes.simps) simp
  qed
qed simp

lemma length_base128_bytes_10: "length (base128_bytes v) \<le> 10"
proof (rule length_base128_bytes)
  have "unat v < 2 ^ 64" using unat_less_exp [of v] by simp
  also have "\<dots> \<le> 2 ^ (7 * 10)" by simp
  finally show "unat v < 2 ^ (7 * 10)" .
qed simp

lemma base128_decode_loop_bytes:
  "length (base128_bytes v) \<le> n \<Longrightarrow>
   base128_decode_loop n acc s (base128_bytes v @ r) = Some (acc OR push_bit s v, r)"
proof (induction v arbitrary: n acc s rule: base128_bytes.induct)
  case (1 v)
  have bs: "base128_bytes v = base128_byte v # (if drop_bit 7 v = 0 then [] else base128_bytes (drop_bit 7 v))"
    by (rule base128_bytes.simps)
  with "1.prems" obtain m where n: "n = Suc m" by (cases n) auto
  show ?case
  proof (cases "drop_bit 7 v = 0")
    case True
    have "push_bit s (v AND 127) = push_bit s v"
      using base128_shift_split [of s v] True by simp
    with True show ?thesis
      unfolding bs n by (simp add: base128_byte_high base128_byte_low Let_def)
  next
    case False
    have "length (base128_bytes (drop_bit 7 v)) \<le> m" using "1.prems" False bs n by simp
    from "1.IH" [OF False this] False show ?thesis
      unfolding bs n
      by (simp add: base128_byte_high base128_byte_low Let_def or.assoc base128_shift_split
          del: push_bit_and)
  qed
qed

lemma base128_decode_bytes [dec_simps]: "base128_decode (base128_bytes v @ r) = Some (v, r)"
  using base128_decode_loop_bytes [OF length_base128_bytes_10, of 0 0 v r]
  by (simp add: base128_decode_def)

lemma usize_bytes_nonempty [simp]: "usize_bytes n \<noteq> []"
  by (simp add: usize_bytes_def)

lemma slice_bytes_nonempty [simp]: "slice_bytes s \<noteq> []"
  by (simp add: slice_bytes_def)

lemma decode_usize_bytes [dec_simps]:
  "n < 2 ^ 64 \<Longrightarrow> decode_usize (usize_bytes n @ r) = Some (n, r)"
  by (simp add: decode_usize_def usize_bytes_def base128_decode_bytes unat_of_nat_less)

lemma decode_slice_bytes [dec_simps]:
  "length s < 2 ^ 64 \<Longrightarrow> decode_slice (slice_bytes s @ r) = Some (s, r)"
  by (simp add: decode_slice_def slice_bytes_def decode_usize_bytes)

subsection \<open>The encoders over any buffer\<close>

context buffer
begin

lemma wr_base128: "wr (base128_encode ops v) (base128_bytes v)"
proof (induction v rule: base128_bytes.induct)
  case (1 v)
  have enc: "base128_encode ops v =
      seq_enc (push ops (base128_byte v)) (if drop_bit 7 v = 0 then skip_enc else base128_encode ops (drop_bit 7 v))"
    by (rule ext, subst base128_encode.simps) (auto simp: seq_enc_def skip_enc_def split: prod.splits)
  show ?case
  proof (cases "drop_bit 7 v = 0")
    case True
    then show ?thesis unfolding enc
      by (subst base128_bytes.simps) (use wr_seq [OF push_law wr_skip] in simp)
  next
    case False
    then show ?thesis unfolding enc
      by (subst base128_bytes.simps) (use wr_seq [OF push_law "1.IH" [OF False]] in simp)
  qed
qed

lemma wr_usize: "wr (encode_usize ops n) (usize_bytes n)"
  by (simp add: encode_usize_def usize_bytes_def wr_base128)

lemma wr_slice: "wr (encode_slice ops s) (slice_bytes s)"
  by (simp add: encode_slice_def slice_bytes_def wr_seq [OF wr_usize extend_law])

lemma wr_push: "wr f xs \<Longrightarrow> wr (seq_enc (push ops x) f) (x # xs)"
  using wr_seq [OF push_law, of f xs x] by simp

lemma wr_option:
  "(\<And>t. x = Some t \<Longrightarrow> wr (e ops t) (f t)) \<Longrightarrow> wr (encode_option e ops x) (option_bytes f x)"
  by (cases x) (simp_all add: encode_option_def option_bytes_def encode_bool_def push_law wr_push)

lemma wr_result:
  "(\<And>r. x = Inr r \<Longrightarrow> wr (er ops r) (f r)) \<Longrightarrow> (\<And>e. x = Inl e \<Longrightarrow> wr (ee ops e) (g e)) \<Longrightarrow>
   wr (encode_result er ee ops x) (result_bytes f g x)"
  by (cases x) (simp_all add: encode_result_def result_bytes_def encode_bool_def wr_push)

lemma wr_variant: "wr f xs \<Longrightarrow> wr (encode_variant ops i f) (of_nat i # xs)"
  by (simp add: encode_variant_def wr_push)

lemma wr_pair:
  "wr (ex ops (fst p)) (f (fst p)) \<Longrightarrow> wr (ey ops (snd p)) (g (snd p)) \<Longrightarrow>
   wr (encode_pair ex ey ops p) (f (fst p) @ g (snd p))"
  by (simp add: encode_pair_def wr_seq)

lemma wr_vec:
  "(\<And>x. x \<in> set xs \<Longrightarrow> wr (e ops x) (f x)) \<Longrightarrow> wr (encode_vec e ops xs) (vec_bytes f xs)"
  unfolding encode_vec_def vec_bytes_def by (intro wr_seq wr_usize wr_for)

end

subsection \<open>The codec interface\<close>

text \<open>
  A codec over a lawful buffer: the encoder writes the representation of a valid value, and the
  decoder reads it back and stops at its end, whatever follows.
\<close>

locale codec = buffer ops invar contents fits
  for ops :: "'b buffer_ops" and invar contents fits +
  fixes enc :: "'b buffer_ops \<Rightarrow> 'a \<Rightarrow> 'b \<Rightarrow> bool \<times> 'b"
    and dec :: "bytes \<Rightarrow> ('a \<times> bytes) option"
    and valid :: "'a \<Rightarrow> bool"
    and repr :: "'a \<Rightarrow> bytes"
  assumes enc_law: "valid x \<Longrightarrow> writes invar contents fits (enc ops x) (repr x)"
    and dec_law: "valid x \<Longrightarrow> dec (repr x @ r) = Some (x, r)"
begin

lemma round_trip:
  assumes "valid x" and "invar b" and "fits b (length (repr x))"
  shows "\<exists>b' bs. enc ops x b = (True, b') \<and> contents b' = contents b @ bs \<and> dec (bs @ r) = Some (x, r)"
  using writes_fits [OF enc_law [OF assms(1)] assms(2,3)] dec_law [OF assms(1)] by metis

lemma prefix_free:
  assumes "valid x" and "valid y" and "prefix (repr x) (repr y)"
  shows "x = y"
proof -
  from assms(3) obtain z where "repr y = repr x @ z" by (auto simp: prefix_def)
  then have "dec (repr y @ []) = Some (x, z)" using dec_law [OF assms(1)] by simp
  with dec_law [OF assms(2), of "[]"] show ?thesis by simp
qed

lemma overflow_leaves_prefix:
  assumes "valid x" and "invar b" and "\<not> fits b (length (repr x))"
  shows "\<exists>b' p. enc ops x b = (False, b') \<and> contents b' = contents b @ p \<and> prefix p (repr x)"
  using writes_full [OF enc_law [OF assms(1)] assms(2,3)] by metis

lemma dec_n_law:
  "\<forall>x\<in>set xs. valid x \<Longrightarrow> decode_n dec (length xs) (concat (map repr xs) @ r) = Some (xs, r)"
  by (induction xs) (auto simp: dec_law)

lemma array_tries_law:
  "\<forall>x\<in>set xs. valid x \<Longrightarrow>
   array_tries dec (length xs) (concat (map repr xs) @ r) = (map Some xs, r)"
  by (induction xs) (auto simp: dec_law)

lemma option_codec:
  "codec ops invar contents fits (encode_option enc) (decode_option dec)
     (\<lambda>x. \<forall>t. x = Some t \<longrightarrow> valid t) (option_bytes repr)"
proof unfold_locales
  fix x r assume v: "\<forall>t. x = Some t \<longrightarrow> valid t"
  then show "wr (encode_option enc ops x) (option_bytes repr x)" by (intro wr_option enc_law) simp
  from v show "decode_option dec (option_bytes repr x @ r) = Some (x, r)"
    by (cases x) (simp_all add: decode_option_def option_bytes_def dec_law)
qed

lemma array_codec:
  "codec ops invar contents fits (encode_array enc) (decode_array SIZE dec)
     (\<lambda>xs. length xs = SIZE \<and> (\<forall>x\<in>set xs. valid x)) (\<lambda>xs. concat (map repr xs))"
proof unfold_locales
  fix xs r assume v: "length xs = SIZE \<and> (\<forall>x\<in>set xs. valid x)"
  then show "wr (encode_array enc ops xs) (concat (map repr xs))"
    unfolding encode_array_def by (intro wr_for enc_law) simp
  from v show "decode_array SIZE dec (concat (map repr xs) @ r) = Some (xs, r)"
    by (auto simp: decode_array_def array_tries_law list_ex_iff comp_def)
qed

lemma array_vec_codec:
  assumes "LEN < 2 ^ 64"
  shows "codec ops invar contents fits (encode_vec enc) (decode_array_vec LEN dec)
     (\<lambda>xs. length xs \<le> LEN \<and> (\<forall>x\<in>set xs. valid x)) (vec_bytes repr)"
proof unfold_locales
  fix xs r assume v: "length xs \<le> LEN \<and> (\<forall>x\<in>set xs. valid x)"
  then show "wr (encode_vec enc ops xs) (vec_bytes repr xs)" by (intro wr_vec enc_law) simp
  from v assms show "decode_array_vec LEN dec (vec_bytes repr xs @ r) = Some (xs, r)"
    by (simp add: decode_array_vec_def vec_bytes_def dec_n_law decode_usize_bytes)
qed

end

text \<open>
  A codec whose representations are never empty can be put in a \<open>Vec\<close>: the decoder refuses a
  length beyond the bytes that are left.
\<close>

locale codec_nonempty = codec +
  assumes repr_nonempty: "valid x \<Longrightarrow> repr x \<noteq> []"
begin

lemma length_concat_repr: "\<forall>x\<in>set xs. valid x \<Longrightarrow> length xs \<le> length (concat (map repr xs))"
proof (induction xs)
  case (Cons x xs)
  then have "repr x \<noteq> []" using repr_nonempty [of x] by simp
  with Cons show ?case by (cases "repr x") auto
qed simp

lemma vec_codec:
  "codec_nonempty ops invar contents fits (encode_vec enc) (decode_vec dec)
     (\<lambda>xs. length xs < 2 ^ 64 \<and> (\<forall>x\<in>set xs. valid x)) (vec_bytes repr)"
proof unfold_locales
  fix xs r
  assume v: "length xs < 2 ^ 64 \<and> (\<forall>x\<in>set xs. valid x)"
  then show "writes invar contents fits (encode_vec enc ops xs) (vec_bytes repr xs)"
    by (auto intro!: wr_vec enc_law)
  have "length xs \<le> length (concat (map repr xs) @ r)" using length_concat_repr [of xs] v by simp
  then show "decode_vec dec (vec_bytes repr xs @ r) = Some (xs, r)"
    using v by (simp add: decode_vec_def vec_bytes_def decode_usize_bytes dec_n_law)
  show "vec_bytes repr xs \<noteq> []" by (simp add: vec_bytes_def usize_bytes_def)
qed

end

text \<open>Two codecs over the same buffer: tuples, structs and results.\<close>

lemma pair_codec:
  assumes "codec ops invar contents fits e1 d1 v1 r1" and "codec ops invar contents fits e2 d2 v2 r2"
  shows "codec ops invar contents fits (encode_pair e1 e2) (decode_pair d1 d2)
    (\<lambda>p. v1 (fst p) \<and> v2 (snd p)) (\<lambda>p. r1 (fst p) @ r2 (snd p))"
  by (intro codec.intro codec_axioms.intro codec.axioms(1) [OF assms(1)])
    (auto simp: decode_pair_def codec.dec_law [OF assms(1)] codec.dec_law [OF assms(2)]
      intro!: buffer.wr_pair [OF codec.axioms(1) [OF assms(1)]] codec.enc_law [OF assms(1)]
        codec.enc_law [OF assms(2)])

lemma result_codec:
  assumes "codec ops invar contents fits e1 d1 v1 r1" and "codec ops invar contents fits e2 d2 v2 r2"
  shows "codec ops invar contents fits (encode_result e1 e2) (decode_result d1 d2)
    (\<lambda>x. case x of Inr r \<Rightarrow> v1 r | Inl e \<Rightarrow> v2 e) (result_bytes r1 r2)"
proof (intro codec.intro codec_axioms.intro codec.axioms(1) [OF assms(1)])
  fix x r assume v: "case x of Inr r \<Rightarrow> v1 r | Inl e \<Rightarrow> v2 e"
  then show "writes invar contents fits (encode_result e1 e2 ops x) (result_bytes r1 r2 x)"
    by (intro buffer.wr_result [OF codec.axioms(1) [OF assms(1)]])
      (auto intro: codec.enc_law [OF assms(1)] codec.enc_law [OF assms(2)])
  from v show "decode_result d1 d2 (result_bytes r1 r2 x @ r) = Some (x, r)"
    by (cases x) (simp_all add: decode_result_def result_bytes_def codec.dec_law [OF assms(1)]
        codec.dec_law [OF assms(2)])
qed

text \<open>The basic codecs over every lawful buffer.\<close>

sublocale buffer \<subseteq> usize: codec_nonempty ops invar contents fits
  encode_usize decode_usize "\<lambda>n. n < 2 ^ 64" usize_bytes
  by unfold_locales (simp_all add: wr_usize decode_usize_bytes)

sublocale buffer \<subseteq> int64: codec_nonempty ops invar contents fits
  encode_int decode_int "\<lambda>_ :: u64. True" base128_bytes
  by unfold_locales (simp_all add: encode_int_def decode_int_def wr_base128 base128_decode_bytes)

sublocale buffer \<subseteq> byte: codec_nonempty ops invar contents fits
  encode_u8 decode_u8 "\<lambda>_. True" "\<lambda>x. [x]"
  by unfold_locales (simp_all add: encode_u8_def push_law)

sublocale buffer \<subseteq> boolean: codec_nonempty ops invar contents fits
  encode_bool decode_bool "\<lambda>_. True" "\<lambda>x. [if x then 1 else 0]"
  by unfold_locales (simp_all add: encode_bool_def push_law)

sublocale buffer \<subseteq> slice: codec_nonempty ops invar contents fits
  encode_slice decode_slice "\<lambda>s. length s < 2 ^ 64" slice_bytes
  by unfold_locales (simp_all add: wr_slice decode_slice_bytes)

sublocale buffer \<subseteq> str: codec_nonempty ops invar contents fits
  encode_str decode_str "\<lambda>s. length s < 2 ^ 64 \<and> valid_utf8 s" slice_bytes
  by unfold_locales (simp_all add: encode_str_def wr_slice decode_str_def slice.dec_law slice.repr_nonempty)

subsection \<open>Helper lemmas of the properties\<close>

lemma encode_int_writes: "writes (\<lambda>b. True) (\<lambda>b. b) (\<lambda>b n. True) (encode_int vec_ops x) (base128_bytes (ucast x))"
  unfolding encode_int_def by (rule vec.wr_base128)

lemma decode_int_bytes:
  "decode_int (base128_bytes (ucast (x :: 'a::len word)) @ r) = Some (ucast (ucast x :: u64) :: 'a word, r)"
  by (simp add: decode_int_def base128_decode_bytes)

lemma ucast_u64_inverse: "LENGTH('a::len) \<le> 64 \<Longrightarrow> ucast (ucast (x :: 'a word) :: u64) = x"
  by (rule bit_word_eqI) (auto simp: bit_simps)

lemma vec_encode_codec:
  assumes "codec vec_ops (\<lambda>b. True) (\<lambda>b. b) (\<lambda>b n. True) e d valid repr" and "valid x"
  shows "e vec_ops x b = (True, b @ repr x)"
  using codec.enc_law [OF assms] unfolding writes_def by (metis prod.collapse)

lemma vec_u8_codec:
  "codec_nonempty vec_ops (\<lambda>b. True) (\<lambda>b. b) (\<lambda>b n. True) encode_u8 decode_u8 (\<lambda>_. True) (\<lambda>x. [x])"
  by unfold_locales

lemma vec_bool_codec:
  "codec_nonempty vec_ops (\<lambda>b. True) (\<lambda>b. b) (\<lambda>b n. True) encode_bool decode_bool (\<lambda>_. True)
     (\<lambda>x. [if x then 1 else 0])"
  by unfold_locales

lemma decode_len_encode_len:
  "n < 65536 \<Longrightarrow> \<exists>hi lo. encode_len n = [hi, lo] \<and> decode_len hi lo = n"
  by (auto simp: encode_len_def decode_len_def u16_to_be_bytes_def unat_of_nat_less)

lemma base128_bytes_next_continues:
  assumes "128 \<le> bb_value it"
  shows "fst (base128_bytes_next it) \<noteq> None \<and> 128 \<le> bb_value (snd (base128_bytes_next it))"
proof -
  let ?v = "drop_bit 7 (bb_value it)"
  have "unat ?v = unat (bb_value it) div 128" by (simp add: drop_bit_eq_div unat_div)
  moreover have "1 \<le> unat (bb_value it) div 128" using assms by (simp add: word_le_nat_alt div_greater_zero_iff)
  ultimately have nz: "?v \<noteq> 0" by (metis not_one_le_zero unat_0)
  have "uint ?v OR 128 \<ge> 128"
    using or_greater_eq [of "uint ?v" 128] by (simp add: or.commute)
  then have "128 \<le> ?v OR 128" by (simp add: word_le_def unsigned_or_eq)
  with nz assms show ?thesis by (auto simp: base128_bytes_next_def Let_def)
qed

lemma fold_map_upd_distinct:
  "distinct (map fst kvs) \<Longrightarrow> fold (\<lambda>(k, v) m. m(k \<mapsto> v)) kvs m = m ++ map_of kvs"
proof (induction kvs arbitrary: m)
  case (Cons kv kvs)
  obtain k v where kv: "kv = (k, v)" by force
  have "k \<notin> dom (map_of kvs)" using Cons.prems kv by (simp add: dom_map_of_conv_image_fst)
  then have "m(k \<mapsto> v) ++ map_of kvs = m ++ (map_of kvs)(k \<mapsto> v)" by (auto simp: fun_eq_iff map_add_def split: option.splits)
  moreover have "distinct (map fst kvs)" using Cons.prems by simp
  ultimately show ?case using Cons.IH [of "m(k \<mapsto> v)"] kv by (simp only: fold_simps prod.case map_of.simps fst_conv snd_conv comp_apply)
qed simp

subsection \<open>Properties\<close>

text \<open>C32: Integers round trip over the capacity bounded buffer of the packets: whenever ten more
  bytes fit, every unsigned integer of at most 64 bits is appended in at most ten bytes, and the
  decoder reads exactly it back, whatever bytes follow.\<close>

theorem int_round_trip:
  fixes x :: "'a::len word"
  assumes "LENGTH('a) \<le> 64" and "cap_vec_ok b" and "length (cv_data b) + 10 \<le> cv_capacity b"
  shows "\<exists>b' bs. encode_int no_cap_overflow_ops x b = (True, b') \<and> cv_data b' = cv_data b @ bs \<and>
    length bs \<le> 10 \<and> decode_int (bs @ r) = Some (x, r)"
proof -
  have "length (cv_data b) + length (base128_bytes (ucast x)) \<le> cv_capacity b"
    using assms(3) length_base128_bytes_10 [of "ucast x"] by linarith
  then obtain b' where "base128_encode no_cap_overflow_ops (ucast x) b = (True, b')"
    "cv_data b' = cv_data b @ base128_bytes (ucast x)"
    by (rule writes_fits [OF ncap.wr_base128 assms(2)])
  then show ?thesis
    using length_base128_bytes_10 decode_int_bytes [of x r] assms(1)
    by (auto simp: encode_int_def ucast_u64_inverse)
qed

theorem int_round_trip_witness:
  "\<exists>b' bs. encode_int no_cap_overflow_ops (300 :: u16) \<lparr>cv_data = [7], cv_capacity = 16\<rparr> = (True, b') \<and>
    cv_data b' = [7] @ bs \<and> length bs \<le> 10 \<and> decode_int (bs @ [9]) = Some (300 :: u16, [9])"
  using int_round_trip [of "\<lparr>cv_data = [7], cv_capacity = 16\<rparr>" "300 :: u16" "[9]"]
  by (simp add: cap_vec_ok_def)

text \<open>The codec of \<open>u128\<close> goes through \<open>u64\<close>: what is read back is the value
  modulo two to the 64, so a value that needs more than 64 bits does not survive.\<close>

theorem u128_codec_truncates:
  "\<exists>bs. to_bytes encode_int (x :: u128) = Done bs \<and> decode_int (bs @ r) = Some (take_bit 64 x, r)"
proof -
  have "encode_int vec_ops x [] = (True, base128_bytes (ucast x))"
    using encode_int_writes [of x] unfolding writes_def by (metis append_Nil prod.collapse)
  moreover have "ucast (ucast x :: u64) = take_bit 64 x"
    by (rule bit_word_eqI) (auto simp: bit_simps)
  ultimately show ?thesis using decode_int_bytes [of x r] by (simp add: to_bytes_def)
qed

text \<open>A packet built by \<open>to_packet\<close> is read back by \<open>from_stream\<close> from a stream that
  starts with it, for every value of a lawful codec whose encoding is shorter than 65536 bytes.\<close>

theorem packet_round_trip:
  assumes "codec vec_ops (\<lambda>b. True) (\<lambda>b. b) (\<lambda>b n. True) e d valid repr"
    and "valid x" and "length (repr x) < 65536"
  shows "\<exists>p. to_packet e x = Done p \<and> from_stream d (p @ rest) = Inr x"
proof -
  obtain hi lo where len: "encode_len (length (repr x)) = [hi, lo]" "decode_len hi lo = length (repr x)"
    using decode_len_encode_len [OF assms(3)] by blast
  have "to_packet e x = Done ([hi, lo] @ repr x)"
    using vec_encode_codec [OF assms(1,2)] len(1) by (simp add: to_packet_def)
  moreover have "from_stream d ([hi, lo] @ repr x @ rest) = Inr x"
    using codec.dec_law [OF assms(1,2), of "[]"] len(2) by (simp add: from_stream_def)
  ultimately show ?thesis by simp
qed

theorem packet_round_trip_witness:
  "\<exists>p. to_packet encode_slice [1, 2, 3] = Done p \<and> from_stream decode_slice (p @ [9]) = Inr [1, 2, 3]"
proof -
  have "length (slice_bytes [1, 2, 3]) < 65536"
    using length_base128_bytes_10 [of 3] by (simp add: slice_bytes_def usize_bytes_def)
  then show ?thesis
    by (intro packet_round_trip [OF vec.slice.codec_axioms]) simp_all
qed

text \<open>A hash map whose keys and values have lawful codecs, and whose keys have non-empty
  representations as the values do, is decoded from the bytes of its entries to the same map.\<close>

theorem hashmap_round_trip:
  assumes k: "codec_nonempty vec_ops (\<lambda>b. True) (\<lambda>b. b) (\<lambda>b n. True) ek dk vk rk"
    and v: "codec_nonempty vec_ops (\<lambda>b. True) (\<lambda>b. b) (\<lambda>b n. True) ev dv vv rv"
    and ok: "\<forall>(x, y)\<in>set kvs. vk x \<and> vv y" and len: "length kvs < 2 ^ 63"
    and dist: "distinct (map fst kvs)"
  shows "\<exists>bs. to_bytes (encode_hashmap ek ev) kvs = Done bs \<and>
    decode_hashmap dk dv (bs @ r) = Some (map_of kvs, r)"
proof -
  have c: "codec vec_ops (\<lambda>b. True) (\<lambda>b. b) (\<lambda>b n. True) (encode_pair ek ev) (decode_pair dk dv)
      (\<lambda>p. vk (fst p) \<and> vv (snd p)) (\<lambda>p. rk (fst p) @ rv (snd p))"
    using k v by (intro pair_codec codec_nonempty.axioms(1))
  have all: "\<forall>p\<in>set kvs. vk (fst p) \<and> vv (snd p)" using ok by auto
  let ?body = "concat (map (\<lambda>p. rk (fst p) @ rv (snd p)) kvs)"
  have "length ?body \<ge> 2 * length kvs"
    using all
  proof (induction kvs)
    case (Cons p kvs)
    then have "rk (fst p) \<noteq> []" "rv (snd p) \<noteq> []"
      using codec_nonempty.repr_nonempty [OF k] codec_nonempty.repr_nonempty [OF v] by auto
    with Cons show ?case by (cases "rk (fst p)"; cases "rv (snd p)") auto
  qed simp
  moreover have "to_bytes (encode_hashmap ek ev) kvs = Done (usize_bytes (length kvs) @ ?body)"
  proof -
    have "writes (\<lambda>b. True) (\<lambda>b. b) (\<lambda>b n. True) (encode_hashmap ek ev vec_ops kvs)
        (usize_bytes (length kvs) @ ?body)"
      unfolding encode_hashmap_def
      using all by (intro vec.wr_seq vec.wr_usize vec.wr_for codec.enc_law [OF c]) auto
    then show ?thesis unfolding writes_def to_bytes_def
      by (metis (mono_tags, lifting) append_Nil case_prod_beta)
  qed
  ultimately show ?thesis
    using len codec.dec_n_law [OF c all, of r] dist
    by (simp add: decode_hashmap_def decode_usize_bytes fold_map_upd_distinct)
qed

theorem hashmap_round_trip_witness:
  "\<exists>bs. to_bytes (encode_hashmap encode_u8 encode_bool) [(5, True), (6, False)] = Done bs \<and>
    decode_hashmap decode_u8 decode_bool (bs @ [1]) = Some (map_of [(5, True), (6, False)], [1])"
  by (rule hashmap_round_trip [OF vec_u8_codec vec_bool_codec]) simp_all

text \<open>The iterator \<open>Base128Bytes\<close> puts the continuation bit into the value instead of the
  byte: started from a value of 128 or more it never returns \<open>None\<close>.\<close>

theorem base128_bytes_never_ends:
  assumes "128 \<le> v"
  shows "fst (base128_bytes_next (((snd \<circ> base128_bytes_next) ^^ n) (base128_bytes_new v))) \<noteq> None"
proof -
  have "128 \<le> bb_value (((snd \<circ> base128_bytes_next) ^^ n) (base128_bytes_new v))"
    using assms by (induction n) (simp_all add: base128_bytes_new_def base128_bytes_next_continues)
  then show ?thesis using base128_bytes_next_continues by blast
qed

theorem base128_bytes_never_ends_witness:
  "fst (base128_bytes_next (((snd \<circ> base128_bytes_next) ^^ 20) (base128_bytes_new 128))) \<noteq> None"
  by (rule base128_bytes_never_ends) simp

end
