(* ===== verification/Node_Staker.thy ===== *)
theory Node_Staker
  imports Prelude
begin

section \<open>The contract of the node stakes (\<open>contracts/node_staker/lib.rs\<close>)\<close>

text \<open>
  The ink! contract that nodes join with a fixed stake, vote on each other's stakes, and get
  their stake back, less the slashes, after the lock period; and the conversions of node
  addresses of \<open>core/chain-types/src/lib.rs\<close>.

  A failed \<open>assert!\<close> or \<open>expect\<close> traps: the call is \<open>Panic\<close> and the chain keeps the old
  storage. What the chain tells a call (caller, transferred value, time) is the record \<open>call\<close>;
  whether it can carry out a transfer is an argument. Overflow of the plain operators traps or
  wraps depending on the build, the argument \<open>checks\<close>. Account ids are a type parameter.
\<close>

type_synonym crypto_hash = bytes
type_synonym ed = bytes
type_synonym i32 = "32 word"

definition STAKE_AMOUNT :: u128 where
  "STAKE_AMOUNT = 1000000"

definition INIT_VOTE_POOL :: u32 where
  "INIT_VOTE_POOL = 3"

definition STAKE_DURATION_MILIS :: u64 where
  "STAKE_DURATION_MILIS = 1000 * 60 * 60 * 24 * 30"

definition BASE_SLASH :: u128 where
  "BASE_SLASH = 2"

definition SLASH_FACTOR :: u32 where
  "SLASH_FACTOR = 1"

datatype node_address = Ip4 bytes | Ip6 bytes

datatype ('key, 'naddr) stake_event =
    Joined 'key 'naddr
  | Reclaimed 'key
  | AddrChanged 'key 'naddr

type_synonym staker_event = "(ed, node_address) stake_event"

record votes =
  vt_pool :: u32
  vt_rating :: u32

definition votes_default :: votes where
  "votes_default = \<lparr>vt_pool = INIT_VOTE_POOL, vt_rating = 0\<rparr>"

record node_identity =
  ni_sign :: crypto_hash
  ni_enc :: crypto_hash

record node_data =
  nd_sign :: crypto_hash
  nd_enc :: crypto_hash
  nd_id :: ed

record 'acc stake =
  st_owner :: 'acc
  st_amount :: u128
  st_created_at :: u64
  st_votes :: votes
  st_id :: ed
  st_addr :: node_address

record 'acc node_staker =
  stakes :: "node_identity \<rightharpoonup> 'acc stake"
  stake_list :: "node_identity list"

record 'acc call =
  caller :: 'acc
  transferred_value :: u128
  block_timestamp :: u64

subsection \<open>Arithmetic\<close>

definition saturating_sub :: "'a::len word \<Rightarrow> 'a word \<Rightarrow> 'a word" where
  "saturating_sub a b = (if b \<le> a then a - b else 0)"

definition shl_u128 :: "bool \<Rightarrow> u128 \<Rightarrow> nat \<Rightarrow> u128 run" where
  "shl_u128 checks a n =
     (if n < 128 then Done (push_bit n a)
      else if checks then Panic else Done (push_bit (n mod 128) a))"

definition add_u64 :: "bool \<Rightarrow> u64 \<Rightarrow> u64 \<Rightarrow> u64 run" where
  "add_u64 checks a b = (if checks \<and> 2 ^ 64 \<le> unat a + unat b then Panic else Done (a + b))"

definition neg_i32 :: "bool \<Rightarrow> i32 \<Rightarrow> i32 run" where
  "neg_i32 checks a = (if checks \<and> sint a = - (2 ^ 31) then Panic else Done (- a))"

definition checked_sub_u32 :: "u32 \<Rightarrow> nat \<Rightarrow> u32 option" where
  "checked_sub_u32 a b = (if b \<le> unat a then Some (a - of_nat b) else None)"

definition checked_add_signed :: "u32 \<Rightarrow> i32 \<Rightarrow> u32 option" where
  "checked_add_signed a d =
     (let r = uint a + sint d in if 0 \<le> r \<and> r < 2 ^ 32 then Some (of_int r) else None)"

definition unsigned_abs :: "i32 \<Rightarrow> nat" where
  "unsigned_abs a = nat \<bar>sint a\<bar>"

subsection \<open>The messages\<close>

definition apply_slashes :: "bool \<Rightarrow> 'acc stake \<Rightarrow> u128 run" where
  "apply_slashes checks s =
     (if 0 < vt_rating (st_votes s)
      then run_bind (shl_u128 checks BASE_SLASH (unat (vt_rating (st_votes s) * SLASH_FACTOR)))
        (\<lambda>slash. Done (saturating_sub (st_amount s) slash))
      else Done (st_amount s))"

definition staker_new :: "'acc node_staker" where
  "staker_new = \<lparr>stakes = Map.empty, stake_list = []\<rparr>"

definition join :: "'acc call \<Rightarrow> node_data \<Rightarrow> node_address \<Rightarrow> 'acc node_staker \<Rightarrow>
    ('acc node_staker \<times> staker_event list) run" where
  "join c data a s =
     run_bind (run_assert (transferred_value c = STAKE_AMOUNT)) (\<lambda>_.
       let stake = \<lparr>st_owner = caller c, st_amount = transferred_value c, st_created_at = block_timestamp c,
             st_votes = votes_default, st_id = nd_id data, st_addr = a\<rparr>;
           id = \<lparr>ni_sign = nd_sign data, ni_enc = nd_enc data\<rparr> in
       run_bind (run_assert (stakes s id = None)) (\<lambda>_.
         Done (\<lparr>stakes = (stakes s)(id \<mapsto> stake), stake_list = stake_list s @ [id]\<rparr>,
           [Joined (nd_id data) a])))"

definition vote :: "bool \<Rightarrow> 'acc call \<Rightarrow> node_identity \<Rightarrow> node_identity \<Rightarrow> i32 \<Rightarrow> 'acc node_staker \<Rightarrow>
    ('acc node_staker \<times> staker_event list) run" where
  "vote checks c identity target r s =
     run_bind (run_expect (stakes s identity)) (\<lambda>stake.
     run_bind (run_assert (st_owner stake = caller c)) (\<lambda>_.
     run_bind (run_expect (stakes s target)) (\<lambda>target_stake.
     run_bind (run_assert (st_owner target_stake \<noteq> caller c)) (\<lambda>_.
     run_bind (run_expect (checked_sub_u32 (vt_pool (st_votes stake)) (unsigned_abs r))) (\<lambda>pool'.
     run_bind (neg_i32 checks r) (\<lambda>r'.
     run_bind (run_expect (checked_add_signed (vt_rating (st_votes target_stake)) r')) (\<lambda>rating'.
       let stake' = stake\<lparr>st_votes := (st_votes stake)\<lparr>vt_pool := pool'\<rparr>\<rparr>;
           target' = target_stake\<lparr>st_votes := (st_votes target_stake)\<lparr>vt_rating := rating'\<rparr>\<rparr> in
       Done (s\<lparr>stakes := (stakes s)(identity \<mapsto> stake', target \<mapsto> target')\<rparr>, []))))))))"

fun list_stakes :: "(node_identity \<rightharpoonup> 'acc stake) \<Rightarrow> node_identity list \<Rightarrow>
    (node_data \<times> node_address) list run" where
  "list_stakes m [] = Done []"
| "list_stakes m (i # is) =
     run_bind (run_expect (m i)) (\<lambda>stake.
     run_bind (list_stakes m is) (\<lambda>rest.
       Done ((\<lparr>nd_sign = ni_sign i, nd_enc = ni_enc i, nd_id = st_id stake\<rparr>, st_addr stake) # rest)))"

definition list_nodes :: "'acc node_staker \<Rightarrow> (node_data \<times> node_address) list run" where
  "list_nodes s = list_stakes (stakes s) (stake_list s)"

definition change_addr :: "'acc call \<Rightarrow> node_identity \<Rightarrow> node_address \<Rightarrow> 'acc node_staker \<Rightarrow>
    ('acc node_staker \<times> staker_event list) run" where
  "change_addr c identity a s =
     run_bind (run_expect (stakes s identity)) (\<lambda>stake.
     run_bind (run_assert (st_owner stake = caller c)) (\<lambda>_.
       let stake' = stake\<lparr>st_addr := a\<rparr> in
       Done (s\<lparr>stakes := (stakes s)(identity \<mapsto> stake')\<rparr>, [AddrChanged (st_id stake') a])))"

text \<open>The last component of the result is the amount transferred to the caller.\<close>

definition reclaim :: "bool \<Rightarrow> 'acc call \<Rightarrow> (u128 \<Rightarrow> bool) \<Rightarrow> node_identity \<Rightarrow> 'acc node_staker \<Rightarrow>
    ('acc node_staker \<times> staker_event list \<times> u128) run" where
  "reclaim checks c transfer_ok identity s =
     run_bind (run_expect (stakes s identity)) (\<lambda>stake.
     run_bind (run_assert (st_owner stake = caller c)) (\<lambda>_.
     run_bind (add_u64 checks (st_created_at stake) STAKE_DURATION_MILIS) (\<lambda>unlock.
     run_bind (run_assert (unlock \<le> block_timestamp c)) (\<lambda>_.
     run_bind (apply_slashes checks stake) (\<lambda>payout.
     run_bind (run_assert (transfer_ok payout)) (\<lambda>_.
       Done (\<lparr>stakes = (stakes s)(identity := None),
              stake_list = (case position (\<lambda>x. x = identity) (stake_list s) of
                  Some i \<Rightarrow> swap_remove i (stake_list s) | None \<Rightarrow> stake_list s)\<rparr>,
         [Reclaimed (st_id stake)], payout)))))))"

subsection \<open>Node addresses\<close>

text \<open>Arrays are byte lists; \<open>node_address_wf\<close> has the lengths that their types fix.\<close>

datatype ip_addr = V4 bytes | V6 bytes

definition node_address_from :: "ip_addr \<times> u16 \<Rightarrow> node_address" where
  "node_address_from x =
     (case x of (V4 ip, port) \<Rightarrow> Ip4 (ip @ u16_to_be_bytes port)
      | (V6 ip, port) \<Rightarrow> Ip6 (ip @ u16_to_be_bytes port))"

definition node_address_into :: "node_address \<Rightarrow> ip_addr \<times> u16" where
  "node_address_into a =
     (case a of Ip4 b \<Rightarrow> (V4 (take 4 b), u16_from_be_bytes (b ! 4) (b ! 5))
      | Ip6 b \<Rightarrow> (V6 (take 16 b), u16_from_be_bytes (b ! 16) (b ! 17)))"

definition ip_addr_wf :: "ip_addr \<Rightarrow> bool" where
  "ip_addr_wf ip = (case ip of V4 b \<Rightarrow> length b = 4 | V6 b \<Rightarrow> length b = 16)"

definition node_address_wf :: "node_address \<Rightarrow> bool" where
  "node_address_wf a = (case a of Ip4 b \<Rightarrow> length b = 6 | Ip6 b \<Rightarrow> length b = 18)"

subsection \<open>The contract on the chain\<close>

text \<open>
  The messages of the contract (\<open>change_addr\<close> is not one) as steps of the storage and the
  balance of the contract's account; a call that panics is no step. The label is the list of the
  events that a step emits. \<open>can\<close> says which amounts the chain transfers from which balance.
\<close>

inductive staker_step :: "bool \<Rightarrow> (nat \<Rightarrow> nat \<Rightarrow> bool) \<Rightarrow> 'acc node_staker \<times> nat \<Rightarrow> staker_event list \<Rightarrow>
    'acc node_staker \<times> nat \<Rightarrow> bool" for checks can where
  step_join: "join c data a s = Done (s', ev) \<Longrightarrow>
     staker_step checks can (s, b) ev (s', b + unat (transferred_value c))"
| step_vote: "vote checks c i target r s = Done (s', ev) \<Longrightarrow> staker_step checks can (s, b) ev (s', b)"
| step_reclaim: "reclaim checks c (\<lambda>v. can b (unat v)) i s = Done (s', ev, v) \<Longrightarrow>
     staker_step checks can (s, b) ev (s', b - unat v)"

inductive staker_reach :: "bool \<Rightarrow> (nat \<Rightarrow> nat \<Rightarrow> bool) \<Rightarrow> 'acc node_staker \<times> nat \<Rightarrow> staker_event list \<Rightarrow> bool"
  for checks can where
  reach_new: "staker_reach checks can (staker_new, 0) []"
| reach_step: "staker_reach checks can st evs \<Longrightarrow> staker_step checks can st ev st' \<Longrightarrow>
     staker_reach checks can st' (evs @ ev)"

inductive_cases staker_stepE: "staker_step checks can (s, b) ev (s', b')"

subsection \<open>The invariant\<close>

definition stake_ok :: "'acc stake \<Rightarrow> bool" where
  "stake_ok st \<longleftrightarrow> st_amount st = STAKE_AMOUNT \<and> vt_pool (st_votes st) \<le> INIT_VOTE_POOL"

definition staker_inv :: "'acc node_staker \<Rightarrow> bool" where
  "staker_inv s \<longleftrightarrow> distinct (stake_list s) \<and> set (stake_list s) = dom (stakes s) \<and>
     (\<forall>st\<in>ran (stakes s). stake_ok st)"

lemma staker_new_inv: "staker_inv staker_new"
  by (simp add: staker_inv_def staker_new_def)

lemma join_elim:
  assumes "join c data a s = Done (s', ev)"
  obtains "transferred_value c = STAKE_AMOUNT"
    and "stakes s \<lparr>ni_sign = nd_sign data, ni_enc = nd_enc data\<rparr> = None"
    and "s' = \<lparr>stakes = (stakes s)(\<lparr>ni_sign = nd_sign data, ni_enc = nd_enc data\<rparr> \<mapsto>
           \<lparr>st_owner = caller c, st_amount = STAKE_AMOUNT, st_created_at = block_timestamp c,
            st_votes = votes_default, st_id = nd_id data, st_addr = a\<rparr>),
         stake_list = stake_list s @ [\<lparr>ni_sign = nd_sign data, ni_enc = nd_enc data\<rparr>]\<rparr>"
    and "ev = [Joined (nd_id data) a]"
  using assms by (auto simp: join_def run_simps Let_def)

lemma vote_elim:
  assumes "vote checks c i target r s = Done (s', ev)"
  obtains st tg p q where "stakes s i = Some st" and "stakes s target = Some tg" and "i \<noteq> target"
    and "st_owner st = caller c" and "st_owner tg \<noteq> caller c"
    and "checked_sub_u32 (vt_pool (st_votes st)) (unsigned_abs r) = Some p"
    and "checked_add_signed (vt_rating (st_votes tg)) (- r) = Some q"
    and "s' = s\<lparr>stakes := (stakes s)(i \<mapsto> st\<lparr>st_votes := (st_votes st)\<lparr>vt_pool := p\<rparr>\<rparr>,
           target \<mapsto> tg\<lparr>st_votes := (st_votes tg)\<lparr>vt_rating := q\<rparr>\<rparr>)\<rparr>" and "ev = []"
proof -
  obtain st tg p r' q where v: "stakes s i = Some st" "stakes s target = Some tg"
    "st_owner st = caller c" "st_owner tg \<noteq> caller c"
    "checked_sub_u32 (vt_pool (st_votes st)) (unsigned_abs r) = Some p" "neg_i32 checks r = Done r'"
    "checked_add_signed (vt_rating (st_votes tg)) r' = Some q"
    "(s\<lparr>stakes := (stakes s)(i \<mapsto> st\<lparr>st_votes := (st_votes st)\<lparr>vt_pool := p\<rparr>\<rparr>,
       target \<mapsto> tg\<lparr>st_votes := (st_votes tg)\<lparr>vt_rating := q\<rparr>\<rparr>)\<rparr>, []) = (s', ev)"
    using assms unfolding vote_def run_simps Let_def run.inject by blast
  have "r' = - r" using v(6) by (simp add: neg_i32_def split: if_splits)
  moreover have "i \<noteq> target" using v(1-4) by auto
  ultimately show thesis using v by (intro that [of st tg p q]) simp_all
qed

lemma reclaim_elim:
  assumes "reclaim checks c ok i s = Done (s', ev, v)"
  obtains st unlock where "stakes s i = Some st" and "st_owner st = caller c"
    and "add_u64 checks (st_created_at st) STAKE_DURATION_MILIS = Done unlock"
    and "unlock \<le> block_timestamp c" and "apply_slashes checks st = Done v" and "ok v"
    and "s' = \<lparr>stakes = (stakes s)(i := None),
           stake_list = (case position (\<lambda>x. x = i) (stake_list s) of
                  Some j \<Rightarrow> swap_remove j (stake_list s) | None \<Rightarrow> stake_list s)\<rparr>"
    and "ev = [Reclaimed (st_id st)]"
  using assms by (auto simp: reclaim_def run_simps)

lemma checked_sub_u32_le: "checked_sub_u32 a b = Some p \<Longrightarrow> p \<le> a"
  by (auto simp: checked_sub_u32_def word_le_nat_alt unat_sub_if_size unat_of_nat split: if_splits)

lemma join_inv: "join c data a s = Done (s', ev) \<Longrightarrow> staker_inv s \<Longrightarrow> staker_inv s'"
  by (erule join_elim)
    (auto simp: staker_inv_def domIff stake_ok_def votes_default_def ran_def)

lemma vote_inv:
  assumes "vote checks c i target r s = Done (s', ev)" and "staker_inv s"
  shows "staker_inv s'"
  using assms(1)
proof (rule vote_elim)
  fix st tg p q
  assume v: "stakes s i = Some st" "stakes s target = Some tg" "i \<noteq> target"
    "checked_sub_u32 (vt_pool (st_votes st)) (unsigned_abs r) = Some p"
    "s' = s\<lparr>stakes := (stakes s)(i \<mapsto> st\<lparr>st_votes := (st_votes st)\<lparr>vt_pool := p\<rparr>\<rparr>,
       target \<mapsto> tg\<lparr>st_votes := (st_votes tg)\<lparr>vt_rating := q\<rparr>\<rparr>)\<rparr>"
  have "stake_ok st" "stake_ok tg" using assms(2) v(1,2) by (auto simp: staker_inv_def ran_def)
  then have "stake_ok (st\<lparr>st_votes := (st_votes st)\<lparr>vt_pool := p\<rparr>\<rparr>)"
    "stake_ok (tg\<lparr>st_votes := (st_votes tg)\<lparr>vt_rating := q\<rparr>\<rparr>)"
    using checked_sub_u32_le [OF v(4)] by (auto simp: stake_ok_def)
  with assms(2) v(1,2,3,5) show ?thesis
    by (auto simp: staker_inv_def ran_def domIff split: if_splits)
qed

lemma swap_remove_found:
  assumes "distinct xs" and "position (\<lambda>x. x = i) xs = Some j"
  shows "distinct (swap_remove j xs) \<and> set (swap_remove j xs) = set xs - {i}"
  using assms distinct_swap_remove [of xs j] by (auto simp: position_Some_iff)

lemma reclaim_inv:
  assumes "reclaim checks c ok i s = Done (s', ev, v)" and "staker_inv s"
  shows "staker_inv s'"
  using assms(1)
proof (rule reclaim_elim)
  fix st
  assume r: "stakes s i = Some st"
    "s' = \<lparr>stakes = (stakes s)(i := None),
       stake_list = (case position (\<lambda>x. x = i) (stake_list s) of
         Some j \<Rightarrow> swap_remove j (stake_list s) | None \<Rightarrow> stake_list s)\<rparr>"
  have "i \<in> set (stake_list s)" using assms(2) r(1) by (auto simp: staker_inv_def)
  then obtain j where j: "position (\<lambda>x. x = i) (stake_list s) = Some j"
    by (cases "position (\<lambda>x. x = i) (stake_list s)") (auto simp: position_None_iff)
  have st': "stakes s' = (stakes s)(i := None)" by (simp add: r(2))
  then have "ran (stakes s') \<subseteq> ran (stakes s)" by (auto simp: ran_def split: if_splits)
  moreover have "distinct (stake_list s') \<and> set (stake_list s') = set (stake_list s) - {i}"
    using swap_remove_found [OF _ j] assms(2) by (simp add: r(2) j staker_inv_def)
  moreover have "dom (stakes s') = dom (stakes s) - {i}" using st' by simp
  ultimately show ?thesis using assms(2) unfolding staker_inv_def by blast
qed

lemma staker_step_inv: "staker_step checks can st ev st' \<Longrightarrow> staker_inv (fst st) \<Longrightarrow> staker_inv (fst st')"
  by (induction rule: staker_step.induct) (auto dest: join_inv vote_inv reclaim_inv)

lemma staker_reach_inv: "staker_reach checks can st evs \<Longrightarrow> staker_inv (fst st)"
  by (induction rule: staker_reach.induct) (auto simp: staker_new_inv dest: staker_step_inv)

lemma list_stakes_total:
  "set ids \<subseteq> dom m \<Longrightarrow> list_stakes m ids =
     Done (map (\<lambda>i. (\<lparr>nd_sign = ni_sign i, nd_enc = ni_enc i, nd_id = st_id (the (m i))\<rparr>, st_addr (the (m i)))) ids)"
  by (induction ids) (auto simp: run_simps)

subsection \<open>Slashes and solvency\<close>

lemma saturating_slash:
  assumes "n \<le> 126"
  shows "saturating_sub a (of_nat (2 ^ (n + 1))) = (of_nat (unat a - 2 ^ (n + 1)) :: u128)"
proof -
  have "(2 :: nat) ^ (n + 1) < 2 ^ 128" using assms by (intro power_strict_increasing) auto
  then have "unat (of_nat (2 ^ (n + 1)) :: u128) = 2 ^ (n + 1)" by (intro unat_of_nat_less) simp
  then show ?thesis
    by (cases "2 ^ (n + 1) \<le> unat a")
      (simp_all add: saturating_sub_def word_le_nat_alt of_nat_diff del: of_nat_power power_Suc)
qed

lemma rating_factor [simp]: "r * SLASH_FACTOR = r"
  by (simp add: SLASH_FACTOR_def)

lemma apply_slashes_le:
  assumes "apply_slashes checks st = Done v"
  shows "v \<le> st_amount st"
proof -
  have "saturating_sub a b \<le> (a :: u128)" for a b
    by (simp add: saturating_sub_def word_le_nat_alt unat_sub_if_size)
  with assms show ?thesis by (auto simp: apply_slashes_def run_simps split: if_splits)
qed

definition solvent :: "'acc node_staker \<times> nat \<Rightarrow> bool" where
  "solvent st \<longleftrightarrow> unat STAKE_AMOUNT * card (dom (stakes (fst st))) \<le> snd st"

lemma staker_inv_finite: "staker_inv s \<Longrightarrow> finite (dom (stakes s))"
  unfolding staker_inv_def by (metis List.finite_set)

lemma staker_step_solvent:
  "staker_step checks can st ev st' \<Longrightarrow> staker_inv (fst st) \<Longrightarrow> solvent st \<Longrightarrow> solvent st'"
proof (induction rule: staker_step.induct)
  case (step_join c data a s s' ev b)
  from step_join(1) have "card (dom (stakes s')) = Suc (card (dom (stakes s)))"
    and "transferred_value c = STAKE_AMOUNT"
    using staker_inv_finite [of s] step_join(2) by (auto elim!: join_elim simp: domIff)
  with step_join(3) show ?case by (simp add: solvent_def)
next
  case (step_vote c i target r s s' ev b)
  from step_vote(1) have "dom (stakes s') = dom (stakes s)" by (rule vote_elim) auto
  with step_vote(3) show ?case by (simp add: solvent_def)
next
  case (step_reclaim c b i s s' ev v)
  from step_reclaim(1) obtain st where st: "stakes s i = Some st" "apply_slashes checks st = Done v"
    "dom (stakes s') = dom (stakes s) - {i}"
    by (rule reclaim_elim) auto
  have "st_amount st = STAKE_AMOUNT"
    using step_reclaim(2) st(1) by (auto simp: staker_inv_def stake_ok_def ran_def)
  then have "unat v \<le> unat STAKE_AMOUNT"
    using apply_slashes_le [OF st(2)] by (simp add: word_le_nat_alt)
  moreover have "card (dom (stakes s)) = Suc (card (dom (stakes s) - {i}))"
    using staker_inv_finite [of s] step_reclaim(2) st(1)
    by (intro card.remove) auto
  ultimately show ?case using step_reclaim(3) by (simp add: solvent_def st(3))
qed

lemma staker_reach_solvent: "staker_reach checks can st evs \<Longrightarrow> solvent st"
proof (induction rule: staker_reach.induct)
  case reach_new
  show ?case by (simp add: solvent_def staker_new_def)
next
  case (reach_step st evs ev st')
  then show ?case by (auto intro: staker_step_solvent staker_reach_inv)
qed

subsection \<open>Properties\<close>

text \<open>A history of two nodes, for the witnesses.\<close>

definition demo_data :: "u8 \<Rightarrow> node_data" where
  "demo_data n = \<lparr>nd_sign = [n], nd_enc = [n], nd_id = [n]\<rparr>"

definition demo_id :: "u8 \<Rightarrow> node_identity" where
  "demo_id n = \<lparr>ni_sign = [n], ni_enc = [n]\<rparr>"

definition demo_call :: "nat \<Rightarrow> u64 \<Rightarrow> nat call" where
  "demo_call who now = \<lparr>caller = who, transferred_value = 1000000, block_timestamp = now\<rparr>"

definition demo_stake :: "u8 \<Rightarrow> u32 \<Rightarrow> u32 \<Rightarrow> nat stake" where
  "demo_stake n p r = \<lparr>st_owner = unat n, st_amount = 1000000, st_created_at = 7,
     st_votes = \<lparr>vt_pool = p, vt_rating = r\<rparr>, st_id = [n], st_addr = Ip4 [127, 0, 0, 1, 0, n]\<rparr>"

definition demo_state :: "nat node_staker" where
  "demo_state = \<lparr>stakes = [demo_id 1 \<mapsto> demo_stake 1 1 0, demo_id 2 \<mapsto> demo_stake 2 3 2],
     stake_list = [demo_id 1, demo_id 2]\<rparr>"

definition demo_events :: "staker_event list" where
  "demo_events = [Joined [1] (Ip4 [127, 0, 0, 1, 0, 1]), Joined [2] (Ip4 [127, 0, 0, 1, 0, 2])]"

lemmas demo_defs = demo_data_def demo_id_def demo_call_def demo_stake_def demo_state_def demo_events_def
  staker_new_def STAKE_AMOUNT_def INIT_VOTE_POOL_def votes_default_def

lemma demo_join1:
  "join (demo_call 1 7) (demo_data 1) (Ip4 [127, 0, 0, 1, 0, 1]) staker_new =
     Done (\<lparr>stakes = [demo_id 1 \<mapsto> demo_stake 1 3 0], stake_list = [demo_id 1]\<rparr>,
       [Joined [1] (Ip4 [127, 0, 0, 1, 0, 1])])"
  by (simp add: join_def run_assert_def demo_defs Let_def)

lemma demo_join2:
  "join (demo_call 2 7) (demo_data 2) (Ip4 [127, 0, 0, 1, 0, 2])
       \<lparr>stakes = [demo_id 1 \<mapsto> demo_stake 1 3 0], stake_list = [demo_id 1]\<rparr> =
     Done (\<lparr>stakes = [demo_id 1 \<mapsto> demo_stake 1 3 0, demo_id 2 \<mapsto> demo_stake 2 3 0],
        stake_list = [demo_id 1, demo_id 2]\<rparr>, [Joined [2] (Ip4 [127, 0, 0, 1, 0, 2])])"
  by (simp add: join_def run_assert_def demo_defs Let_def)

lemma demo_vote:
  "vote True (demo_call 1 9) (demo_id 1) (demo_id 2) (- 2)
       \<lparr>stakes = [demo_id 1 \<mapsto> demo_stake 1 3 0, demo_id 2 \<mapsto> demo_stake 2 3 0],
        stake_list = [demo_id 1, demo_id 2]\<rparr> = Done (demo_state, [])"
  by (simp add: vote_def run_assert_def run_expect_def demo_defs checked_sub_u32_def unsigned_abs_def
      neg_i32_def checked_add_signed_def)

lemma demo_reach: "staker_reach True (\<lambda>b a. a \<le> b) (demo_state, 2000000) demo_events"
proof -
  note j1 = reach_step [OF reach_new step_join [OF demo_join1]]
  note j2 = reach_step [OF j1 step_join [OF demo_join2]]
  note v = reach_step [OF j2 step_vote [OF demo_vote]]
  show ?thesis using v by (simp add: demo_events_def demo_call_def)
qed

text \<open>C36: In every reachable state of the staking contract the list of identities holds exactly
  the staked identities, each once, every stake is the full stake amount, no vote pool exceeds
  its initial size, and \<open>list\<close> returns without a trap one entry for each identity, with the id
  and the address of its stake.\<close>
theorem staker_invariant:
  assumes "staker_reach checks can (s, b) evs"
  shows "distinct (stake_list s) \<and> set (stake_list s) = dom (stakes s) \<and>
    (\<forall>st\<in>ran (stakes s). st_amount st = STAKE_AMOUNT \<and> vt_pool (st_votes st) \<le> INIT_VOTE_POOL) \<and>
    list_nodes s = Done (map (\<lambda>i. (\<lparr>nd_sign = ni_sign i, nd_enc = ni_enc i,
       nd_id = st_id (the (stakes s i))\<rparr>, st_addr (the (stakes s i)))) (stake_list s))"
  using staker_reach_inv [OF assms] list_stakes_total [of "stake_list s" "stakes s"]
  by (simp add: staker_inv_def stake_ok_def list_nodes_def)

theorem staker_invariant_witness:
  "distinct (stake_list demo_state) \<and> set (stake_list demo_state) = dom (stakes demo_state) \<and>
    list_nodes demo_state = Done (map (\<lambda>i. (\<lparr>nd_sign = ni_sign i, nd_enc = ni_enc i,
       nd_id = st_id (the (stakes demo_state i))\<rparr>, st_addr (the (stakes demo_state i)))) (stake_list demo_state))"
  using staker_invariant [OF demo_reach] by blast

text \<open>C37: In every reachable state the owner of a stake that is past its lock period and has a
  rating under 128 gets it back: when the chain carries out every transfer that the balance
  covers, \<open>reclaim\<close> succeeds, pays at most the stake amount, removes exactly that stake and
  announces its id.\<close>
theorem reclaim_pays:
  assumes "staker_reach checks can (s, b) evs" and "stakes s i = Some st" and "st_owner st = caller c"
    and "unat (st_created_at st) + unat STAKE_DURATION_MILIS \<le> unat (block_timestamp c)"
    and "vt_rating (st_votes st) < 128" and "\<forall>a\<le>b. can b a"
  shows "\<exists>s' v. reclaim checks c (\<lambda>v. can b (unat v)) i s = Done (s', [Reclaimed (st_id st)], v) \<and>
    v \<le> STAKE_AMOUNT \<and> stakes s' = (stakes s)(i := None) \<and> apply_slashes checks st = Done v"
proof -
  have inv: "staker_inv s" and solv: "solvent (s, b)"
    using staker_reach_inv [OF assms(1)] staker_reach_solvent [OF assms(1)] by auto
  have amt: "st_amount st = STAKE_AMOUNT" using inv assms(2) by (auto simp: staker_inv_def stake_ok_def ran_def)
  obtain v where v: "apply_slashes checks st = Done v"
  proof (rule that)
    have "unat (vt_rating (st_votes st)) < 128" using assms(5) by (simp add: word_less_nat_alt)
    then show "apply_slashes checks st = Done (if 0 < vt_rating (st_votes st)
        then saturating_sub (st_amount st) (push_bit (unat (vt_rating (st_votes st))) BASE_SLASH)
        else st_amount st)"
      by (simp add: apply_slashes_def shl_u128_def)
  qed
  have le: "v \<le> STAKE_AMOUNT" using apply_slashes_le [OF v] amt by simp
  have "0 < card (dom (stakes s))" using staker_inv_finite [OF inv] assms(2) by (auto simp: card_gt_0_iff)
  with solv have "unat STAKE_AMOUNT \<le> b" by (simp add: solvent_def) (metis le_trans le_add1 mult.right_neutral mult_le_mono2 One_nat_def Suc_leI)
  with le have can: "can b (unat v)" using assms(6) by (simp add: word_le_nat_alt)
  have lt: "unat (st_created_at st) + unat STAKE_DURATION_MILIS < 2 ^ 64"
    using assms(4) unat_less_exp [of "block_timestamp c"] by simp
  then have "unat (st_created_at st + STAKE_DURATION_MILIS) = unat (st_created_at st) + unat STAKE_DURATION_MILIS"
    by (simp add: unat_word_ariths)
  then have "add_u64 checks (st_created_at st) STAKE_DURATION_MILIS = Done (st_created_at st + STAKE_DURATION_MILIS)"
    "st_created_at st + STAKE_DURATION_MILIS \<le> block_timestamp c"
    using lt assms(4) by (auto simp: add_u64_def word_le_nat_alt)
  with assms(2,3) v can le show ?thesis by (simp add: reclaim_def run_expect_def run_assert_def)
qed

theorem reclaim_pays_witness:
  "\<exists>s' v. reclaim True (demo_call 2 2592000007) (\<lambda>v. unat v \<le> 2000000) (demo_id 2) demo_state =
      Done (s', [Reclaimed [2]], v) \<and> v \<le> STAKE_AMOUNT \<and>
    stakes s' = (stakes demo_state)(demo_id 2 := None) \<and> apply_slashes True (demo_stake 2 3 2) = Done v"
  using reclaim_pays [OF demo_reach, of "demo_id 2" "demo_stake 2 3 2" "demo_call 2 2592000007"]
  by (simp add: demo_defs STAKE_DURATION_MILIS_def)

text \<open>What a rating does to a stake: none costs nothing, a rating from 1 to 126 costs
  \<open>2 ^ (rating + 1)\<close> or all there is, a rating of 127 shifts the slash out of the 128 bits and
  costs nothing; from 128 on the computation traps in a build with overflow checks, and
  starts over in a build without.\<close>
theorem apply_slashes_cases:
  "apply_slashes checks st =
    (let r = unat (vt_rating (st_votes st)) in
     if checks \<and> 128 \<le> r then Panic
     else if r = 0 \<or> r mod 128 = 127 then Done (st_amount st)
     else Done (of_nat (unat (st_amount st) - 2 ^ (r mod 128 + 1))))"
proof -
  define r where "r = unat (vt_rating (st_votes st))"
  have pos: "0 < vt_rating (st_votes st) \<longleftrightarrow> r \<noteq> 0"
    by (simp add: r_def word_less_nat_alt)
  define sl where "sl = (of_nat (2 ^ (r mod 128 + 1)) :: u128)"
  define rest where "rest = (of_nat (unat (st_amount st) - 2 ^ (r mod 128 + 1)) :: u128)"
  have sh: "shl_u128 checks BASE_SLASH r = (if checks \<and> 128 \<le> r then Panic else Done sl)"
    by (simp add: shl_u128_def BASE_SLASH_def push_bit_eq_mult sl_def)
  have "(of_nat (2 ^ (127 + 1)) :: u128) = 0" by (simp add: word_of_nat_eq_0_iff)
  then have full: "r mod 128 = 127 \<Longrightarrow> saturating_sub (st_amount st) sl = st_amount st"
    by (simp only: saturating_sub_def sl_def) simp
  have part: "saturating_sub (st_amount st) sl = rest" if "r mod 128 \<noteq> 127"
  proof -
    have "r mod 128 \<le> 126" using that mod_less_divisor [of 128 r] by linarith
    then show ?thesis unfolding sl_def rest_def by (rule saturating_slash)
  qed
  have "apply_slashes checks st = (if checks \<and> 128 \<le> r then Panic
     else if r = 0 \<or> r mod 128 = 127 then Done (st_amount st) else Done rest)"
    unfolding apply_slashes_def pos rating_factor r_def [symmetric] sh using full part by simp
  then show ?thesis unfolding r_def [symmetric] rest_def Let_def .
qed

lemma sint_neg_small:
  assumes "\<bar>sint (r :: i32)\<bar> \<le> 3"
  shows "sint (- r) = - sint r"
proof -
  have "sint (- r) = signed_take_bit 31 (- sint r)" using sint_word_ariths(4) [of r] by simp
  also have "\<dots> = - sint r" using assms by (intro signed_take_bit_int_eq_self) auto
  finally show ?thesis .
qed

text \<open>In every reachable state a vote is cast exactly when both identities have a stake, the
  caller owns the voting one and not the target, the voting pool has as many votes as are
  given, and the target's rating stays a 32 bit number; it takes the votes from the pool,
  subtracts the given value from the target's rating and changes nothing else. No overflow can
  occur, so both builds agree.\<close>
theorem vote_effect:
  assumes "staker_reach checks can (s, b) evs"
  shows "vote checks c i target r s =
    (case (stakes s i, stakes s target) of
       (Some st, Some tg) \<Rightarrow>
         if st_owner st = caller c \<and> st_owner tg \<noteq> caller c \<and> \<bar>sint r\<bar> \<le> uint (vt_pool (st_votes st)) \<and>
            uint (vt_rating (st_votes tg)) - sint r \<in> {0..<2 ^ 32}
         then Done (s\<lparr>stakes := (stakes s)
           (i \<mapsto> st\<lparr>st_votes := (st_votes st)\<lparr>vt_pool := vt_pool (st_votes st) - of_int \<bar>sint r\<bar>\<rparr>\<rparr>,
            target \<mapsto> tg\<lparr>st_votes := (st_votes tg)\<lparr>vt_rating := vt_rating (st_votes tg) - r\<rparr>\<rparr>)\<rparr>, [])
         else Panic
     | _ \<Rightarrow> Panic)"
proof (cases "stakes s i = None \<or> stakes s target = None")
  case True
  then show ?thesis
    by (cases "stakes s i"; cases "stakes s target") (simp_all add: vote_def run_expect_def run_assert_def)
next
  case False
  then obtain st tg where st: "stakes s i = Some st" "stakes s target = Some tg" by auto
  let ?p = "vt_pool (st_votes st)" and ?q = "vt_rating (st_votes tg)"
  have "?p \<le> 3" using staker_reach_inv [OF assms] st(1)
    by (auto simp: staker_inv_def stake_ok_def INIT_VOTE_POOL_def ran_def)
  then have p3: "uint ?p \<le> 3" by (simp add: word_le_def)
  have sub: "checked_sub_u32 ?p (unsigned_abs r) =
      (if \<bar>sint r\<bar> \<le> uint ?p then Some (?p - of_int \<bar>sint r\<bar>) else None)"
    by (auto simp: checked_sub_u32_def unsigned_abs_def nat_le_iff nat_less_iff)
  show ?thesis
  proof (cases "\<bar>sint r\<bar> \<le> uint ?p")
    case True
    then have small: "\<bar>sint r\<bar> \<le> 3" using p3 by simp
    then have neg: "neg_i32 checks r = Done (- r)" by (auto simp: neg_i32_def)
    have add: "checked_add_signed ?q (- r) =
        (if uint ?q - sint r \<in> {0..<2 ^ 32} then Some (?q - r) else None)"
      by (simp add: checked_add_signed_def sint_neg_small [OF small] Let_def)
    show ?thesis using True st by (simp add: vote_def run_expect_def run_assert_def sub neg add)
  next
    case False
    then show ?thesis using st by (simp add: vote_def run_expect_def run_assert_def sub)
  qed
qed

theorem vote_effect_witness:
  "vote True (demo_call 2 9) (demo_id 2) (demo_id 1) (- 3) demo_state =
     Done (demo_state\<lparr>stakes := (stakes demo_state)
       (demo_id 2 \<mapsto> demo_stake 2 0 2, demo_id 1 \<mapsto> demo_stake 1 1 3)\<rparr>, [])"
  using vote_effect [OF demo_reach, of "demo_call 2 9" "demo_id 2" "demo_id 1" "- 3"]
  by (simp add: demo_defs)

text \<open>Socket addresses and the node addresses of the chain correspond one to one: each
  conversion undoes the other.\<close>
theorem node_address_round_trip:
  "(ip_addr_wf ip \<longrightarrow> node_address_into (node_address_from (ip, port)) = (ip, port)) \<and>
   (node_address_wf a \<longrightarrow> node_address_from (node_address_into a) = a)"
proof -
  have u16: "u16_to_be_bytes (u16_from_be_bytes hi lo) = [hi, lo]" for hi lo
    unfolding u16_to_be_bytes_def u16_from_be_bytes_def
  proof -
    have "\<not> bit lo (8 + n)" for n using bit_imp_le_length [of lo "8 + n"] by auto
    then show "[ucast (drop_bit 8 (push_bit 8 (ucast hi) OR ucast lo :: u16)),
        ucast (push_bit 8 (ucast hi) OR ucast lo :: u16)] = [hi, lo]"
      by (auto intro!: bit_word_eqI simp: bit_simps)
  qed
  have two: "take n b @ [b ! n, b ! Suc n] = b" if "length b = Suc (Suc n)" for n and b :: bytes
    using that by (simp add: list_eq_iff_nth_eq nth_append less_Suc_eq)
  show ?thesis
  proof
    show "ip_addr_wf ip \<longrightarrow> node_address_into (node_address_from (ip, port)) = (ip, port)"
      by (auto simp: node_address_into_def node_address_from_def ip_addr_wf_def
          nth_append u16_to_be_bytes_def split: ip_addr.split)
    show "node_address_wf a \<longrightarrow> node_address_from (node_address_into a) = a"
      using two [of _ 4] two [of _ 16]
      by (auto simp: node_address_into_def node_address_from_def node_address_wf_def u16 split: node_address.split)
  qed
qed

theorem node_address_round_trip_witness:
  "node_address_into (node_address_from (V4 [127, 0, 0, 1], 8080)) = (V4 [127, 0, 0, 1], 8080) \<and>
   node_address_from (node_address_into (Ip4 [1, 2, 3, 4, 5, 6])) = Ip4 [1, 2, 3, 4, 5, 6]"
  using node_address_round_trip [of "V4 [127, 0, 0, 1]" 8080 "Ip4 [1, 2, 3, 4, 5, 6]"]
  by (simp add: ip_addr_wf_def node_address_wf_def)

end
