(* ===== verification/Crypto.thy ===== *)
theory Crypto
  imports Prelude
begin

section \<open>The hybrid cryptography (\<open>core/crypto/src\<close>)\<close>

text \<open>
  The crate that pairs a classical with a post-quantum primitive: key encapsulation
  (\<open>enc.rs\<close>: x25519 and Kyber, the two secrets combined by exclusive or), signatures
  (\<open>sign.rs\<close>: ed25519 and Falcon, both must verify), hashes (\<open>hash.rs\<close>) and the AES-GCM
  helpers of \<open>lib.rs\<close>. The primitives are the record \<open>crypto_lib\<close>, an argument of every
  definition that uses them; random bytes (seeds, nonces) are arguments too.
\<close>

record crypto_lib =
  blake3 :: "bytes \<Rightarrow> bytes"
  aes_encrypt :: "bytes \<Rightarrow> bytes \<Rightarrow> bytes \<Rightarrow> bytes \<Rightarrow> bytes \<times> bytes"
  aes_decrypt :: "bytes \<Rightarrow> bytes \<Rightarrow> bytes \<Rightarrow> bytes \<Rightarrow> bytes \<Rightarrow> bytes option"
  x_public :: "bytes \<Rightarrow> bytes"
  x_dh :: "bytes \<Rightarrow> bytes \<Rightarrow> bytes"
  kyber_public :: "bytes \<Rightarrow> bytes"
  kyber_enc :: "bytes \<Rightarrow> bytes \<Rightarrow> bytes \<times> bytes"
  kyber_dec :: "bytes \<Rightarrow> bytes \<Rightarrow> bytes option"
  ed_public :: "bytes \<Rightarrow> bytes"
  ed_sign :: "bytes \<Rightarrow> bytes \<Rightarrow> bytes"
  ed_verify :: "bytes \<Rightarrow> bytes \<Rightarrow> bytes \<Rightarrow> bool"
  falcon_public :: "bytes \<Rightarrow> bytes"
  falcon_sign :: "bytes \<Rightarrow> bytes \<Rightarrow> bytes \<Rightarrow> bytes option"
  falcon_verify :: "bytes \<Rightarrow> bytes \<Rightarrow> bytes \<Rightarrow> bool"

definition HASH_SIZE :: nat where
  "HASH_SIZE = 32"

definition NONCE_SIZE :: nat where
  "NONCE_SIZE = 12"

definition TAG_SIZE :: nat where
  "TAG_SIZE = 16"

definition SHARED_SECRET_SIZE :: nat where
  "SHARED_SECRET_SIZE = 32"

subsection \<open>Hashes\<close>

definition hash_from_raw :: "crypto_lib \<Rightarrow> bytes \<Rightarrow> bytes" where
  "hash_from_raw L data = blake3 L data"

definition hash_combine :: "crypto_lib \<Rightarrow> bytes \<Rightarrow> bytes \<Rightarrow> bytes" where
  "hash_combine L l r = blake3 L (l @ r)"

definition hash_from_slice :: "crypto_lib \<Rightarrow> bytes \<Rightarrow> bytes" where
  "hash_from_slice L data = blake3 L data"

definition hash_with_nonce :: "crypto_lib \<Rightarrow> bytes \<Rightarrow> u64 \<Rightarrow> bytes" where
  "hash_with_nonce L data nonce = blake3 L (data @ u64_to_be_bytes nonce)"

subsection \<open>Authenticated encryption\<close>

text \<open>\<open>encrypt\<close> works in place: the result is the new data and the postfix to append.\<close>

definition aes_seal :: "crypto_lib \<Rightarrow> bytes \<Rightarrow> bytes \<Rightarrow> bytes \<Rightarrow> bytes \<Rightarrow> bytes \<times> bytes" where
  "aes_seal L asoc data secret nonce =
     (let (data', tag) = aes_encrypt L secret nonce asoc data in (data', tag @ nonce))"

definition aes_open :: "crypto_lib \<Rightarrow> bytes \<Rightarrow> bytes \<Rightarrow> bytes \<Rightarrow> bytes option" where
  "aes_open L asoc data secret =
     (if length data < NONCE_SIZE + TAG_SIZE then None
      else let body = take (length data - NONCE_SIZE - TAG_SIZE) data;
               postfix = drop (length data - NONCE_SIZE - TAG_SIZE) data;
               nonce = drop TAG_SIZE postfix;
               tag = take TAG_SIZE postfix in
           aes_decrypt L secret nonce asoc body tag)"

record fixed_aes_payload =
  fap_data :: bytes
  fap_tag :: bytes
  fap_nonce :: bytes

definition fap_new :: "crypto_lib \<Rightarrow> bytes \<Rightarrow> bytes \<Rightarrow> bytes \<Rightarrow> bytes \<Rightarrow> fixed_aes_payload" where
  "fap_new L data key asoc nonce =
     (let (data', tag) = aes_encrypt L key nonce asoc data in
      \<lparr>fap_data = data', fap_tag = tag, fap_nonce = nonce\<rparr>)"

definition fap_decrypt :: "crypto_lib \<Rightarrow> fixed_aes_payload \<Rightarrow> bytes \<Rightarrow> bytes \<Rightarrow> bytes option" where
  "fap_decrypt L p key asoc = aes_decrypt L key (fap_nonce p) asoc (fap_data p) (fap_tag p)"

subsection \<open>Key encapsulation\<close>

datatype decapsulation_error = DecapKyber | DecapAes

record ciphertext =
  ct_pl :: bytes
  ct_x :: bytes

record choosen_ciphertext =
  cc_pl :: fixed_aes_payload
  cc_cp :: ciphertext

record enc_keypair =
  ek_post :: bytes
  ek_pre :: bytes

record enc_public_key =
  ep_post :: bytes
  ep_pre :: bytes

text \<open>The arrays have 32 bytes each, so the indices are in range.\<close>

definition xor_secrets :: "bytes \<Rightarrow> bytes \<Rightarrow> bytes" where
  "xor_secrets k x = map (\<lambda>i. (k ! i) XOR (x ! i)) [0..<SHARED_SECRET_SIZE]"

definition enc_public :: "crypto_lib \<Rightarrow> enc_keypair \<Rightarrow> enc_public_key" where
  "enc_public L kp = \<lparr>ep_post = kyber_public L (ek_post kp), ep_pre = x_public L (ek_pre kp)\<rparr>"

definition encapsulate ::
  "crypto_lib \<Rightarrow> enc_keypair \<Rightarrow> enc_public_key \<Rightarrow> bytes \<Rightarrow> ciphertext \<times> bytes" where
  "encapsulate L kp pk seed =
     (let (data, k_secret) = kyber_enc L (ep_post pk) seed;
          x_secret = x_dh L (ek_pre kp) (ep_pre pk);
          secret = xor_secrets k_secret x_secret in
      (\<lparr>ct_pl = data, ct_x = x_public L (ek_pre kp)\<rparr>, secret))"

definition encapsulate_choosen ::
  "crypto_lib \<Rightarrow> bytes \<Rightarrow> enc_keypair \<Rightarrow> enc_public_key \<Rightarrow> bytes \<Rightarrow> bytes \<Rightarrow> bytes \<Rightarrow> choosen_ciphertext" where
  "encapsulate_choosen L asoc kp pk secret seed nonce =
     (let (cp, key) = encapsulate L kp pk seed in
      \<lparr>cc_pl = fap_new L secret key asoc nonce, cc_cp = cp\<rparr>)"

definition decapsulate ::
  "crypto_lib \<Rightarrow> enc_keypair \<Rightarrow> ciphertext \<Rightarrow> decapsulation_error + bytes" where
  "decapsulate L kp ct =
     (let x_secret = x_dh L (ek_pre kp) (ct_x ct) in
      case kyber_dec L (ek_post kp) (ct_pl ct) of
        None \<Rightarrow> Inl DecapKyber
      | Some k_secret \<Rightarrow> Inr (xor_secrets k_secret x_secret))"

definition decapsulate_choosen ::
  "crypto_lib \<Rightarrow> bytes \<Rightarrow> enc_keypair \<Rightarrow> choosen_ciphertext \<Rightarrow> decapsulation_error + bytes" where
  "decapsulate_choosen L asoc kp ct =
     (case decapsulate L kp (cc_cp ct) of
        Inl e \<Rightarrow> Inl e
      | Inr secret \<Rightarrow> (case fap_decrypt L (cc_pl ct) secret asoc of
          None \<Rightarrow> Inl DecapAes | Some s \<Rightarrow> Inr s))"

subsection \<open>Signatures\<close>

datatype signature_error = PostQuantum | PreQuantum

record signature =
  sg_post :: bytes
  sg_pre :: bytes

record sign_keypair =
  sk_post :: bytes
  sk_pre :: bytes

record sign_public_key =
  sp_post :: bytes
  sp_pre :: bytes

definition sign_public :: "crypto_lib \<Rightarrow> sign_keypair \<Rightarrow> sign_public_key" where
  "sign_public L kp = \<lparr>sp_post = falcon_public L (sk_post kp), sp_pre = ed_public L (sk_pre kp)\<rparr>"

definition sign_data :: "crypto_lib \<Rightarrow> sign_keypair \<Rightarrow> bytes \<Rightarrow> bytes \<Rightarrow> signature run" where
  "sign_data L kp data rng =
     run_bind (run_expect (falcon_sign L (sk_post kp) data rng)) (\<lambda>post.
     Done \<lparr>sg_post = post, sg_pre = ed_sign L (sk_pre kp) data\<rparr>)"

definition sign_verify ::
  "crypto_lib \<Rightarrow> sign_public_key \<Rightarrow> bytes \<Rightarrow> signature \<Rightarrow> signature_error + unit" where
  "sign_verify L pk data sg =
     (if \<not> ed_verify L (sp_pre pk) data (sg_pre sg) then Inl PreQuantum
      else if \<not> falcon_verify L (sp_post pk) data (sg_post sg) then Inl PostQuantum
      else Inr ())"

subsection \<open>What the crate relies on\<close>

text \<open>
  The documented behaviour of the primitives: decryption under the same key, nonce and
  associated data returns the plain text and tags have 16 bytes; a Diffie-Hellman secret is the
  same on both sides; Kyber's receiver computes the sender's secret; signatures verify.
\<close>

definition aes_correct :: "crypto_lib \<Rightarrow> bool" where
  "aes_correct L \<longleftrightarrow> (\<forall>key nonce asoc data ct tag. aes_encrypt L key nonce asoc data = (ct, tag) \<longrightarrow>
     aes_decrypt L key nonce asoc ct tag = Some data \<and> length tag = TAG_SIZE)"

definition dh_correct :: "crypto_lib \<Rightarrow> bool" where
  "dh_correct L \<longleftrightarrow> (\<forall>a b. x_dh L a (x_public L b) = x_dh L b (x_public L a))"

definition kyber_correct :: "crypto_lib \<Rightarrow> bool" where
  "kyber_correct L \<longleftrightarrow> (\<forall>kp seed ct k. kyber_enc L (kyber_public L kp) seed = (ct, k) \<longrightarrow>
     kyber_dec L kp ct = Some k)"

definition signing_correct :: "crypto_lib \<Rightarrow> bool" where
  "signing_correct L \<longleftrightarrow>
     (\<forall>kp data. ed_verify L (ed_public L kp) data (ed_sign L kp data)) \<and>
     (\<forall>kp data rng s. falcon_sign L kp data rng = Some s \<longrightarrow> falcon_verify L (falcon_public L kp) data s)"

text \<open>Transparent primitives that satisfy all of it, for the witnesses.\<close>

definition toy_lib :: crypto_lib where
  "toy_lib = \<lparr>blake3 = (\<lambda>d. take 32 (d @ replicate 32 0)),
     aes_encrypt = (\<lambda>key nonce asoc data. (data, replicate 16 0)),
     aes_decrypt = (\<lambda>key nonce asoc ct tag. Some ct),
     x_public = (\<lambda>a. a), x_dh = (\<lambda>a b. map2 (\<lambda>x y. x XOR y) a b),
     kyber_public = (\<lambda>k. k), kyber_enc = (\<lambda>pk seed. (seed, replicate 32 7)), kyber_dec = (\<lambda>kp ct. Some (replicate 32 7)),
     ed_public = (\<lambda>k. k), ed_sign = (\<lambda>k d. k @ d), ed_verify = (\<lambda>pk d s. s = pk @ d),
     falcon_public = (\<lambda>k. k), falcon_sign = (\<lambda>k d rng. Some (d @ k)), falcon_verify = (\<lambda>pk d s. s = d @ pk)\<rparr>"

lemma toy_lib_correct:
  "aes_correct toy_lib" "dh_correct toy_lib" "kyber_correct toy_lib" "signing_correct toy_lib"
proof -
  have "map2 (\<lambda>x y. x XOR y) a b = map2 (\<lambda>x y. x XOR y) b (a :: bytes)" for a b
    by (induction a b rule: list_induct2') (auto simp: xor.commute)
  then show "dh_correct toy_lib" by (simp add: dh_correct_def toy_lib_def)
qed (auto simp: aes_correct_def kyber_correct_def signing_correct_def toy_lib_def TAG_SIZE_def)

lemma decapsulate_encapsulate:
  assumes "dh_correct L" and "kyber_correct L"
  shows "decapsulate L bob (fst (encapsulate L alice (enc_public L bob) seed)) =
    Inr (snd (encapsulate L alice (enc_public L bob) seed))"
proof -
  obtain ct k where k: "kyber_enc L (kyber_public L (ek_post bob)) seed = (ct, k)" by fastforce
  then have "kyber_dec L (ek_post bob) ct = Some k" using assms(2) by (auto simp: kyber_correct_def)
  moreover have "x_dh L (ek_pre bob) (x_public L (ek_pre alice)) = x_dh L (ek_pre alice) (x_public L (ek_pre bob))"
    using assms(1) by (auto simp: dh_correct_def)
  ultimately show ?thesis by (simp add: decapsulate_def encapsulate_def enc_public_def k)
qed

subsection \<open>Properties\<close>

text \<open>With a commutative Diffie-Hellman function and a correct Kyber, the receiver of an
  encapsulation computes the sender's secret; with AES-GCM as documented a chosen secret
  arrives too.\<close>
theorem hybrid_kem_agrees:
  assumes "dh_correct L" and "kyber_correct L" and "aes_correct L"
  shows "decapsulate L bob (fst (encapsulate L alice (enc_public L bob) seed)) =
      Inr (snd (encapsulate L alice (enc_public L bob) seed)) \<and>
    decapsulate_choosen L asoc bob (encapsulate_choosen L asoc alice (enc_public L bob) secret seed nonce) = Inr secret"
proof
  show dec: "decapsulate L bob (fst (encapsulate L alice (enc_public L bob) seed)) =
      Inr (snd (encapsulate L alice (enc_public L bob) seed))"
    using assms(1,2) by (rule decapsulate_encapsulate)
  obtain cp key where e: "encapsulate L alice (enc_public L bob) seed = (cp, key)" by fastforce
  obtain ct tag where a: "aes_encrypt L key nonce asoc secret = (ct, tag)" by fastforce
  then have "aes_decrypt L key nonce asoc ct tag = Some secret" using assms(3) unfolding aes_correct_def by blast
  then show "decapsulate_choosen L asoc bob (encapsulate_choosen L asoc alice (enc_public L bob) secret seed nonce) = Inr secret"
    using dec by (simp add: decapsulate_choosen_def encapsulate_choosen_def e fap_new_def fap_decrypt_def a)
qed

theorem hybrid_kem_agrees_witness:
  "decapsulate toy_lib \<lparr>ek_post = [1], ek_pre = [2]\<rparr>
     (fst (encapsulate toy_lib \<lparr>ek_post = [3], ek_pre = [4]\<rparr> (enc_public toy_lib \<lparr>ek_post = [1], ek_pre = [2]\<rparr>) [5])) =
   Inr (snd (encapsulate toy_lib \<lparr>ek_post = [3], ek_pre = [4]\<rparr> (enc_public toy_lib \<lparr>ek_post = [1], ek_pre = [2]\<rparr>) [5]))"
  using hybrid_kem_agrees [OF toy_lib_correct(2,3,1)] by blast

text \<open>Data sealed with \<open>encrypt\<close>, with the returned postfix appended, opens to the data
  again under the same secret, and a buffer shorter than tag and nonce never opens.\<close>
theorem aes_seal_open:
  assumes "aes_correct L" and "length nonce = NONCE_SIZE"
  shows "(case aes_seal L asoc data secret nonce of (body, postfix) \<Rightarrow>
      aes_open L asoc (body @ postfix) secret = Some data) \<and>
    (\<forall>buf. length buf < NONCE_SIZE + TAG_SIZE \<longrightarrow> aes_open L asoc buf secret = None)"
proof -
  obtain ct tag where a: "aes_encrypt L secret nonce asoc data = (ct, tag)" by fastforce
  then have d: "aes_decrypt L secret nonce asoc ct tag = Some data" and t: "length tag = TAG_SIZE"
    using assms(1) unfolding aes_correct_def by blast+
  have "aes_open L asoc (ct @ tag @ nonce) secret = Some data"
    using d t assms(2) by (simp add: aes_open_def Let_def)
  then show ?thesis by (simp add: aes_seal_def a aes_open_def)
qed

theorem aes_seal_open_witness:
  "case aes_seal toy_lib [] [1, 2, 3] [9] (replicate 12 4) of (body, postfix) \<Rightarrow>
     aes_open toy_lib [] (body @ postfix) [9] = Some [1, 2, 3]"
  using aes_seal_open [OF toy_lib_correct(1), of "replicate 12 4" "[]" "[9]" "[1, 2, 3]"]
  by (simp add: NONCE_SIZE_def)

text \<open>A signature verifies exactly if both its parts do, the classical part being checked
  first, and the signature of a key pair verifies under its public key.\<close>
theorem hybrid_signature:
  assumes "signing_correct L"
  shows "(sign_verify L pk data sg = Inr () \<longleftrightarrow>
      ed_verify L (sp_pre pk) data (sg_pre sg) \<and> falcon_verify L (sp_post pk) data (sg_post sg)) \<and>
    (sign_verify L pk data sg = Inl PreQuantum \<longleftrightarrow> \<not> ed_verify L (sp_pre pk) data (sg_pre sg)) \<and>
    (\<forall>s. sign_data L kp data rng = Done s \<longrightarrow> sign_verify L (sign_public L kp) data s = Inr ())"
  using assms by (auto simp: sign_verify_def sign_data_def sign_public_def signing_correct_def run_simps)

theorem hybrid_signature_witness:
  "sign_data toy_lib \<lparr>sk_post = [1], sk_pre = [2]\<rparr> [3] [] = Done \<lparr>sg_post = [3, 1], sg_pre = [2, 3]\<rparr> \<and>
   sign_verify toy_lib (sign_public toy_lib \<lparr>sk_post = [1], sk_pre = [2]\<rparr>) [3] \<lparr>sg_post = [3, 1], sg_pre = [2, 3]\<rparr> = Inr ()"
  using hybrid_signature [OF toy_lib_correct(4), of undefined "[3]" undefined "\<lparr>sk_post = [1], sk_pre = [2]\<rparr>" "[]"]
  by (simp add: sign_data_def toy_lib_def run_expect_def)

end
