(* ===== verification/Chat_Spec.thy ===== *)
theory Chat_Spec
  imports Codec Crypto
begin

section \<open>The chat protocol (\<open>core/chat-spec/src\<close>)\<close>

text \<open>
  The data of the protocol (\<open>lib.rs\<close>, \<open>chat.rs\<close>, \<open>profile.rs\<close>) and its algorithms: the nonce
  check, proofs (\<open>component-utils/src/crypto.rs\<close>), the in-place filter of a message buffer with
  its pointer arithmetic, the iterators over the messages of a block and over a mail box, and
  the padding of user names. Hashes, keys, signatures and names are byte strings.
\<close>

subsection \<open>Topics and nonces\<close>

type_synonym identity = bytes
type_synonym chat_name = bytes
type_synonym nonce = u64
type_synonym block_number = u64

text \<open>The replication factor is 4; a topic is replicated by one node more.\<close>

definition REPLICATION_FACTOR :: nat where
  "REPLICATION_FACTOR = 4"

datatype possible_topic = TProfile identity | TChat chat_name

definition topic_as_bytes :: "possible_topic \<Rightarrow> bytes" where
  "topic_as_bytes t = (case t of TProfile i \<Rightarrow> i | TChat c \<Rightarrow> c)"

definition advance_nonce :: "nonce \<Rightarrow> nonce \<Rightarrow> bool \<times> nonce" where
  "advance_nonce current new = (let valid = new > current in (valid, if valid then new else current))"

datatype 'e repl_error = NoMajority | InvalidResponse | InvalidTopic | ReplInner 'e

subsection \<open>Proofs\<close>

record 'c signed_proof =
  pf_pk :: bytes
  pf_nonce :: nonce
  pf_signature :: bytes
  pf_context :: 'c

text \<open>
  The payload that is signed: the hash of the context (given by \<open>to_proof_context\<close>), then the
  nonce. \<open>verify_raw\<close> is \<open>PublicKey::verify\<close> on the serialised key and signature.
\<close>

definition pack_payload :: "nonce \<Rightarrow> bytes \<Rightarrow> bytes" where
  "pack_payload n context = context @ u64_to_be_bytes n"

definition proof_verify :: "(bytes \<Rightarrow> bytes \<Rightarrow> bytes \<Rightarrow> bool) \<Rightarrow> ('c \<Rightarrow> bytes) \<Rightarrow> 'c signed_proof \<Rightarrow> bool" where
  "proof_verify verify_raw to_context p =
     (let bytes = pack_payload (pf_nonce p) (to_context (pf_context p)) in
      verify_raw (pf_pk p) bytes (pf_signature p))"

text \<open>\<open>to_proof_context\<close> of slices, names and reminders, and of \<open>Mail\<close>.\<close>

definition slice_context :: "crypto_lib \<Rightarrow> bytes \<Rightarrow> bytes" where
  "slice_context L context = hash_from_slice L context"

definition mail_context :: "unit \<Rightarrow> bytes" where
  "mail_context m = replicate 32 (255 - 1)"

definition proof_profile_topic :: "crypto_lib \<Rightarrow> 'c signed_proof \<Rightarrow> possible_topic" where
  "proof_profile_topic L p = TProfile (hash_from_raw L (pf_pk p))"

definition proof_chat_topic :: "chat_name signed_proof \<Rightarrow> possible_topic" where
  "proof_chat_topic p = TChat (pf_context p)"

subsection \<open>Messages\<close>

record message =
  identiy :: identity
  msg_nonce :: nonce
  msg_content :: bytes

definition encode_message :: "'b buffer_ops \<Rightarrow> message \<Rightarrow> 'b \<Rightarrow> bool \<times> 'b" where
  "encode_message ops m =
     seq_enc (encode_array encode_u8 ops (identiy m))
       (seq_enc (encode_int ops (msg_nonce m)) (encode_reminder ops (msg_content m)))"

record cursor =
  cu_block :: block_number
  cu_offset :: nat

definition CURSOR_INIT :: cursor where
  "CURSOR_INIT = \<lparr>cu_block = - 1, cu_offset = 0\<rparr>"

datatype chat_action = AddUser identity | SendMessage bytes

datatype create_chat_error = ChatAlreadyExists

datatype chat_action_error =
    CAChatNotFound | CAInvalidProof | NotMember | AlreadyMember | CAInvalidAction nonce
  | MessageTooLarge | MessageBlockNotFinalized

datatype fetch_messages_error = FMChatNotFound

datatype propose_msg_block_error = PMNoReplicator | PMChatNotFound | NoBlocks | NotServer

datatype invalid_block_reason = MajorityMismatch | Outdated | NotExpected

datatype send_block_error = SBNoReplicator | SBChatNotFound | InvalidBlock invalid_block_reason

datatype fetch_latest_block_error = FLChatNotFound

subsection \<open>Message buffers\<close>

text \<open>
  A buffer holds messages, each followed by its length in two bytes; it is read from the end.
  \<open>unpack_messages\<close> is the list of what the iterator yields, the last message first.
\<close>

definition frame_len :: "bytes \<Rightarrow> nat" where
  "frame_len buf = unat (u16_from_be_bytes (buf ! (length buf - 2)) (buf ! (length buf - 1)))"

function unpack_messages :: "bytes \<Rightarrow> bytes list" where
  "unpack_messages buf =
     (if length buf < 2 then []
      else let len = frame_len buf; rest = take (length buf - 2) buf in
        if length rest < len then []
        else drop (length rest - len) rest # unpack_messages (take (length rest - len) rest))"
  by pat_completeness auto
termination
  by (relation "measure length") auto

declare unpack_messages.simps [simp del]

text \<open>
  \<open>retain_messages\<close>: the memory of the buffer and the three pointers as offsets into it. The
  predicate may change the message and its own state \<open>'s\<close>. A pointer that leaves the buffer or
  an offset below zero is \<open>Panic\<close>.
\<close>

definition usize_sub :: "nat \<Rightarrow> nat \<Rightarrow> nat run" where
  "usize_sub a b = (if b \<le> a then Done (a - b) else Panic)"

definition ptr_copy :: "bytes \<Rightarrow> nat \<Rightarrow> nat \<Rightarrow> nat \<Rightarrow> bytes run" where
  "ptr_copy mem src dst n =
     (if src + n \<le> length mem \<and> dst + n \<le> length mem
      then Done (take dst mem @ take n (drop src mem) @ drop (dst + n) mem) else Panic)"

definition move_mem :: "bytes \<Rightarrow> nat \<Rightarrow> nat \<Rightarrow> nat \<Rightarrow> nat \<Rightarrow> (bytes \<times> nat) run" where
  "move_mem mem hole_end cursor write_cursor len =
     (if hole_end = cursor then Done (mem, write_cursor)
      else run_bind (usize_sub hole_end cursor) (\<lambda>d.
        run_bind (usize_sub d len) (\<lambda>write_len.
        run_bind (usize_sub write_cursor write_len) (\<lambda>dst.
        run_bind (if hole_end \<noteq> write_cursor
            then run_bind (usize_sub hole_end write_len) (\<lambda>src. ptr_copy mem src dst write_len)
            else Done mem) (\<lambda>mem'.
        Done (mem', dst))))))"

type_synonym 's msg_predicate = "'s \<Rightarrow> bytes \<Rightarrow> bool \<times> bytes \<times> 's"

function retain_loop :: "'s msg_predicate \<Rightarrow> 's \<Rightarrow> bytes \<Rightarrow> nat \<Rightarrow> nat \<Rightarrow> nat \<Rightarrow>
    ('s \<times> bytes \<times> nat \<times> nat \<times> nat) run" where
  "retain_loop p s mem cursor hole_end write_cursor =
     (if cursor < 2 then Done (s, mem, cursor, hole_end, write_cursor)
      else
        let len = unat (u16_from_be_bytes (mem ! (cursor - 2)) (mem ! (cursor - 1))) in
        if cursor < len + 2 then Done (s, mem, cursor, hole_end, write_cursor)
        else
          let cursor' = cursor - (len + 2) in
          case p s (take len (drop cursor' mem)) of (keep, msg', s') \<Rightarrow>
            let mem' = take cursor' mem @ msg' @ drop (cursor' + len) mem in
            if keep then retain_loop p s' mem' cursor' hole_end write_cursor
            else run_bind (move_mem mem' hole_end cursor' write_cursor (len + 2)) (\<lambda>(mem'', wc).
              retain_loop p s' mem'' cursor' cursor' wc))"
  by pat_completeness auto
termination
  by (relation "measure (\<lambda>(p, s, mem, cursor, h, w). cursor)") auto

declare retain_loop.simps [simp del]

definition retain_messages :: "'s msg_predicate \<Rightarrow> 's \<Rightarrow> bytes \<Rightarrow> ('s \<times> bytes \<times> nat) run" where
  "retain_messages p s buf =
     run_bind (retain_loop p s buf (length buf) (length buf) (length buf))
       (\<lambda>(s', mem, cursor, hole_end, wc).
          run_bind (move_mem mem hole_end cursor wc 0) (\<lambda>(mem', wc'). Done (s', mem', wc')))"

text \<open>The kept region starts at the returned offset; the vector version drops what precedes it.\<close>

definition retain_messages_in_vec :: "'s msg_predicate \<Rightarrow> 's \<Rightarrow> bytes \<Rightarrow> ('s \<times> bytes) run" where
  "retain_messages_in_vec p s buf =
     run_bind (retain_messages p s buf) (\<lambda>(s', mem, wc).
       let len = length (drop wc mem) in Done (s', drop (length mem - len) mem))"

subsection \<open>Profiles and mail\<close>

record profile =
  pr_sign :: bytes
  pr_enc :: bytes
  last_sig :: bytes
  vault_version :: nonce
  mail_action :: nonce
  vault :: bytes
  mail :: bytes

definition read_mail :: "profile \<Rightarrow> bytes \<times> profile" where
  "read_mail p = (mail p, p\<lparr>mail := []\<rparr>)"

definition push_mail :: "bytes \<Rightarrow> profile \<Rightarrow> profile" where
  "push_mail content p = p\<lparr>mail := mail p @ encode_len (length content) @ content\<rparr>"

definition profile_is_valid :: "(bytes \<Rightarrow> bytes \<Rightarrow> bytes \<Rightarrow> bool) \<Rightarrow> crypto_lib \<Rightarrow> profile \<Rightarrow> bool" where
  "profile_is_valid verify_raw L p = proof_verify verify_raw (slice_context L)
     \<lparr>pf_pk = pr_sign p, pf_nonce = vault_version p, pf_signature = last_sig p, pf_context = vault p\<rparr>"

definition fetch_profile_resp :: "profile \<Rightarrow> bytes \<times> bytes" where
  "fetch_profile_resp p = (pr_sign p, pr_enc p)"

datatype fetch_profile_error = FPNotFound

datatype create_account_error = CRInvalidProof | CRAlreadyExists

datatype set_vault_error = SVNotFound | SVInvalidProof | SVInvalidAction

datatype fetch_vault_error = FVNotFound

datatype read_mail_error = RMNotFound | RMInvalidProof | RMInvalidAction

datatype send_mail_error = SMNotFound | SentDirectly | SendingToSelf | MailboxFull

function unpack_mail :: "bytes \<Rightarrow> bytes list" where
  "unpack_mail buf =
     (if length buf < 2 then []
      else let len = unat (u16_from_be_bytes (buf ! 0) (buf ! 1)); rest = drop 2 buf in
        if length rest < len then [] else take len rest # unpack_mail (drop len rest))"
  by pat_completeness auto
termination
  by (relation "measure length") auto

declare unpack_mail.simps [simp del]

definition USER_NAME_CAP :: nat where
  "USER_NAME_CAP = 32"

text \<open>\<open>arr[..u.len()].copy_from_slice\<close> on an array of the given filler byte.\<close>

definition pad_name :: "u8 \<Rightarrow> nat \<Rightarrow> bytes \<Rightarrow> bytes" where
  "pad_name filler cap u = u @ replicate (cap - length u) filler"

definition strip_name :: "u8 \<Rightarrow> bytes \<Rightarrow> bytes" where
  "strip_name filler name = rev (dropWhile (\<lambda>b. b = filler) (rev name))"

definition username_to_raw :: "bytes \<Rightarrow> bytes" where
  "username_to_raw u = pad_name 0 USER_NAME_CAP u"

definition username_from_raw :: "bytes \<Rightarrow> bytes option" where
  "username_from_raw name =
     (let name' = strip_name 0 name in if valid_utf8 name' then Some name' else None)"

text \<open>\<open>arrstr_to_array\<close> and \<open>array_to_arrstr\<close> of \<open>component-utils\<close> pad with the byte 0xff.\<close>

definition arrstr_to_array :: "nat \<Rightarrow> bytes \<Rightarrow> bytes" where
  "arrstr_to_array cap s = pad_name 255 cap s"

definition array_to_arrstr :: "bytes \<Rightarrow> bytes option" where
  "array_to_arrstr arr =
     (let s = strip_name 255 arr in if valid_utf8 s then Some s else None)"

subsection \<open>The in-place filter and its specification\<close>

text \<open>
  The specification reads the messages from the end of the buffer, hands each to the predicate,
  and puts the kept ones together again in front of each other.
\<close>

function retain_spec :: "'s msg_predicate \<Rightarrow> 's \<Rightarrow> bytes \<Rightarrow> 's \<times> bytes" where
  "retain_spec p s buf =
     (if length buf < 2 then (s, [])
      else let len = frame_len buf; rest = take (length buf - 2) buf in
        if length rest < len then (s, [])
        else case p s (drop (length rest - len) rest) of (keep, msg', s') \<Rightarrow>
          case retain_spec p s' (take (length rest - len) rest) of (s'', out) \<Rightarrow>
            (s'', out @ (if keep then msg' @ drop (length buf - 2) buf else [])))"
  by pat_completeness auto
termination
  by (relation "measure (\<lambda>(p, s, buf). length buf)") auto

declare retain_spec.simps [simp del]

lemma move_mem_spec:
  assumes "cursor + len \<le> hole_end" and "hole_end \<le> wc" and "wc \<le> length mem"
  obtains mem' wc' where "move_mem mem hole_end cursor wc len = Done (mem', wc')"
    and "length mem' = length mem" and "cursor \<le> wc'" and "wc' \<le> length mem"
    and "take cursor mem' = take cursor mem"
    and "drop wc' mem' = take (hole_end - (cursor + len)) (drop (cursor + len) mem) @ drop wc mem"
proof (cases "hole_end = cursor")
  case True
  with assms that [of mem wc] show ?thesis by (simp add: move_mem_def)
next
  case False
  define n where "n = hole_end - (cursor + len)"
  have n: "hole_end - cursor - len = n" "n \<le> hole_end" "n \<le> wc" "hole_end - n = cursor + len"
    using assms by (auto simp: n_def)
  show ?thesis
  proof (cases "hole_end = wc")
    case True
    have "drop (wc - n) mem = take n (drop (cursor + len) mem) @ drop wc mem"
      using n True append_take_drop_id [of n "drop (cursor + len) mem"] assms by (simp add: add.commute) (metis add.commute le_add_diff_inverse2 n_def drop_drop)
    moreover have "move_mem mem hole_end cursor wc len = Done (mem, wc - n)"
      using False True assms n by (simp add: move_mem_def usize_sub_def)
    ultimately show ?thesis using that [of mem "wc - n"] n True assms by (simp add: n_def)
  next
    case neq: False
    let ?mem = "take (wc - n) mem @ take n (drop (cursor + len) mem) @ drop wc mem"
    have cp: "ptr_copy mem (cursor + len) (wc - n) n = Done ?mem"
      using assms n by (simp add: ptr_copy_def)
    have "move_mem mem hole_end cursor wc len = Done (?mem, wc - n)"
      using False neq assms n cp by (simp add: move_mem_def usize_sub_def)
    moreover have "length (take n (drop (cursor + len) mem)) = n" using assms n by simp
    moreover have "cursor \<le> wc - n" using assms n by (simp add: n_def)
    ultimately show ?thesis using that [of ?mem "wc - n"] assms n by (simp add: min_absorb1 n_def [symmetric])
  qed
qed

lemma frame_len_take: "2 \<le> c \<Longrightarrow> c \<le> length mem \<Longrightarrow>
    frame_len (take c mem) = unat (u16_from_be_bytes (mem ! (c - 2)) (mem ! (c - 1)))"
  by (simp add: frame_len_def)

lemma retain_spec_end:
  assumes "cursor \<le> length mem" and "cursor < 2 \<or>
    cursor < unat (u16_from_be_bytes (mem ! (cursor - 2)) (mem ! (cursor - 1))) + 2"
  shows "retain_spec p s (take cursor mem) = (s, [])"
  using assms by (subst retain_spec.simps) (auto simp: frame_len_take Let_def)

lemma retain_spec_step:
  assumes "cursor \<le> length mem" and "2 \<le> cursor"
    and "len = unat (u16_from_be_bytes (mem ! (cursor - 2)) (mem ! (cursor - 1)))"
    and "c' + (len + 2) = cursor" and "p s (take len (drop c' mem)) = (keep, msg', s')"
  shows "retain_spec p s (take cursor mem) =
    (case retain_spec p s' (take c' mem) of (s'', out) \<Rightarrow>
      (s'', out @ (if keep then msg' @ take 2 (drop (cursor - 2) mem) else [])))"
proof -
  have l: "length (take cursor mem) = cursor" "frame_len (take cursor mem) = len"
    "take (cursor - 2) (take cursor mem) = take (cursor - 2) mem"
    "length (take (cursor - 2) mem) = c' + len"
    using assms by (auto simp: frame_len_take min_def)
  have m: "drop (c' + len - len) (take (cursor - 2) mem) = take len (drop c' mem)"
    "take (c' + len - len) (take (cursor - 2) mem) = take c' mem"
    "drop (cursor - 2) (take cursor mem) = take 2 (drop (cursor - 2) mem)"
    using assms(1,2,4) by (auto simp: drop_take)
  have c: "\<not> cursor < 2" "\<not> c' + len < len" using assms by auto
  show ?thesis
    by (subst retain_spec.simps) (simp only: l m c assms(5) Let_def if_False prod.case)
qed

text \<open>The region that the remaining work produces, from the state of the loop.\<close>

lemma retain_loop_spec:
  assumes "\<forall>s m. length (fst (snd (p s m))) = length m"
    and "cursor \<le> hole_end" and "hole_end \<le> wc" and "wc \<le> length mem"
  shows "\<exists>s' mem' c h w. retain_loop p s mem cursor hole_end wc = Done (s', mem', c, h, w) \<and>
    c \<le> h \<and> h \<le> w \<and> w \<le> length mem' \<and> length mem' = length mem \<and>
    s' = fst (retain_spec p s (take cursor mem)) \<and>
    take (h - c) (drop c mem') @ drop w mem' =
      snd (retain_spec p s (take cursor mem)) @ take (hole_end - cursor) (drop cursor mem) @ drop wc mem"
  using assms
proof (induction p s mem cursor hole_end wc rule: retain_loop.induct)
  case (1 p s mem cursor hole_end wc)
  define len where "len = unat (u16_from_be_bytes (mem ! (cursor - 2)) (mem ! (cursor - 1)))"
  have cm: "cursor \<le> length mem" using "1.prems" by simp
  show ?case
  proof (cases "cursor < 2 \<or> cursor < len + 2")
    case True
    then have "retain_loop p s mem cursor hole_end wc = Done (s, mem, cursor, hole_end, wc)"
      by (subst retain_loop.simps) (auto simp: len_def Let_def)
    moreover have "retain_spec p s (take cursor mem) = (s, [])"
      using True cm by (intro retain_spec_end) (auto simp: len_def)
    ultimately show ?thesis using "1.prems" by simp
  next
    case False
    define c' where "c' = cursor - (len + 2)"
    have c': "c' + (len + 2) = cursor" "\<not> cursor < 2" "\<not> cursor < len + 2" "2 \<le> cursor"
      using False by (auto simp: c'_def)
    obtain keep msg' s' where p: "p s (take len (drop c' mem)) = (keep, msg', s')" by (cases "p s (take len (drop c' mem))") auto
    have lm: "length msg' = len"
      using "1.prems"(1) p c' cm by (metis add_leD1 fst_conv snd_conv length_take length_drop min.absorb2 le_diff_conv2 add.commute add.assoc)
    define mem' where "mem' = take c' mem @ msg' @ drop (c' + len) mem"
    have m': "length mem' = length mem" "take c' mem' = take c' mem" "drop c' mem' = msg' @ drop (c' + len) mem"
      "drop wc mem' = drop wc mem" "drop cursor mem' = drop cursor mem"
      using c' cm lm "1.prems" by (auto simp: mem'_def min_def)
    obtain s2 out where sp: "retain_spec p s' (take c' mem) = (s2, out)" by fastforce
    have spec: "retain_spec p s (take cursor mem) =
        (s2, out @ (if keep then msg' @ take 2 (drop (cursor - 2) mem) else []))"
      using retain_spec_step [where p = p and s = s, OF cm c'(4) len_def c'(1) p] sp by simp
    have loop: "retain_loop p s mem cursor hole_end wc =
        (if keep then retain_loop p s' mem' c' hole_end wc
         else run_bind (move_mem mem' hole_end c' wc (len + 2)) (\<lambda>(mem'', wc').
           retain_loop p s' mem'' c' c' wc'))"
      by (subst retain_loop.simps) (simp only: len_def [symmetric] c'(2,3) if_False Let_def c'_def [symmetric] p prod.case mem'_def [symmetric])
    note IH = "1.IH" [OF c'(2) len_def c'(3) c'_def p [symmetric] refl mem'_def]
    show ?thesis
    proof (cases keep)
      case True
      have e: "cursor - 2 = c' + len" "hole_end - (c' + len) = Suc (Suc (hole_end - cursor))" "len \<le> hole_end - c'" using c' "1.prems" by auto
      have "take (hole_end - c') (drop c' mem') = msg' @ take (2 + (hole_end - cursor)) (drop (cursor - 2) mem)"
        using lm by (simp add: m'(3) e)
      also have "\<dots> = msg' @ take 2 (drop (cursor - 2) mem) @ take (hole_end - cursor) (drop cursor mem)"
        using le_add_diff_inverse [OF c'(4)] by (simp only: take_add drop_drop)
      finally have reg: "take (hole_end - c') (drop c' mem') =
        msg' @ take 2 (drop (cursor - 2) mem) @ take (hole_end - cursor) (drop cursor mem)" .
      have "c' \<le> hole_end" using c' "1.prems" by simp
      from IH(1) [OF True "1.prems"(1) this "1.prems"(3)] "1.prems"(4) show ?thesis
        unfolding loop spec using True by (simp add: m'(1,2,4) sp reg)
    next
      case False
      have "c' + (len + 2) \<le> hole_end" "wc \<le> length mem'" using c' "1.prems" m' by auto
      then obtain mem2 wc2 where mv: "move_mem mem' hole_end c' wc (len + 2) = Done (mem2, wc2)"
        "length mem2 = length mem'" "c' \<le> wc2" "wc2 \<le> length mem'" "take c' mem2 = take c' mem'"
        "drop wc2 mem2 = take (hole_end - (c' + (len + 2))) (drop (c' + (len + 2)) mem') @ drop wc mem'"
        using move_mem_spec [of c' "len + 2" hole_end wc mem'] "1.prems"(3) by blast
      have d: "drop wc2 mem2 = take (hole_end - cursor) (drop cursor mem) @ drop wc mem"
        using mv(6) unfolding c'(1) by (simp add: m'(4,5))
      from IH(2) [OF False, of wc2 mem2] "1.prems"(1) mv(1-5) d show ?thesis
        unfolding loop spec using False by (simp add: m'(1,2) sp)
    qed
  qed
qed


lemma retain_messages_correct:
  assumes "\<forall>s m. length (fst (snd (p s m))) = length m"
  shows "\<exists>mem wc. retain_messages p s buf = Done (fst (retain_spec p s buf), mem, wc) \<and>
    wc \<le> length mem \<and> length mem = length buf \<and> drop wc mem = snd (retain_spec p s buf)"
proof -
  obtain s' mem c h w where r: "retain_loop p s buf (length buf) (length buf) (length buf) = Done (s', mem, c, h, w)"
    "c \<le> h" "h \<le> w" "w \<le> length mem" "length mem = length buf" "s' = fst (retain_spec p s buf)"
    "take (h - c) (drop c mem) @ drop w mem = snd (retain_spec p s buf)"
    using retain_loop_spec [OF assms, of "length buf" "length buf" "length buf" buf s] by auto
  obtain mem' wc' where m: "move_mem mem h c w 0 = Done (mem', wc')" "length mem' = length mem"
    "wc' \<le> length mem" "drop wc' mem' = take (h - c) (drop c mem) @ drop w mem"
    by (rule move_mem_spec [of c 0 h w mem]) (use r(2-4) in auto)
  show ?thesis using r m by (simp add: retain_messages_def)
qed

text \<open>Messages packed into a buffer, in order, and read back from the end.\<close>

definition pack_messages :: "bytes list \<Rightarrow> bytes" where
  "pack_messages msgs = concat (map (\<lambda>m. m @ encode_len (length m)) msgs)"

lemma encode_len_read:
  "length m < 2 ^ 16 \<Longrightarrow> unat (u16_from_be_bytes (encode_len (length m) ! 0) (encode_len (length m) ! 1)) = length m"
  by (simp add: encode_len_def u16_to_be_bytes_def unat_of_nat)

lemma frame_len_snoc: "length m < 2 ^ 16 \<Longrightarrow> frame_len (b @ m @ encode_len (length m)) = length m"
  using encode_len_read [of m] by (simp add: frame_len_def nth_append encode_len_def)

lemma unpack_messages_snoc:
  "length m < 2 ^ 16 \<Longrightarrow> unpack_messages (b @ m @ encode_len (length m)) = m # unpack_messages b"
  by (subst unpack_messages.simps) (simp add: frame_len_snoc Let_def, simp add: encode_len_def)

lemma unpack_pack: "\<forall>m\<in>set msgs. length m < 2 ^ 16 \<Longrightarrow> unpack_messages (pack_messages msgs) = rev msgs"
proof (induction msgs rule: rev_induct)
  case Nil
  show ?case by (simp add: pack_messages_def unpack_messages.simps)
next
  case (snoc m msgs)
  then show ?case using unpack_messages_snoc [of m "pack_messages msgs"] by (simp add: pack_messages_def)
qed

lemma retain_spec_snoc:
  assumes "length m < 2 ^ 16" and "p s m = (keep, m', s')" and "retain_spec p s' b = (s2, out)"
  shows "retain_spec p s (b @ m @ encode_len (length m)) =
    (s2, out @ (if keep then m' @ encode_len (length m) else []))"
proof -
  have "length (encode_len (length m)) = 2" by (simp add: encode_len_def)
  then show ?thesis using assms
    by (subst retain_spec.simps) (simp add: frame_len_snoc Let_def)
qed

text \<open>For a predicate that only looks, the specification is the filter of the messages.\<close>

lemma retain_spec_filter:
  "\<forall>m\<in>set msgs. length m < 2 ^ 16 \<Longrightarrow>
   retain_spec (\<lambda>s m. (q m, m, s)) s (pack_messages msgs) = (s, pack_messages (filter q msgs))"
proof (induction msgs rule: rev_induct)
  case Nil
  show ?case by (simp add: pack_messages_def retain_spec.simps)
next
  case (snoc m msgs)
  then show ?case
    using retain_spec_snoc [of m "\<lambda>s m. (q m, m, s)" s "q m" m s "pack_messages msgs"]
    by (simp add: pack_messages_def)
qed


lemma unpack_mail_snoc:
  assumes "length m < 2 ^ 16"
  shows "unpack_mail (encode_len (length m) @ m @ b) = m # unpack_mail b"
proof -
  have "length (encode_len (length m)) = 2" by (simp add: encode_len_def)
  moreover from this have "(encode_len (length m) @ m @ b) ! 0 = encode_len (length m) ! 0"
    "(encode_len (length m) @ m @ b) ! 1 = encode_len (length m) ! 1"
    by (auto simp: nth_append)
  ultimately show ?thesis using encode_len_read [OF assms]
    by (subst unpack_mail.simps) (simp add: Let_def)
qed

lemma unpack_mail_concat:
  "\<forall>m\<in>set ms. length m < 2 ^ 16 \<Longrightarrow> unpack_mail (concat (map (\<lambda>m. encode_len (length m) @ m) ms)) = ms"
  by (induction ms) (simp_all add: unpack_mail_snoc, simp add: unpack_mail.simps)

lemma mail_fold_push:
  "mail (fold push_mail ms p) = mail p @ concat (map (\<lambda>m. encode_len (length m) @ m) ms)"
  by (induction ms arbitrary: p) (simp_all add: push_mail_def)

lemma strip_pad:
  assumes "length u \<le> cap" and "u = [] \<or> last u \<noteq> filler"
  shows "strip_name filler (pad_name filler cap u) = u"
proof -
  have "dropWhile (\<lambda>b. b = filler) (replicate n filler @ rev u) = rev u" for n
    using assms(2) by (induction n) (cases u rule: rev_cases; auto)+
  then show ?thesis by (simp add: strip_name_def pad_name_def)
qed

lemma valid_utf8_no_ff: "valid_utf8 s \<Longrightarrow> 255 \<notin> set s"
proof (induction s rule: valid_utf8.induct)
  case (2 a bs)
  have small: "x \<le> 244 \<Longrightarrow> x \<noteq> 255" for x :: u8 by auto
  have low: "x < 128 \<Longrightarrow> x \<noteq> 255" for x :: u8 by auto
  have cont: "utf8_cont x \<Longrightarrow> x \<noteq> 255" for x by (auto simp: utf8_cont_def)
  show ?case
  proof (cases "a < 128")
    case True
    then show ?thesis using 2 low [OF True] by simp
  next
    case a1: False
    then obtain b cs where bs: "bs = b # cs" using "2.prems" by (cases bs) auto
    show ?thesis
    proof (cases "194 \<le> a \<and> a \<le> 223")
      case True
      then have "a \<noteq> 255" by auto
      then show ?thesis using "2.IH"(2) [OF a1 bs True] "2.prems" a1 True cont by (simp add: bs)
    next
      case a2: False
      then obtain c ds where cs: "cs = c # ds" using "2.prems" a1 by (cases cs) (auto simp: bs)
      show ?thesis
      proof (cases "224 \<le> a \<and> a \<le> 239")
        case True
        then have "a \<noteq> 255" by auto
        then show ?thesis using "2.IH"(3) [OF a1 bs a2 cs True] "2.prems" a1 a2 True cont by (simp add: bs cs)
      next
        case a3: False
        then obtain d es where ds: "ds = d # es" using "2.prems" a1 a2 by (cases ds) (auto simp: bs cs)
        show ?thesis using "2.IH"(4) [OF a1 bs a2 cs a3 ds] "2.prems" a1 a2 a3 cont small [of a]
          by (simp add: bs cs ds)
      qed
    qed
  qed
qed simp

subsection \<open>Properties\<close>

text \<open>C33: The in-place filter of a message buffer never moves memory outside of the buffer and
  leaves exactly what the specification describes, for every buffer, well formed or not, and
  every predicate, also one with a state that changes the messages in place.\<close>
theorem retain_messages_refines:
  assumes "\<forall>s m. length (fst (snd (p s m))) = length m"
  shows "retain_messages_in_vec p s buf = Done (retain_spec p s buf)"
proof -
  obtain mem wc where r: "retain_messages p s buf = Done (fst (retain_spec p s buf), mem, wc)"
    "wc \<le> length mem" "drop wc mem = snd (retain_spec p s buf)"
    using retain_messages_correct [OF assms] by blast
  then show ?thesis by (simp add: retain_messages_in_vec_def)
qed

theorem retain_messages_refines_witness:
  "retain_messages_in_vec (\<lambda>n m. (even n, rev m, Suc n)) (0 :: nat) [9, 1, 2, 0, 2, 3, 0, 1, 0, 0] =
   Done (retain_spec (\<lambda>n m. (even n, rev m, Suc n)) 0 [9, 1, 2, 0, 2, 3, 0, 1, 0, 0])"
  by (rule retain_messages_refines) simp

text \<open>On a buffer of packed messages, each shorter than 64 KiB, the filter with a predicate
  that only looks leaves the kept messages packed in their order, and the iterator over the
  result yields the kept messages, the newest first.\<close>
theorem retain_messages_filters:
  assumes "\<forall>m\<in>set msgs. length m < 2 ^ 16"
  shows "retain_messages_in_vec (\<lambda>s m. (q m, m, s)) s (pack_messages msgs) =
      Done (s, pack_messages (filter q msgs)) \<and>
    unpack_messages (pack_messages (filter q msgs)) = rev (filter q msgs)"
proof -
  obtain mem wc where r: "retain_messages (\<lambda>s m. (q m, m, s)) s (pack_messages msgs) =
      Done (fst (retain_spec (\<lambda>s m. (q m, m, s)) s (pack_messages msgs)), mem, wc)"
    "wc \<le> length mem" "drop wc mem = snd (retain_spec (\<lambda>s m. (q m, m, s)) s (pack_messages msgs))"
    using retain_messages_correct [of "\<lambda>s m. (q m, m, s)" s "pack_messages msgs"] by auto
  then show ?thesis using assms
    by (simp add: retain_messages_in_vec_def retain_spec_filter unpack_pack)
qed

theorem retain_messages_filters_witness:
  "retain_messages_in_vec (\<lambda>s m. (m \<noteq> [7], m, s)) () (pack_messages [[1, 2], [7], [], [3]]) =
     Done ((), pack_messages [[1, 2], [], [3]]) \<and>
   unpack_messages (pack_messages [[1, 2], [], [3]]) = [[3], [], [1, 2]]"
  using retain_messages_filters [of "[[1, 2], [7], [], [3]]" "\<lambda>m. m \<noteq> [7]" "()"] by simp

text \<open>Mail pushed to an empty box, each piece shorter than 64 KiB, is read back complete and
  in order, and reading empties the box.\<close>
theorem mail_round_trip:
  assumes "mail p = []" and "\<forall>m\<in>set ms. length m < 2 ^ 16"
  shows "unpack_mail (fst (read_mail (fold push_mail ms p))) = ms \<and>
    mail (snd (read_mail (fold push_mail ms p))) = []"
  using assms by (simp add: read_mail_def mail_fold_push unpack_mail_concat)

definition empty_profile :: profile where
  "empty_profile = \<lparr>pr_sign = [1], pr_enc = [2], last_sig = [3], vault_version = 0, mail_action = 0,
     vault = [], mail = []\<rparr>"

theorem mail_round_trip_witness:
  "unpack_mail (fst (read_mail (fold push_mail [[1, 2, 3], [], [4]] empty_profile))) = [[1, 2, 3], [], [4]]"
  using mail_round_trip [of empty_profile "[[1, 2, 3], [], [4]]"] by (simp add: empty_profile_def)

text \<open>A mail of 65536 bytes is stored with the length 0, so the reader sees an empty mail
  and takes the content for further lengths: it is lost, although the mail box accepts it.\<close>
theorem long_mail_lost:
  assumes "mail p = []" and "length m = 65536"
  shows "unpack_mail (mail (push_mail m p)) = [] # unpack_mail m"
proof -
  have "encode_len (length m) = encode_len (length ([] :: bytes))"
  proof -
    have "(of_nat 65536 :: u16) = of_nat 0" unfolding word_of_nat_eq_iff by simp
    then show ?thesis unfolding encode_len_def assms(2) list.size by (rule arg_cong)
  qed
  then show ?thesis using unpack_mail_snoc [of "[]" m] assms(1) by (simp add: push_mail_def)
qed

theorem long_mail_lost_witness:
  "unpack_mail (mail (push_mail (replicate 65536 1) empty_profile)) = [] # unpack_mail (replicate 65536 1)"
  by (rule long_mail_lost) (simp_all only: empty_profile_def profile.simps length_replicate)

text \<open>User names and array strings survive the padding to their fixed size and back: user
  names that do not end in a zero byte, array strings always, since no UTF-8 text contains the
  byte 0xff.\<close>
theorem name_round_trip:
  assumes "valid_utf8 u" and "length u \<le> USER_NAME_CAP"
  shows "(u = [] \<or> last u \<noteq> 0 \<longrightarrow> username_from_raw (username_to_raw u) = Some u) \<and>
    length (username_to_raw u) = USER_NAME_CAP \<and>
    array_to_arrstr (arrstr_to_array USER_NAME_CAP u) = Some u"
proof -
  have "u = [] \<or> last u \<noteq> 255" using valid_utf8_no_ff [OF assms(1)] by (metis last_in_set)
  then show ?thesis using assms
    by (auto simp: username_from_raw_def username_to_raw_def array_to_arrstr_def arrstr_to_array_def strip_pad Let_def)
      (simp_all add: pad_name_def)
qed

theorem name_round_trip_witness:
  "username_from_raw (username_to_raw [97, 98]) = Some [97, 98] \<and> length (username_to_raw [97, 98]) = USER_NAME_CAP"
  using name_round_trip [of "[97, 98]"] by (simp add: USER_NAME_CAP_def)

end
