(* ===== verification/Dht.thy ===== *)
theory Dht
  imports Node_Staker Chat_Spec
begin

section \<open>The routing table (\<open>core/dht/src/lib.rs\<close>)\<close>

text \<open>
  \<open>RoutingTable\<close>, a vector of routes sorted by a 256 bit id, with its binary searches, the
  iterator of the routes closest to an id on the ring, and the connection filter of the
  behaviour; from \<open>nodes/server/src/main.rs\<close> the handling of the chain's membership events and
  the choice of the replicators of a topic, the clients of the table.

  Peer ids, multi addresses, ed25519 keys, blake3 and the conversion of bytes to a \<open>U256\<close>
  belong to other packages: they are the type parameters and the fields of \<open>peer_env\<close>. A
  \<open>U256\<close> is a 256 bit word, as \<open>primitive_types\<close> documents it.
\<close>

type_synonym u256 = "256 word"

record 'addr route =
  route_id :: u256
  route_addr :: 'addr

type_synonym 'addr table = "'addr route list"

record 'peer peer_env =
  pe_digest :: "'peer \<Rightarrow> bytes"
  pe_u256 :: "bytes \<Rightarrow> u256"
  pe_peer_id :: "u256 \<Rightarrow> 'peer option"
  pe_blake3 :: "bytes \<Rightarrow> bytes"

subsection \<open>The table\<close>

text \<open>\<open>bulk_insert\<close>: asserts an empty table; \<open>sort_by_key\<close> is a stable sort.\<close>

definition bulk_insert :: "'addr table \<Rightarrow> 'addr route list \<Rightarrow> 'addr table run" where
  "bulk_insert t routes =
     run_bind (run_assert (t = [])) (\<lambda>_. Done (sort_key route_id (t @ routes)))"

definition table_insert :: "'addr table \<Rightarrow> 'addr route \<Rightarrow> 'addr table" where
  "table_insert t route =
     (case binary_search (map route_id t) (route_id route) of
        Inr i \<Rightarrow> t[i := route]
      | Inl i \<Rightarrow> vec_insert i route t)"

text \<open>
  \<open>bytes[bytes.len() - 32..]\<close> panics for a digest shorter than 32 bytes, and has exactly 32
  bytes otherwise, so the conversion to an array succeeds.
\<close>

definition try_peer_id_to_ed :: "'peer peer_env \<Rightarrow> 'peer \<Rightarrow> bytes option run" where
  "try_peer_id_to_ed env p =
     (let bytes = pe_digest env p in
      if length bytes < 32 then Panic else Done (Some (drop (length bytes - 32) bytes)))"

text \<open>The search, and the part of \<open>remove\<close> and \<open>get\<close> that follows the conversion.\<close>

definition remove_id :: "'addr table \<Rightarrow> u256 \<Rightarrow> 'addr route option \<times> 'addr table" where
  "remove_id t k =
     (case binary_search (map route_id t) k of
        Inl _ \<Rightarrow> (None, t)
      | Inr i \<Rightarrow> (Some (t ! i), vec_remove i t))"

definition get_id :: "'addr table \<Rightarrow> u256 \<Rightarrow> 'addr option" where
  "get_id t k =
     (case binary_search (map route_id t) k of Inl _ \<Rightarrow> None | Inr i \<Rightarrow> Some (route_addr (t ! i)))"

definition table_remove ::
  "'peer peer_env \<Rightarrow> 'addr table \<Rightarrow> 'peer \<Rightarrow> ('addr route option \<times> 'addr table) run" where
  "table_remove env t p =
     run_bind (try_peer_id_to_ed env p) (\<lambda>id. case id of
        None \<Rightarrow> Done (None, t)
      | Some bytes \<Rightarrow> Done (remove_id t (pe_u256 env bytes)))"

definition table_get :: "'peer peer_env \<Rightarrow> 'addr table \<Rightarrow> 'peer \<Rightarrow> 'addr option run" where
  "table_get env t p =
     run_bind (try_peer_id_to_ed env p) (\<lambda>id. case id of
        None \<Rightarrow> Done None
      | Some bytes \<Rightarrow> Done (get_id t (pe_u256 env bytes)))"

subsection \<open>The closest routes\<close>

definition shortest_distance :: "u256 \<Rightarrow> u256 \<Rightarrow> u256" where
  "shortest_distance a b = min (a - b) (b - a)"

text \<open>
  The state of the iterator: the two double ended slice iterators, here lists in the order of
  \<open>next\<close> whose last element is the one of \<open>next_back\<close>, and the two peeked routes.
\<close>

record 'addr closest_iter =
  it_left :: "'addr route list"
  it_right :: "'addr route list"
  left_peek :: "'addr route option"
  right_peek :: "'addr route option"

text \<open>\<open>left.next().or_else(|| right.next_back())\<close> and its mirror image.\<close>

definition pull_left :: "'addr closest_iter \<Rightarrow> 'addr closest_iter" where
  "pull_left s =
     (case it_left s of
        x # l \<Rightarrow> s\<lparr>it_left := l, left_peek := Some x\<rparr>
      | [] \<Rightarrow> if it_right s = [] then s\<lparr>left_peek := None\<rparr>
              else s\<lparr>it_right := butlast (it_right s), left_peek := Some (last (it_right s))\<rparr>)"

definition pull_right :: "'addr closest_iter \<Rightarrow> 'addr closest_iter" where
  "pull_right s =
     (case it_right s of
        x # r \<Rightarrow> s\<lparr>it_right := r, right_peek := Some x\<rparr>
      | [] \<Rightarrow> if it_left s = [] then s\<lparr>right_peek := None\<rparr>
              else s\<lparr>it_left := butlast (it_left s), right_peek := Some (last (it_left s))\<rparr>)"

definition closest_start :: "'addr table \<Rightarrow> u256 \<Rightarrow> 'addr closest_iter" where
  "closest_start t k =
     (let index = (case binary_search (map route_id t) k of Inr i \<Rightarrow> i | Inl i \<Rightarrow> i) in
      pull_right (pull_left
        \<lparr>it_left = rev (take index t), it_right = drop index t, left_peek = None, right_peek = None\<rparr>))"

definition closest_next :: "u256 \<Rightarrow> 'addr closest_iter \<Rightarrow> 'addr route option \<times> 'addr closest_iter" where
  "closest_next k s =
     (case (left_peek s, right_peek s) of
        (Some l, Some r) \<Rightarrow>
          if shortest_distance k (route_id l) < shortest_distance k (route_id r)
          then (Some l, pull_left s) else (Some r, pull_right s)
      | (Some x, None) \<Rightarrow> (Some x, s\<lparr>left_peek := None, right_peek := None\<rparr>)
      | (None, Some x) \<Rightarrow> (Some x, s\<lparr>left_peek := None, right_peek := None\<rparr>)
      | (None, None) \<Rightarrow> (None, s))"

definition opt_count :: "'a option \<Rightarrow> nat" where
  "opt_count x = (case x of None \<Rightarrow> 0 | Some _ \<Rightarrow> 1)"

definition iter_size :: "'addr closest_iter \<Rightarrow> nat" where
  "iter_size s =
     length (it_left s) + length (it_right s) + opt_count (left_peek s) + opt_count (right_peek s)"

lemma closest_next_size:
  "closest_next k s = (Some x, s') \<Longrightarrow> iter_size s' < iter_size s"
  by (auto simp: closest_next_def iter_size_def pull_left_def pull_right_def opt_count_def
      split: option.splits if_splits list.splits)

text \<open>All the routes that the iterator still yields.\<close>

function closest_drain :: "u256 \<Rightarrow> 'addr closest_iter \<Rightarrow> 'addr route list" where
  "closest_drain k s =
     (case closest_next k s of (None, _) \<Rightarrow> [] | (Some x, s') \<Rightarrow> x # closest_drain k s')"
  by pat_completeness auto
termination
  by (relation "measure (\<lambda>(k, s). iter_size s)") (auto dest: closest_next_size [OF sym])

declare closest_drain.simps [simp del]

definition closest_low :: "'addr table \<Rightarrow> u256 \<Rightarrow> 'addr route list" where
  "closest_low t k = closest_drain k (closest_start t k)"

definition closest :: "'peer peer_env \<Rightarrow> 'addr table \<Rightarrow> bytes \<Rightarrow> 'addr route list" where
  "closest env t data = closest_low t (pe_u256 env (pe_blake3 env data))"

subsection \<open>The behaviour and the connection filter\<close>

text \<open>\<open>Route::peer_id\<close> expects the id to be a valid key.\<close>

definition route_peer_id :: "'peer peer_env \<Rightarrow> 'addr route \<Rightarrow> 'peer run" where
  "route_peer_id env r = run_expect (pe_peer_id env (route_id r))"

definition handle_pending_outbound_connection ::
  "'peer peer_env \<Rightarrow> 'addr table \<Rightarrow> 'peer option \<Rightarrow> 'addr list \<Rightarrow> 'addr list run" where
  "handle_pending_outbound_connection env t maybe_peer addresses =
     (case (addresses, maybe_peer) of
        ([], Some p) \<Rightarrow> run_bind (table_get env t p)
          (\<lambda>a. Done (case a of Some addr \<Rightarrow> [addr] | None \<Rightarrow> []))
      | _ \<Rightarrow> Done [])"

text \<open>
  \<open>filter_incoming\<close> of the server: connections on a web socket address are let through (what
  is one is a question to the address package, the first argument), others only from a node of
  the table. The result is whether the connection is accepted.
\<close>

definition filter_incoming ::
  "('addr \<Rightarrow> bool) \<Rightarrow> 'peer peer_env \<Rightarrow> 'addr table \<Rightarrow> 'peer \<Rightarrow> 'addr \<Rightarrow> bool run" where
  "filter_incoming is_ws env t p local_addr =
     (if is_ws local_addr then Done True
      else run_bind (table_get env t p) (\<lambda>a. Done (a \<noteq> None)))"

text \<open>\<open>handle_established_inbound_connection\<close> runs the filter it was built with.\<close>

definition handle_established_inbound_connection ::
  "('addr table \<Rightarrow> 'peer \<Rightarrow> 'addr \<Rightarrow> bool run) \<Rightarrow> 'addr table \<Rightarrow> 'peer \<Rightarrow> 'addr \<Rightarrow> bool run" where
  "handle_established_inbound_connection flt t p local_addr = flt t p local_addr"

subsection \<open>Membership events of the chain\<close>

text \<open>
  \<open>handle_stake_event\<close>: \<open>unpack\<close> is \<open>unpack_node_id\<close> (it fails for bytes that are no
  key; the key's id is what \<open>Route::new\<close> stores), \<open>to_addr\<close> is \<open>unpack_node_addr\<close>, and
  \<open>peer\<close> the peer id of a key. A failed chain event is only logged.
\<close>

definition handle_stake_event ::
  "'peer peer_env \<Rightarrow> ('key \<Rightarrow> u256 option) \<Rightarrow> ('naddr \<Rightarrow> 'addr) \<Rightarrow> (u256 \<Rightarrow> 'peer) \<Rightarrow>
   'addr table \<Rightarrow> ('err + ('key, 'naddr) stake_event) \<Rightarrow> 'addr table run" where
  "handle_stake_event env unpack to_addr peer t event =
     (case event of
        Inl _ \<Rightarrow> Done t
      | Inr (Joined key addr) \<Rightarrow>
          (case unpack key of None \<Rightarrow> Done t
           | Some pk \<Rightarrow> Done (table_insert t \<lparr>route_id = pk, route_addr = to_addr addr\<rparr>))
      | Inr (Reclaimed key) \<Rightarrow>
          (case unpack key of None \<Rightarrow> Done t
           | Some pk \<Rightarrow> run_bind (table_remove env t (peer pk)) (\<lambda>r. Done (snd r)))
      | Inr (AddrChanged key addr) \<Rightarrow>
          (case unpack key of None \<Rightarrow> Done t
           | Some pk \<Rightarrow> Done (table_insert t \<lparr>route_id = pk, route_addr = to_addr addr\<rparr>)))"

fun handle_stake_events ::
  "'peer peer_env \<Rightarrow> ('key \<Rightarrow> u256 option) \<Rightarrow> ('naddr \<Rightarrow> 'addr) \<Rightarrow> (u256 \<Rightarrow> 'peer) \<Rightarrow>
   'addr table \<Rightarrow> ('err + ('key, 'naddr) stake_event) list \<Rightarrow> 'addr table run" where
  "handle_stake_events env unpack to_addr peer t [] = Done t"
| "handle_stake_events env unpack to_addr peer t (e # es) =
     run_bind (handle_stake_event env unpack to_addr peer t e)
       (\<lambda>t'. handle_stake_events env unpack to_addr peer t' es)"

subsection \<open>Replicators\<close>

fun run_map :: "('a \<Rightarrow> 'b run) \<Rightarrow> 'a list \<Rightarrow> 'b list run" where
  "run_map f [] = Done []"
| "run_map f (x # xs) = run_bind (f x) (\<lambda>y. run_bind (run_map f xs) (\<lambda>ys. Done (y # ys)))"

definition replicators_for :: "'peer peer_env \<Rightarrow> 'addr table \<Rightarrow> bytes \<Rightarrow> 'peer list run" where
  "replicators_for env t topic =
     run_map (route_peer_id env) (take (REPLICATION_FACTOR + 1) (closest env t topic))"

definition other_replicators_for ::
  "'peer peer_env \<Rightarrow> 'addr table \<Rightarrow> bytes \<Rightarrow> 'peer \<Rightarrow> 'peer list run" where
  "other_replicators_for env t topic us =
     run_bind (replicators_for env t topic) (\<lambda>ps. Done (filter (\<lambda>p. p \<noteq> us) ps))"

definition is_valid_topic :: "'peer peer_env \<Rightarrow> 'addr table \<Rightarrow> bytes \<Rightarrow> 'peer \<Rightarrow> bool run" where
  "is_valid_topic env t topic us =
     run_bind (replicators_for env t topic) (\<lambda>ps. Done (list_ex (\<lambda>p. p = us) ps))"

subsection \<open>The table as a map\<close>

definition table_ok :: "'addr table \<Rightarrow> bool" where
  "table_ok t \<longleftrightarrow> sorted_wrt (<) (map route_id t)"

definition table_map :: "'addr table \<Rightarrow> u256 \<rightharpoonup> 'addr" where
  "table_map t = map_of (map (\<lambda>r. (route_id r, route_addr r)) t)"

text \<open>The table split at an index.\<close>

lemma table_map_append: "table_map (xs @ ys) = table_map ys ++ table_map xs"
  by (simp add: table_map_def)

lemma dom_table_map: "dom (table_map t) = route_id ` set t"
  by (auto simp: table_map_def dom_map_of_conv_image_fst image_image)

lemma table_map_mid:
  assumes "route_id r \<notin> route_id ` set xs"
  shows "table_map (xs @ r # ys) = (table_map (xs @ ys))(route_id r \<mapsto> route_addr r)"
proof -
  have "table_map (r # ys) = (table_map ys)(route_id r \<mapsto> route_addr r)" by (simp add: table_map_def)
  moreover have "route_id r \<notin> dom (table_map xs)" using assms by (simp add: dom_table_map)
  ultimately show ?thesis by (simp add: table_map_append map_add_upd_left)
qed

lemma table_ok_mid:
  "table_ok (xs @ r # ys) \<longleftrightarrow> table_ok (xs @ ys) \<and>
     (\<forall>x\<in>set xs. route_id x < route_id r) \<and> (\<forall>y\<in>set ys. route_id r < route_id y)"
  by (auto simp: table_ok_def sorted_wrt_append)

lemma split_at: "i < length t \<Longrightarrow> t = take i t @ t ! i # drop (Suc i) t"
  by (rule id_take_nth_drop)

lemma search_split_Ok:
  assumes "table_ok t" and "binary_search (map route_id t) k = Inr i"
  obtains xs r ys where "t = xs @ r # ys" and "length xs = i" and "route_id r = k"
proof -
  have "i < length t" and "route_id (t ! i) = k"
    using binary_search_Ok [OF _ assms(2)] assms(1) by (auto simp: table_ok_def)
  then show thesis using that [of "take i t" "t ! i" "drop (Suc i) t"] split_at [of i t] by simp
qed

lemma search_split_Err:
  assumes "table_ok t" and "binary_search (map route_id t) k = Inl i"
  obtains xs ys where "t = xs @ ys" and "length xs = i"
    and "\<forall>x\<in>set xs. route_id x < k" and "\<forall>y\<in>set ys. k < route_id y"
proof -
  have b: "i \<le> length t" "\<forall>j<i. route_id (t ! j) < k" "\<forall>j<length t. i \<le> j \<longrightarrow> k < route_id (t ! j)"
    using binary_search_Err [OF _ assms(2)] assms(1) by (auto simp: table_ok_def)
  have "\<forall>x\<in>set (take i t). route_id x < k" using b(1,2) by (auto simp: in_set_conv_nth)
  moreover have "\<forall>y\<in>set (drop i t). k < route_id y" using b by (auto simp: in_set_conv_nth)
  ultimately show thesis using that [of "take i t" "drop i t"] b(1) by simp
qed

lemma table_insert_laws:
  assumes "table_ok t"
  shows "table_ok (table_insert t r) \<and> table_map (table_insert t r) = (table_map t)(route_id r \<mapsto> route_addr r)"
proof (cases "binary_search (map route_id t) (route_id r)")
  case (Inr i)
  then obtain xs q ys where t: "t = xs @ q # ys" "length xs = i" "route_id q = route_id r"
    by (rule search_split_Ok [OF assms])
  then have ins: "table_insert t r = xs @ r # ys" using Inr by (simp add: table_insert_def list_update_append)
  have lt: "\<forall>x\<in>set xs. route_id x < route_id q" using assms t(1) by (simp add: table_ok_mid)
  with t(3) have "route_id q \<notin> route_id ` set xs" "route_id r \<notin> route_id ` set xs" by auto
  then show ?thesis using assms unfolding ins unfolding t(1) by (simp add: table_ok_mid table_map_mid t(3))
next
  case (Inl i)
  then obtain xs ys where t: "t = xs @ ys" "length xs = i"
    "\<forall>x\<in>set xs. route_id x < route_id r" "\<forall>y\<in>set ys. route_id r < route_id y"
    by (rule search_split_Err [OF assms])
  then have ins: "table_insert t r = xs @ r # ys" using Inl by (simp add: table_insert_def vec_insert_def)
  have "route_id r \<notin> route_id ` set xs" using t(3) by auto
  then show ?thesis using assms t(3,4) unfolding ins unfolding t(1) by (simp add: table_ok_mid table_map_mid)
qed

lemma remove_id_laws:
  assumes "table_ok t"
  shows "table_ok (snd (remove_id t k)) \<and> table_map (snd (remove_id t k)) = (table_map t)(k := None) \<and>
    map_option route_addr (fst (remove_id t k)) = table_map t k"
proof (cases "binary_search (map route_id t) k")
  case (Inr i)
  then obtain xs q ys where t: "t = xs @ q # ys" "length xs = i" "route_id q = k"
    by (rule search_split_Ok [OF assms])
  then have rem: "remove_id t k = (Some q, xs @ ys)" using Inr by (auto simp: remove_id_def vec_remove_def nth_append)
  have lt: "\<forall>x\<in>set xs. route_id x < k" "\<forall>y\<in>set ys. k < route_id y"
    using assms t by (auto simp: table_ok_mid)
  then have "k \<notin> dom (table_map (xs @ ys))" by (auto simp: dom_table_map)
  moreover have "route_id q \<notin> route_id ` set xs" using lt t(3) by auto
  ultimately show ?thesis
    using assms unfolding rem unfolding t(1) by (simp add: table_ok_mid table_map_mid t(3) fun_upd_idem domIff)
next
  case (Inl i)
  then obtain xs ys where t: "t = xs @ ys" "length xs = i"
    "\<forall>x\<in>set xs. route_id x < k" "\<forall>y\<in>set ys. k < route_id y"
    by (rule search_split_Err [OF assms])
  then have "k \<notin> dom (table_map t)" by (auto simp: dom_table_map)
  then show ?thesis using assms Inl by (simp add: remove_id_def domIff fun_upd_idem)
qed

lemma get_id_laws: "table_ok t \<Longrightarrow> get_id t k = table_map t k"
  using remove_id_laws [of t k]
  by (cases "binary_search (map route_id t) k") (auto simp: get_id_def remove_id_def)

interpretation rt: id_map "\<lambda>t k v. table_insert t \<lparr>route_id = k, route_addr = v\<rparr>"
  "\<lambda>t k. snd (remove_id t k)" get_id table_ok
proof unfold_locales
  fix t :: "'a table" and k and v :: 'a
  assume ok: "table_ok t"
  show ins: "table_ok (table_insert t \<lparr>route_id = k, route_addr = v\<rparr>)"
    and rem: "table_ok (snd (remove_id t k))"
    using table_insert_laws [OF ok, of "\<lparr>route_id = k, route_addr = v\<rparr>"] remove_id_laws [OF ok, of k] by auto
  show "get_id (table_insert t \<lparr>route_id = k, route_addr = v\<rparr>) = (get_id t)(k \<mapsto> v)"
    using table_insert_laws [OF ok, of "\<lparr>route_id = k, route_addr = v\<rparr>"]
    by (simp add: fun_eq_iff get_id_laws [OF ok] get_id_laws [OF ins])
  show "get_id (snd (remove_id t k)) = (get_id t)(k := None)"
    using remove_id_laws [OF ok, of k] by (simp add: fun_eq_iff get_id_laws [OF ok] get_id_laws [OF rem])
qed

subsection \<open>The order of the closest routes\<close>

text \<open>
  The routes left to yield form an arc of the ring, listed clockwise from the searched id: the
  two peeked routes are its ends. The specification takes the nearer end first.
\<close>

function pick_ends :: "u256 \<Rightarrow> 'addr route list \<Rightarrow> 'addr route list" where
  "pick_ends k arc =
     (if length arc \<le> 1 then arc
      else if shortest_distance k (route_id (last arc)) < shortest_distance k (route_id (hd arc))
      then last arc # pick_ends k (butlast arc)
      else hd arc # pick_ends k (tl arc))"
  by pat_completeness auto
termination
  by (relation "measure (\<lambda>(k, arc). length arc)") auto

declare pick_ends.simps [simp del]

definition iter_arc :: "'addr closest_iter \<Rightarrow> 'addr route list" where
  "iter_arc s = (case right_peek s of Some r \<Rightarrow> [r] | None \<Rightarrow> []) @ it_right s @ rev (it_left s) @
     (case left_peek s of Some l \<Rightarrow> [l] | None \<Rightarrow> [])"

definition iter_ok :: "'addr closest_iter \<Rightarrow> bool" where
  "iter_ok s \<longleftrightarrow> (left_peek s = None \<or> right_peek s = None \<longrightarrow> it_left s = [] \<and> it_right s = [])"

lemma closest_drain_pick: "iter_ok s \<Longrightarrow> closest_drain k s = pick_ends k (iter_arc s)"
proof (induction k s rule: closest_drain.induct)
  case (1 k s)
  show ?case
  proof (cases "left_peek s = None \<or> right_peek s = None")
    case True
    let ?s = "s\<lparr>left_peek := None, right_peek := None\<rparr>"
    have "closest_drain k ?s = []" by (subst closest_drain.simps) (simp add: closest_next_def)
    with True "1.prems" show ?thesis
      by (subst closest_drain.simps, subst pick_ends.simps)
        (auto simp: closest_next_def iter_ok_def iter_arc_def split: option.splits)
  next
    case False
    then obtain l r where lr: "left_peek s = Some l" "right_peek s = Some r" by auto
    let ?near = "shortest_distance k (route_id l) < shortest_distance k (route_id r)"
    have arc: "iter_arc s = r # it_right s @ rev (it_left s) @ [l]" using lr by (simp add: iter_arc_def)
    have pl: "iter_arc (pull_left s) = r # it_right s @ rev (it_left s)" "iter_ok (pull_left s)"
      using lr by (auto simp: pull_left_def iter_arc_def iter_ok_def split: list.splits)
    have pr: "iter_arc (pull_right s) = it_right s @ rev (it_left s) @ [l]" "iter_ok (pull_right s)"
      using lr by (auto simp: pull_right_def iter_arc_def iter_ok_def split: list.splits
          simp flip: append_butlast_last_id) (metis append_butlast_last_id rev.simps(2) rev_rev_ident)+
    have nxt: "closest_next k s = (if ?near then (Some l, pull_left s) else (Some r, pull_right s))"
      using lr by (simp add: closest_next_def)
    show ?thesis
    proof (cases ?near)
      case True
      then have "closest_drain k (pull_left s) = pick_ends k (iter_arc (pull_left s))"
        using "1.IH" nxt pl(2) by simp
      then show ?thesis using True
        by (subst closest_drain.simps, subst pick_ends.simps) (simp add: nxt arc pl(1) butlast_append)
    next
      case False
      then have "closest_drain k (pull_right s) = pick_ends k (iter_arc (pull_right s))"
        using "1.IH" nxt pr(2) by simp
      then show ?thesis using False
        by (subst closest_drain.simps, subst pick_ends.simps) (simp add: nxt arc pr(1))
    qed
  qed
qed

lemma mset_pick_ends: "mset (pick_ends k arc) = mset arc"
proof (induction k arc rule: pick_ends.induct)
  case (1 k arc)
  show ?case
  proof (cases "length arc \<le> 1")
    case True
    then show ?thesis by (subst pick_ends.simps) simp
  next
    case False
    then have ne: "arc \<noteq> []" by auto
    then have "mset arc = add_mset (last arc) (mset (butlast arc))"
      by (metis append_butlast_last_id mset.simps(2) union_code union_mset_add_mset_right mset_append add_mset_add_single mset_single_iff_right)
    moreover have "mset arc = add_mset (hd arc) (mset (tl arc))"
      using ne by (metis list.collapse mset.simps(2))
    ultimately show ?thesis using "1" False by (subst pick_ends.simps) simp
  qed
qed

text \<open>The clockwise offset from the searched id, and the distance as a function of it.\<close>

definition offset :: "u256 \<Rightarrow> u256 \<Rightarrow> u256" where
  "offset k x = x - k"

lemma uint_neg: "0 < a \<Longrightarrow> uint (- a) = 2 ^ LENGTH('a) - uint (a :: 'a::len word)"
  using uint_lt2p [of a] by (simp add: uint_word_ariths(4) zmod_zminus1_eq_if word_less_def)

lemma neg_antimono: "0 < a \<Longrightarrow> a \<le> b \<Longrightarrow> - b \<le> - (a :: u256)"
  using uint_neg [of a] uint_neg [of b] by (simp add: word_le_def word_less_def)

lemma shortest_distance_offset: "shortest_distance k x = min (- offset k x) (offset k x)"
  by (simp add: shortest_distance_def offset_def)

lemma arc_ends_nearest:
  assumes "offset k a \<le> offset k x" and "offset k x \<le> offset k b"
  shows "shortest_distance k a \<le> shortest_distance k x \<or> shortest_distance k b \<le> shortest_distance k x"
proof (cases "offset k a = 0")
  case True
  then show ?thesis by (simp add: shortest_distance_offset)
next
  case False
  then have "0 < offset k a" by (simp add: word_neq_0_conv)
  then have "- offset k b \<le> - offset k x" using assms by (intro neg_antimono) auto
  then show ?thesis using assms by (auto simp: shortest_distance_offset min_def)
qed

lemma pick_ends_nearest:
  assumes "sorted_wrt (\<lambda>a b. offset k (route_id a) \<le> offset k (route_id b)) arc" and "x \<in> set arc"
  shows "shortest_distance k (route_id (hd (pick_ends k arc))) \<le> shortest_distance k (route_id x)"
proof -
  let ?o = "\<lambda>r. offset k (route_id r)"
  let ?d = "\<lambda>r. shortest_distance k (route_id r)"
  obtain i where i: "i < length arc" "x = arc ! i" using assms(2) by (auto simp: in_set_conv_nth)
  have ne: "arc \<noteq> []" using assms(2) by auto
  have "?o (hd arc) \<le> ?o x"
    using sorted_wrt_nth_less [OF assms(1), of 0 i] i ne by (cases i) (auto simp: hd_conv_nth)
  moreover have "?o x \<le> ?o (last arc)"
    using sorted_wrt_nth_less [OF assms(1), of i "length arc - 1"] i ne
    by (cases "i = length arc - 1") (auto simp: last_conv_nth)
  ultimately have near: "?d (hd arc) \<le> ?d x \<or> ?d (last arc) \<le> ?d x" by (rule arc_ends_nearest)
  show ?thesis
  proof (cases "length arc \<le> 1")
    case True
    with i have "arc = [x]" by (cases arc) auto
    then show ?thesis by (subst pick_ends.simps) simp
  next
    case False
    with near show ?thesis by (subst pick_ends.simps) auto
  qed
qed

lemma sorted_pick_ends:
  "sorted_wrt (\<lambda>a b. offset k (route_id a) \<le> offset k (route_id b)) arc \<Longrightarrow>
   sorted_wrt (\<lambda>a b. shortest_distance k (route_id a) \<le> shortest_distance k (route_id b)) (pick_ends k arc)"
proof (induction k arc rule: pick_ends.induct)
  case (1 k arc)
  show ?case
  proof (cases "length arc \<le> 1")
    case True
    then show ?thesis by (subst pick_ends.simps) (cases arc; auto)
  next
    case False
    let ?R = "\<lambda>a b. shortest_distance k (route_id a) \<le> shortest_distance k (route_id b)"
    have ms: "set (pick_ends k arc) = set arc" by (metis mset_pick_ends set_mset_mset)
    have sub: "sorted_wrt (\<lambda>a b. offset k (route_id a) \<le> offset k (route_id b)) (butlast arc)"
      "sorted_wrt (\<lambda>a b. offset k (route_id a) \<le> offset k (route_id b)) (tl arc)"
      using "1.prems" by (auto simp: butlast_conv_take sorted_wrt_take tl_def split: list.splits)
    have "\<exists>y ys. pick_ends k arc = y # ys \<and> sorted_wrt ?R ys"
      using "1.IH" [OF False] sub False by (subst pick_ends.simps) auto
    then obtain y ys where p: "pick_ends k arc = y # ys" "sorted_wrt ?R ys" by blast
    have "\<forall>x\<in>set ys. ?R y x"
      using pick_ends_nearest [OF "1.prems"] ms unfolding p(1) by auto
    with p show ?thesis by simp
  qed
qed

lemma offset_mono:
  assumes "x \<le> y" and "k \<le> x \<or> y < k"
  shows "offset k x \<le> offset k y"
  using assms unat_less_exp [of y] unat_less_exp [of x]
  by (auto simp: offset_def word_le_nat_alt word_less_nat_alt unat_sub_if_size word_size)

lemma offset_wrap: "k \<le> x \<Longrightarrow> y < k \<Longrightarrow> offset k x \<le> offset k y"
  using unat_less_exp [of x]
  by (simp add: offset_def word_le_nat_alt word_less_nat_alt unat_sub_if_size word_size)

lemma rev_snoc_ends: "x # xs = rev ys \<Longrightarrow> last ys = x \<and> rev (butlast ys) = xs"
  by (cases ys rule: rev_cases) auto

lemma closest_start_arc:
  assumes "table_ok t"
  obtains xs ys where "t = xs @ ys" and "iter_arc (closest_start t k) = ys @ xs"
    and "iter_ok (closest_start t k)"
    and "\<forall>x\<in>set xs. route_id x < k" and "\<forall>y\<in>set ys. k \<le> route_id y"
proof -
  define i where "i = (case binary_search (map route_id t) k of Inr i \<Rightarrow> i | Inl i \<Rightarrow> i)"
  let ?s0 = "\<lparr>it_left = rev (take i t), it_right = drop i t, left_peek = None, right_peek = None\<rparr>"
  have st: "closest_start t k = pull_right (pull_left ?s0)"
    by (simp add: closest_start_def i_def Let_def)
  have arc: "iter_arc (pull_right (pull_left ?s0)) = drop i t @ take i t"
    and ok: "iter_ok (pull_right (pull_left ?s0))"
    by (auto simp: pull_left_def pull_right_def iter_arc_def iter_ok_def rev_snoc_ends split: list.splits)
  have "(\<forall>x\<in>set (take i t). route_id x < k) \<and> (\<forall>y\<in>set (drop i t). k \<le> route_id y)"
  proof (cases "binary_search (map route_id t) k")
    case (Inr j)
    then have ij: "i = j" by (simp add: i_def)
    obtain xs r ys where "t = xs @ r # ys" "length xs = j" "route_id r = k"
      by (rule search_split_Ok [OF assms Inr])
    with assms show ?thesis by (auto simp: ij table_ok_mid)
  next
    case (Inl j)
    then have ij: "i = j" by (simp add: i_def)
    show ?thesis by (rule search_split_Err [OF assms Inl]) (auto simp: ij)
  qed
  then show thesis using that [of "take i t" "drop i t"] arc ok st by simp
qed

lemma closest_low_order:
  assumes "table_ok t"
  shows "mset (closest_low t k) = mset t"
    and "sorted_wrt (\<lambda>a b. shortest_distance k (route_id a) \<le> shortest_distance k (route_id b)) (closest_low t k)"
proof -
  obtain xs ys where sp: "t = xs @ ys" "iter_arc (closest_start t k) = ys @ xs" "iter_ok (closest_start t k)"
    "\<forall>x\<in>set xs. route_id x < k" "\<forall>y\<in>set ys. k \<le> route_id y"
    by (rule closest_start_arc [OF assms])
  have low: "closest_low t k = pick_ends k (ys @ xs)"
    using closest_drain_pick [OF sp(3)] sp(2) by (simp add: closest_low_def)
  show "mset (closest_low t k) = mset t" unfolding low using sp(1) by (simp add: mset_pick_ends)
  let ?off = "\<lambda>a b. offset k (route_id a) \<le> offset k (route_id b)"
  have lt: "sorted_wrt (\<lambda>a b. route_id a < route_id b) xs" "sorted_wrt (\<lambda>a b. route_id a < route_id b) ys"
    using assms sp(1) by (auto simp: table_ok_def sorted_wrt_append sorted_wrt_map)
  have "sorted_wrt ?off xs" "sorted_wrt ?off ys"
    using sp(4,5) by (auto intro!: sorted_wrt_mono_rel [OF _ lt(1)] sorted_wrt_mono_rel [OF _ lt(2)] offset_mono)
  then have "sorted_wrt ?off (ys @ xs)"
    using sp(4,5) by (auto simp: sorted_wrt_append intro: offset_wrap)
  then show "sorted_wrt (\<lambda>a b. shortest_distance k (route_id a) \<le> shortest_distance k (route_id b)) (closest_low t k)"
    unfolding low by (rule sorted_pick_ends)
qed


subsection \<open>Environments\<close>

text \<open>
  What the code relies on of the peer ids: the digest of the peer of a key ends in the 32 bytes
  of the key, which the number package reads back as the key's id.
\<close>

definition peer_of :: "'peer peer_env \<Rightarrow> 'peer \<Rightarrow> u256 \<Rightarrow> bool" where
  "peer_of env p k \<longleftrightarrow> 32 \<le> length (pe_digest env p) \<and>
     pe_u256 env (drop (length (pe_digest env p) - 32) (pe_digest env p)) = k"

text \<open>An environment for small ids, on which the properties are evaluated.\<close>

definition small_env :: "u256 peer_env" where
  "small_env = \<lparr>pe_digest = (\<lambda>p. replicate 34 0 @ [ucast p]), pe_u256 = (\<lambda>b. ucast (last b)),
     pe_peer_id = Some, pe_blake3 = (\<lambda>d. d)\<rparr>"

definition small_table :: "nat table" where
  "small_table = map (\<lambda>(k, a). \<lparr>route_id = k, route_addr = a\<rparr>)
     [(1, 10), (5, 11), (9, 12), (40, 13), (90, 14), (200, 15), (- 3, 16)]"

lemma table_ok_small: "table_ok small_table"
  by (simp add: table_ok_def small_table_def word_less_alt uint_word_ariths)

lemma table_get_peer: "peer_of env p k \<Longrightarrow> table_get env t p = Done (get_id t k)"
  by (simp add: table_get_def try_peer_id_to_ed_def peer_of_def Let_def run_simps)

lemma table_remove_peer: "peer_of env p k \<Longrightarrow> table_remove env t p = Done (remove_id t k)"
  by (simp add: table_remove_def try_peer_id_to_ed_def peer_of_def Let_def run_simps)

text \<open>The set of members the chain's events describe, as a map from ids to addresses.\<close>

definition stake_update ::
  "('key \<Rightarrow> u256 option) \<Rightarrow> ('naddr \<Rightarrow> 'addr) \<Rightarrow> ('err + ('key, 'naddr) stake_event) \<Rightarrow>
   (u256 \<rightharpoonup> 'addr) \<Rightarrow> (u256 \<rightharpoonup> 'addr)" where
  "stake_update unpack to_addr event m =
     (case event of
        Inl _ \<Rightarrow> m
      | Inr (Joined key addr) \<Rightarrow> (case unpack key of None \<Rightarrow> m | Some k \<Rightarrow> m(k \<mapsto> to_addr addr))
      | Inr (Reclaimed key) \<Rightarrow> (case unpack key of None \<Rightarrow> m | Some k \<Rightarrow> m(k := None))
      | Inr (AddrChanged key addr) \<Rightarrow> (case unpack key of None \<Rightarrow> m | Some k \<Rightarrow> m(k \<mapsto> to_addr addr)))"

lemma handle_stake_event_step:
  assumes "table_ok t" and "\<forall>key k. unpack key = Some k \<longrightarrow> peer_of env (peer k) k"
  shows "\<exists>t'. handle_stake_event env unpack to_addr peer t e = Done t' \<and> table_ok t' \<and>
     get_id t' = stake_update unpack to_addr e (get_id t)"
proof -
  have rem: "table_remove env t (peer k) = Done (remove_id t k)" if "unpack key = Some k" for key k
    using assms(2) that by (intro table_remove_peer) auto
  show ?thesis using assms(1)
    by (auto simp: handle_stake_event_def stake_update_def rem run_simps
        rt.invar_insert rt.invar_remove rt.lookup_insert rt.lookup_remove
        split: sum.split stake_event.split option.split)
qed

lemma handle_stake_events_steps:
  assumes "table_ok t" and "\<forall>key k. unpack key = Some k \<longrightarrow> peer_of env (peer k) k"
  shows "\<exists>t'. handle_stake_events env unpack to_addr peer t es = Done t' \<and> table_ok t' \<and>
     get_id t' = fold (stake_update unpack to_addr) es (get_id t)"
  using assms(1)
proof (induction es arbitrary: t)
  case (Cons e es)
  obtain t1 where t1: "handle_stake_event env unpack to_addr peer t e = Done t1" "table_ok t1"
    "get_id t1 = stake_update unpack to_addr e (get_id t)"
    using handle_stake_event_step [OF Cons.prems assms(2)] by blast
  show ?case using Cons.IH [OF t1(2)] t1(1,3) by (simp add: run_simps)
qed simp

lemma run_map_Done: "(\<And>x. x \<in> set xs \<Longrightarrow> f x = Done (g x)) \<Longrightarrow> run_map f xs = Done (map g xs)"
  by (induction xs) (auto simp: run_simps)

subsection \<open>Properties\<close>

text \<open>C34: On a table with strictly ascending ids, which every operation keeps, the routes that
  the double ended iterator of \<open>closest_low\<close> yields are all the routes of the table, each once,
  in ascending order of their distance to the searched id on the ring of 256 bit numbers.\<close>
theorem closest_low_sorted:
  assumes "table_ok t"
  shows "mset (closest_low t k) = mset t \<and>
    sorted (map (\<lambda>r. shortest_distance k (route_id r)) (closest_low t k))"
  using closest_low_order [OF assms, of k] by (simp add: sorted_map sorted_wrt_map)

theorem closest_low_sorted_witness:
  "mset (closest_low small_table 4) = mset small_table \<and>
   sorted (map (\<lambda>r. shortest_distance 4 (route_id r)) (closest_low small_table 4))"
  by (rule closest_low_sorted [OF table_ok_small])

text \<open>When every id of the table is a valid key, \<open>replicators_for\<close> returns the peers of
  five routes of the table (all of them in a smaller table), none of which is farther from the
  hash of the topic than a route left out; it does not panic.\<close>
theorem replicators_nearest:
  assumes "table_ok t" and "\<forall>r\<in>set t. pe_peer_id env (route_id r) \<noteq> None"
  shows "\<exists>near rest. mset near + mset rest = mset t \<and> length near = min 5 (length t) \<and>
    (\<forall>a\<in>set near. \<forall>b\<in>set rest.
       shortest_distance (pe_u256 env (pe_blake3 env topic)) (route_id a) \<le>
       shortest_distance (pe_u256 env (pe_blake3 env topic)) (route_id b)) \<and>
    replicators_for env t topic = Done (map (\<lambda>r. the (pe_peer_id env (route_id r))) near)"
proof -
  define k where "k = pe_u256 env (pe_blake3 env topic)"
  define c where "c = closest_low t k"
  have ms: "mset c = mset t" and srt: "sorted_wrt (\<lambda>a b. shortest_distance k (route_id a) \<le> shortest_distance k (route_id b)) c"
    using closest_low_order [OF assms(1), of k] by (auto simp: c_def)
  have split: "mset (take 5 c) + mset (drop 5 c) = mset t"
    using ms by (metis append_take_drop_id mset_append)
  have len: "length c = length t" using ms by (metis size_mset)
  have far: "\<forall>a\<in>set (take 5 c). \<forall>b\<in>set (drop 5 c). shortest_distance k (route_id a) \<le> shortest_distance k (route_id b)"
    using srt sorted_wrt_append [of "\<lambda>a b. shortest_distance k (route_id a) \<le> shortest_distance k (route_id b)" "take 5 c" "drop 5 c"]
    unfolding append_take_drop_id by blast
  have "set c = set t" using ms by (metis set_mset_mset)
  then have valid: "\<forall>r\<in>set (take 5 c). pe_peer_id env (route_id r) \<noteq> None"
    using assms(2) by (auto dest: in_set_takeD)
  have "replicators_for env t topic = Done (map (\<lambda>r. the (pe_peer_id env (route_id r))) (take 5 c))"
    unfolding replicators_for_def REPLICATION_FACTOR_def closest_def k_def [symmetric] c_def [symmetric]
    using valid by (subst run_map_Done [where g = "\<lambda>r. the (pe_peer_id env (route_id r))"])
      (auto simp: route_peer_id_def run_simps)
  with split len far show ?thesis
    unfolding k_def [symmetric] by (intro exI [of _ "take 5 c"] exI [of _ "drop 5 c"]) simp
qed

theorem replicators_nearest_witness:
  "\<exists>near rest. mset near + mset rest = mset small_table \<and> length near = 5 \<and>
    replicators_for small_env small_table [42] =
      Done (map (\<lambda>r. the (pe_peer_id small_env (route_id r))) near)"
proof -
  have valid: "\<forall>r\<in>set small_table. pe_peer_id small_env (route_id r) \<noteq> None" by (simp add: small_env_def)
  have len: "min 5 (length small_table) = 5" by (simp add: small_table_def)
  show ?thesis using replicators_nearest [OF table_ok_small valid, of "[42]"] unfolding len by blast
qed

text \<open>C35: From a table with strictly ascending ids, every sequence of chain events (stakes that
  join, change their address or are reclaimed, events with an invalid key, failed events) is
  processed without a panic, keeps the ids strictly ascending, and leaves the table that looks
  up exactly what the corresponding sequence of map updates describes.\<close>
theorem stake_events_refine_map:
  assumes "table_ok t" and "\<forall>key k. unpack key = Some k \<longrightarrow> peer_of env (peer k) k"
  shows "\<exists>t'. handle_stake_events env unpack to_addr peer t es = Done t' \<and> table_ok t' \<and>
     get_id t' = fold (stake_update unpack to_addr) es (get_id t)"
  using assms by (rule handle_stake_events_steps)

definition small_keys :: "nat \<Rightarrow> u256 option" where
  "small_keys n = (if n = 0 then Some 5 else if n = 1 then Some 7 else None)"

lemma small_keys_peer: "\<forall>key k. small_keys key = Some k \<longrightarrow> peer_of small_env (id k) k"
  by (auto simp: small_keys_def peer_of_def small_env_def split: if_splits)

theorem stake_events_refine_map_witness:
  "\<exists>t'. handle_stake_events small_env small_keys Suc id small_table
      [Inr (Joined 1 50), Inl (), Inr (Reclaimed 0), Inr (AddrChanged 2 9)] = Done t' \<and> table_ok t' \<and>
   get_id t' = fold (stake_update small_keys Suc)
      [Inr (Joined 1 50), Inl (), Inr (Reclaimed 0), Inr (AddrChanged 2 9)] (get_id small_table)"
  by (rule stake_events_refine_map [OF table_ok_small small_keys_peer])

text \<open>After any sequence of chain events, an incoming connection of the peer of a key is
  accepted exactly if its local address is a web socket address or the key is a member
  according to the events; the filter never panics for such a peer.\<close>
theorem inbound_accepts_members:
  assumes "table_ok t" and "\<forall>key k. unpack key = Some k \<longrightarrow> peer_of env (peer k) k"
    and "peer_of env p k"
  shows "run_bind (handle_stake_events env unpack to_addr peer t es)
      (\<lambda>t'. handle_established_inbound_connection (filter_incoming is_ws env) t' p local_addr) =
    Done (is_ws local_addr \<or> fold (stake_update unpack to_addr) es (get_id t) k \<noteq> None)"
proof -
  obtain t' where t': "handle_stake_events env unpack to_addr peer t es = Done t'"
    "get_id t' = fold (stake_update unpack to_addr) es (get_id t)"
    using handle_stake_events_steps [OF assms(1,2)] by blast
  show ?thesis unfolding t' run_simps handle_established_inbound_connection_def filter_incoming_def
    by (simp add: table_get_peer [OF assms(3)] t'(2) run_simps)
qed

theorem inbound_accepts_members_witness:
  "run_bind (handle_stake_events small_env small_keys Suc id small_table [Inr (Reclaimed 0) :: unit + (nat, nat) stake_event])
      (\<lambda>t'. handle_established_inbound_connection (filter_incoming even small_env) t' 5 11) =
    Done (even (11 :: nat) \<or> fold (stake_update small_keys Suc)
      [Inr (Reclaimed 0) :: unit + (nat, nat) stake_event] (get_id small_table) 5 \<noteq> None)"
  by (rule inbound_accepts_members [OF table_ok_small small_keys_peer])
    (simp add: peer_of_def small_env_def)

text \<open>\<open>bulk_insert\<close> of routes with distinct ids into the empty table sorts them into a table
  that looks up every route under its id; into any other table it panics.\<close>
theorem bulk_insert_builds:
  assumes "distinct (map route_id rs)"
  shows "(\<exists>t'. bulk_insert [] rs = Done t' \<and> table_ok t' \<and> mset t' = mset rs \<and>
      get_id t' = map_of (map (\<lambda>r. (route_id r, route_addr r)) rs)) \<and>
    (t \<noteq> [] \<longrightarrow> bulk_insert t rs = Panic)"
proof -
  let ?t = "sort_key route_id rs"
  have d: "distinct (map route_id ?t)" using assms by (simp add: distinct_map)
  then have ok: "table_ok ?t" by (simp add: table_ok_def strict_sorted_iff)
  have eq: "table_map ?t = table_map rs"
    using assms d unfolding table_map_def by (subst map_of_inject_set) (auto simp: comp_def)
  then show ?thesis using ok get_id_laws [OF ok]
    by (auto simp: bulk_insert_def run_simps run_assert_def table_map_def fun_eq_iff)
qed

theorem bulk_insert_builds_witness:
  "(\<exists>t'. bulk_insert [] (rev small_table) = Done t' \<and> table_ok t' \<and> mset t' = mset (rev small_table) \<and>
      get_id t' = map_of (map (\<lambda>r. (route_id r, route_addr r)) (rev small_table))) \<and>
    bulk_insert small_table (rev small_table) = Panic"
proof -
  have "distinct (map route_id (rev small_table))" and ne: "small_table \<noteq> []" by (simp_all add: small_table_def)
  from bulk_insert_builds [OF this(1), of small_table] ne show ?thesis by blast
qed

end
