(* ===== verification/User_Manager.thy ===== *)
theory User_Manager
  imports Prelude
begin

section \<open>The contract of the user names (\<open>contracts/user_manager/lib.rs\<close>)\<close>

text \<open>
  The ink! contract that registers the identity keys of accounts and hands out user names. The
  storage mappings are maps; a trap (a failed assertion) is \<open>Panic\<close> and leaves the storage of
  the chain as it was. \<open>Mapping::insert\<close> reports whether the key was present, \<open>take\<close>
  removes and returns. Account ids are a type parameter.
\<close>

type_synonym raw_user_name = bytes

record um_profile =
  um_sign :: bytes
  um_enc :: bytes

record 'acc user_manager =
  username_to_owner :: "raw_user_name \<rightharpoonup> 'acc"
  owner_to_username :: "'acc \<rightharpoonup> raw_user_name"
  identity_to_username :: "bytes \<rightharpoonup> raw_user_name"
  identities :: "'acc \<rightharpoonup> um_profile"

definition um_new :: "'acc user_manager" where
  "um_new = \<lparr>username_to_owner = Map.empty, owner_to_username = Map.empty,
     identity_to_username = Map.empty, identities = Map.empty\<rparr>"

definition register :: "'acc \<Rightarrow> um_profile \<Rightarrow> 'acc user_manager \<Rightarrow> 'acc user_manager run" where
  "register caller data s = Done (s\<lparr>identities := (identities s)(caller \<mapsto> data)\<rparr>)"

definition pick_name :: "'acc \<Rightarrow> raw_user_name \<Rightarrow> 'acc user_manager \<Rightarrow> 'acc user_manager run" where
  "pick_name caller name s =
     run_bind (run_assert (owner_to_username s caller = None)) (\<lambda>_.
     let s1 = s\<lparr>owner_to_username := (owner_to_username s)(caller \<mapsto> name)\<rparr> in
     run_bind (run_assert (username_to_owner s1 name = None)) (\<lambda>_.
     let s2 = s1\<lparr>username_to_owner := (username_to_owner s1)(name \<mapsto> caller)\<rparr> in
     run_bind (run_expect (identities s2 caller)) (\<lambda>p.
     run_bind (run_assert (identity_to_username s2 (um_sign p) = None)) (\<lambda>_.
     Done (s2\<lparr>identity_to_username := (identity_to_username s2)(um_sign p \<mapsto> name)\<rparr>)))))"

definition register_with_name ::
  "'acc \<Rightarrow> raw_user_name \<Rightarrow> um_profile \<Rightarrow> 'acc user_manager \<Rightarrow> 'acc user_manager run" where
  "register_with_name caller name data s = run_bind (register caller data s) (pick_name caller name)"

definition give_up_name :: "'acc \<Rightarrow> raw_user_name \<Rightarrow> 'acc user_manager \<Rightarrow> 'acc user_manager run" where
  "give_up_name caller name s =
     run_bind (run_assert (username_to_owner s name = Some caller)) (\<lambda>_.
     let s1 = s\<lparr>username_to_owner := (username_to_owner s)(name := None)\<rparr> in
     run_bind (run_assert (owner_to_username s1 caller = Some name)) (\<lambda>_.
     let s2 = s1\<lparr>owner_to_username := (owner_to_username s1)(caller := None)\<rparr> in
     run_bind (run_expect (identities s2 caller)) (\<lambda>p.
     run_bind (run_assert (identity_to_username s2 (um_sign p) = Some name)) (\<lambda>_.
     Done (s2\<lparr>identity_to_username := (identity_to_username s2)(um_sign p := None)\<rparr>)))))"

definition transfere_name ::
  "'acc \<Rightarrow> raw_user_name \<Rightarrow> 'acc \<Rightarrow> 'acc user_manager \<Rightarrow> 'acc user_manager run" where
  "transfere_name caller name target s =
     run_bind (give_up_name caller name s) (\<lambda>s0.
     run_bind (run_assert (owner_to_username s0 target = None)) (\<lambda>_.
     let s1 = s0\<lparr>owner_to_username := (owner_to_username s0)(target \<mapsto> name)\<rparr> in
     run_bind (run_assert (username_to_owner s1 name = None)) (\<lambda>_.
     let s2 = s1\<lparr>username_to_owner := (username_to_owner s1)(name \<mapsto> target)\<rparr> in
     run_bind (run_expect (identities s2 target)) (\<lambda>identity.
     run_bind (run_assert (identity_to_username s2 (um_sign identity) = None)) (\<lambda>_.
     Done (s2\<lparr>identity_to_username := (identity_to_username s2)(um_sign identity \<mapsto> name)\<rparr>))))))"

definition get_profile :: "'acc user_manager \<Rightarrow> 'acc \<Rightarrow> um_profile option" where
  "get_profile s account = identities s account"

definition get_profile_by_name :: "'acc user_manager \<Rightarrow> raw_user_name \<Rightarrow> um_profile option" where
  "get_profile_by_name s name = Option.bind (username_to_owner s name) (identities s)"

definition get_username :: "'acc user_manager \<Rightarrow> bytes \<Rightarrow> raw_user_name option" where
  "get_username s identity = identity_to_username s identity"

text \<open>The messages as steps, each by any account.\<close>

inductive um_step :: "'acc user_manager \<Rightarrow> 'acc user_manager \<Rightarrow> bool" where
  um_register: "register c data s = Done s' \<Longrightarrow> um_step s s'"
| um_register_with_name: "register_with_name c name data s = Done s' \<Longrightarrow> um_step s s'"
| um_pick_name: "pick_name c name s = Done s' \<Longrightarrow> um_step s s'"
| um_give_up_name: "give_up_name c name s = Done s' \<Longrightarrow> um_step s s'"
| um_transfere_name: "transfere_name c name target s = Done s' \<Longrightarrow> um_step s s'"

inductive um_reach :: "'acc user_manager \<Rightarrow> bool" where
  um_reach_new: "um_reach um_new"
| um_reach_step: "um_reach s \<Longrightarrow> um_step s s' \<Longrightarrow> um_reach s'"

subsection \<open>The invariant\<close>

text \<open>
  Names and owners are inverse to each other, and the names with an owner are exactly the names
  of some identity, each of exactly one.
\<close>

definition um_inv :: "'acc user_manager \<Rightarrow> bool" where
  "um_inv s \<longleftrightarrow>
     (\<forall>n a. username_to_owner s n = Some a \<longleftrightarrow> owner_to_username s a = Some n) \<and>
     (\<forall>i j n. identity_to_username s i = Some n \<and> identity_to_username s j = Some n \<longrightarrow> i = j) \<and>
     ran (identity_to_username s) = dom (username_to_owner s)"

lemma pick_name_Done_iff:
  "pick_name c name s = Done s' \<longleftrightarrow>
     owner_to_username s c = None \<and> username_to_owner s name = None \<and>
     (\<exists>p. identities s c = Some p \<and> identity_to_username s (um_sign p) = None \<and>
       s' = s\<lparr>owner_to_username := (owner_to_username s)(c \<mapsto> name),
          username_to_owner := (username_to_owner s)(name \<mapsto> c),
          identity_to_username := (identity_to_username s)(um_sign p \<mapsto> name)\<rparr>)"
  by (auto simp: pick_name_def run_simps Let_def)

lemma give_up_name_Done_iff:
  "give_up_name c name s = Done s' \<longleftrightarrow>
     username_to_owner s name = Some c \<and> owner_to_username s c = Some name \<and>
     (\<exists>p. identities s c = Some p \<and> identity_to_username s (um_sign p) = Some name \<and>
       s' = s\<lparr>username_to_owner := (username_to_owner s)(name := None),
          owner_to_username := (owner_to_username s)(c := None),
          identity_to_username := (identity_to_username s)(um_sign p := None)\<rparr>)"
  by (auto simp: give_up_name_def run_simps Let_def)

text \<open>A transfer is giving the name up and the target picking it.\<close>

lemma transfere_name_split:
  "transfere_name c name target s = run_bind (give_up_name c name s) (pick_name target name)"
  unfolding transfere_name_def pick_name_def Let_def by simp

lemma ran_upd_fresh: "m k = None \<Longrightarrow> ran (m(k \<mapsto> v)) = insert v (ran m)"
  by (simp add: ran_map_upd)

lemma ran_upd_None:
  assumes "m k = Some v" and "\<forall>i j n. m i = Some n \<and> m j = Some n \<longrightarrow> i = j"
  shows "ran (m(k := None)) = ran m - {v}"
proof -
  have "m i = Some x \<and> i \<noteq> k \<longleftrightarrow> m i = Some x \<and> x \<noteq> v" for i x
    using assms by (metis option.inject)
  then show ?thesis unfolding ran_def by (auto simp del: fun_upd_apply) (auto split: if_splits)
qed

lemma pick_name_inv:
  assumes "pick_name c name s = Done s'" and "um_inv s"
  shows "um_inv s'"
proof -
  obtain p :: um_profile where p: "owner_to_username s c = None" "username_to_owner s name = None"
    "identity_to_username s (um_sign p) = None"
    and s': "s' = s\<lparr>owner_to_username := (owner_to_username s)(c \<mapsto> name),
          username_to_owner := (username_to_owner s)(name \<mapsto> c),
          identity_to_username := (identity_to_username s)(um_sign p \<mapsto> name)\<rparr>"
    using assms(1) unfolding pick_name_Done_iff by blast
  have "name \<notin> ran (identity_to_username s)" using assms(2) p(2) by (auto simp: um_inv_def)
  then have "\<forall>i. identity_to_username s i \<noteq> Some name" by (auto simp: ran_def)
  moreover have "\<forall>a. owner_to_username s a \<noteq> Some name"
    using assms(2) p(2) unfolding um_inv_def by (metis option.distinct(1))
  ultimately show ?thesis using assms(2) p unfolding s'
    by (auto simp: um_inv_def ran_upd_fresh)
qed

lemma give_up_name_inv:
  assumes "give_up_name c name s = Done s'" and "um_inv s"
  shows "um_inv s'"
proof -
  obtain p :: um_profile where p: "username_to_owner s name = Some c" "owner_to_username s c = Some name"
    "identity_to_username s (um_sign p) = Some name"
    and s': "s' = s\<lparr>username_to_owner := (username_to_owner s)(name := None),
          owner_to_username := (owner_to_username s)(c := None),
          identity_to_username := (identity_to_username s)(um_sign p := None)\<rparr>"
    using assms(1) unfolding give_up_name_Done_iff by blast
  have inv: "\<forall>n a. username_to_owner s n = Some a \<longleftrightarrow> owner_to_username s a = Some n"
    "\<forall>i j n. identity_to_username s i = Some n \<and> identity_to_username s j = Some n \<longrightarrow> i = j"
    "ran (identity_to_username s) = dom (username_to_owner s)"
    using assms(2) by (auto simp: um_inv_def)
  have "ran ((identity_to_username s)(um_sign p := None)) = dom ((username_to_owner s)(name := None))"
    using ran_upd_None [OF p(3) inv(2)] inv(3) by simp
  moreover have "\<forall>n a. ((username_to_owner s)(name := None)) n = Some a \<longleftrightarrow>
      ((owner_to_username s)(c := None)) a = Some n"
  proof -
    have "\<forall>a. owner_to_username s a = Some name \<longrightarrow> a = c"
      using inv(1) p(1) by (metis option.inject)
    moreover have "\<forall>n. username_to_owner s n = Some c \<longrightarrow> n = name"
      using inv(1) p(2) by (metis option.inject)
    ultimately show ?thesis using inv(1) by auto
  qed
  moreover have "\<forall>i j n. ((identity_to_username s)(um_sign p := None)) i = Some n \<and>
      ((identity_to_username s)(um_sign p := None)) j = Some n \<longrightarrow> i = j"
    using inv(2) by auto
  ultimately show ?thesis unfolding s' um_inv_def by simp
qed

lemma register_inv: "register c data s = Done s' \<Longrightarrow> um_inv s \<Longrightarrow> um_inv s'"
  by (simp add: register_def um_inv_def) force

lemma um_step_inv: "um_step s s' \<Longrightarrow> um_inv s \<Longrightarrow> um_inv s'"
  by (induction rule: um_step.induct)
    (auto simp: register_with_name_def transfere_name_split run_simps
      dest: register_inv pick_name_inv give_up_name_inv)

lemma um_reach_inv: "um_reach s \<Longrightarrow> um_inv s"
proof (induction rule: um_reach.induct)
  case um_reach_new
  show ?case by (simp add: um_inv_def um_new_def)
qed (blast dest: um_step_inv)

subsection \<open>Properties\<close>

definition um_demo_profile :: um_profile where
  "um_demo_profile = \<lparr>um_sign = [1], um_enc = [2]\<rparr>"

definition um_demo :: "nat user_manager" where
  "um_demo = \<lparr>username_to_owner = [[65] \<mapsto> 7], owner_to_username = [7 \<mapsto> [65]],
     identity_to_username = [[1] \<mapsto> [65]], identities = [7 \<mapsto> um_demo_profile]\<rparr>"

lemma um_demo_reach: "um_reach um_demo"
proof (rule um_reach_step [OF um_reach_new])
  have "register_with_name 7 [65] um_demo_profile um_new = Done um_demo"
    by (simp add: register_with_name_def register_def pick_name_def Let_def run_assert_def run_expect_def
        um_new_def um_demo_def um_demo_profile_def)
  then show "um_step um_new um_demo" by (rule um_register_with_name)
qed

text \<open>C38: In every reachable state of the name contract, an account owns at most one name and a
  name has at most one owner, both mappings agree on it, and every owned name is the name of
  exactly one identity key, and no other name is.\<close>
theorem user_names_bijective:
  assumes "um_reach s"
  shows "(username_to_owner s n = Some a \<longleftrightarrow> owner_to_username s a = Some n) \<and>
    (if username_to_owner s n = None then \<forall>i. get_username s i \<noteq> Some n
     else \<exists>!i. get_username s i = Some n)"
proof -
  have inv: "um_inv s" by (rule um_reach_inv [OF assms])
  then have r: "n \<in> ran (identity_to_username s) \<longleftrightarrow> username_to_owner s n \<noteq> None"
    by (auto simp: um_inv_def)
  show ?thesis
  proof (cases "username_to_owner s n")
    case None
    then have "\<forall>i. identity_to_username s i \<noteq> Some n" using r by (auto simp: ran_def)
    moreover have "owner_to_username s a \<noteq> Some n"
      using inv None unfolding um_inv_def by (metis option.distinct(1))
    ultimately show ?thesis using None by (auto simp: get_username_def)
  next
    case (Some x)
    then obtain i where "identity_to_username s i = Some n" using r by (auto simp: ran_def)
    then have "\<exists>!i. identity_to_username s i = Some n" using inv unfolding um_inv_def by blast
    moreover have "username_to_owner s n = Some a \<longleftrightarrow> owner_to_username s a = Some n"
      using inv by (simp add: um_inv_def)
    ultimately show ?thesis using Some by (simp add: get_username_def)
  qed
qed

theorem user_names_bijective_witness:
  "(username_to_owner um_demo [65] = Some 7 \<longleftrightarrow> owner_to_username um_demo 7 = Some [65]) \<and>
    (if username_to_owner um_demo [65] = None then \<forall>i. get_username um_demo i \<noteq> Some [65]
     else \<exists>!i. get_username um_demo i = Some [65])"
  by (rule user_names_bijective [OF um_demo_reach])

text \<open>A successful transfer leaves the name with the target only: the name leads to the
  target's profile, the target's key to the name, the former owner has no name, and every other
  name keeps its owner.\<close>
theorem transfere_name_effect:
  assumes "transfere_name c name target s = Done s'"
  shows "username_to_owner s' = (username_to_owner s)(name \<mapsto> target) \<and>
    (c \<noteq> target \<longrightarrow> owner_to_username s' c = None) \<and> owner_to_username s' target = Some name \<and>
    (\<exists>p. get_profile s target = Some p \<and> get_profile_by_name s' name = Some p \<and>
       get_username s' (um_sign p) = Some name)"
  using assms
  by (auto simp: transfere_name_split run_simps pick_name_Done_iff give_up_name_Done_iff
      get_profile_def get_profile_by_name_def get_username_def)

theorem transfere_name_effect_witness:
  "\<exists>s'. run_bind (register 8 \<lparr>um_sign = [9], um_enc = [2]\<rparr> um_demo) (transfere_name 7 [65] 8) = Done s' \<and>
    username_to_owner s' = (username_to_owner um_demo)([65] \<mapsto> 8) \<and> owner_to_username s' 7 = None"
proof -
  let ?s = "um_demo\<lparr>identities := (identities um_demo)(8 \<mapsto> \<lparr>um_sign = [9], um_enc = [2]\<rparr>)\<rparr>"
  obtain s' where s': "transfere_name 7 [65] 8 ?s = Done s'"
    by (simp add: transfere_name_def give_up_name_def Let_def run_assert_def run_expect_def
        um_demo_def um_demo_profile_def)
  from transfere_name_effect [OF this] this show ?thesis by (simp add: register_def)
qed

text \<open>An owner who registers a new signing key can no longer give the name up or transfer
  it, whatever the target, since the name is still filed under the old key; registering the old
  key again makes it possible.\<close>
theorem reregister_locks_name:
  assumes "um_reach s" and "username_to_owner s name = Some c" and "identities s c = Some p"
    and "get_username s (um_sign p) = Some name" and "um_sign data \<noteq> um_sign p"
  shows "run_bind (register c data s) (give_up_name c name) = Panic \<and>
    run_bind (register c data s) (transfere_name c name target) = Panic \<and>
    run_bind (run_bind (register c data s) (register c p)) (give_up_name c name) \<noteq> Panic"
proof -
  have o: "owner_to_username s c = Some name" using um_reach_inv [OF assms(1)] assms(2) by (auto simp: um_inv_def)
  have no: "identity_to_username s (um_sign data) \<noteq> Some name"
    using um_reach_inv [OF assms(1)] assms(4,5) by (auto simp: um_inv_def get_username_def)
  have "run_bind (register c data s) (give_up_name c name) = Panic"
    using assms(2) o no by (simp add: register_def give_up_name_def Let_def run_assert_def run_expect_def)
  moreover from this have "run_bind (register c data s) (transfere_name c name target) = Panic"
    by (simp add: register_def transfere_name_def)
  moreover have "run_bind (run_bind (register c data s) (register c p)) (give_up_name c name) \<noteq> Panic"
    using assms(2-4) o
    by (simp add: register_def give_up_name_def Let_def run_assert_def run_expect_def get_username_def)
  ultimately show ?thesis by blast
qed

theorem reregister_locks_name_witness:
  "run_bind (register 7 \<lparr>um_sign = [9], um_enc = [2]\<rparr> um_demo) (give_up_name 7 [65]) = Panic"
  using reregister_locks_name [OF um_demo_reach, of "[65]" 7 um_demo_profile "\<lparr>um_sign = [9], um_enc = [2]\<rparr>" 7]
  by (simp add: um_demo_def um_demo_profile_def get_username_def)

end
