(* ===== verification/Linear_Map.thy ===== *)
theory Linear_Map
  imports Prelude
begin

section \<open>The linear map (\<open>component-utils/src/stream.rs\<close>)\<close>

text \<open>
  \<open>LinearMap\<close>, a vector of key and value pairs that the streams use for their subscriptions and
  the rpc behaviour for its connections. Its operations keep the keys distinct and provide the
  interface \<open>id_map\<close>.
\<close>

type_synonym ('k, 'v) linear_map = "('k \<times> 'v) list"

definition lm_key_position :: "('k, 'v) linear_map \<Rightarrow> 'k \<Rightarrow> nat option" where
  "lm_key_position m key = position (\<lambda>kv. fst kv = key) m"

text \<open>\<open>insert\<close> replaces the value of the first pair with the key, or appends a pair.\<close>

definition lm_insert :: "('k, 'v) linear_map \<Rightarrow> 'k \<Rightarrow> 'v \<Rightarrow> 'v option \<times> ('k, 'v) linear_map" where
  "lm_insert m key value =
     (case lm_key_position m key of
        Some i \<Rightarrow> (Some (snd (m ! i)), m[i := (fst (m ! i), value)])
      | None \<Rightarrow> (None, m @ [(key, value)]))"

definition lm_remove :: "('k, 'v) linear_map \<Rightarrow> 'k \<Rightarrow> 'v option \<times> ('k, 'v) linear_map" where
  "lm_remove m key =
     (case lm_key_position m key of
        Some i \<Rightarrow> (Some (snd (m ! i)), swap_remove i m)
      | None \<Rightarrow> (None, m))"

definition lm_get :: "('k, 'v) linear_map \<Rightarrow> 'k \<Rightarrow> 'v option" where
  "lm_get m key = map_option snd (List.find (\<lambda>kv. fst kv = key) m)"

definition lm_contains_key :: "('k, 'v) linear_map \<Rightarrow> 'k \<Rightarrow> bool" where
  "lm_contains_key m key = list_ex (\<lambda>kv. fst kv = key) m"

text \<open>\<open>entry\<close> returns a mutable reference; the model returns its index in the new vector.\<close>

definition lm_entry :: "'v \<Rightarrow> ('k, 'v) linear_map \<Rightarrow> 'k \<Rightarrow> nat \<times> ('k, 'v) linear_map" where
  "lm_entry dflt m key =
     (case lm_key_position m key of
        Some i \<Rightarrow> (i, m)
      | None \<Rightarrow> (length m, m @ [(key, dflt)]))"

definition lm_ok :: "('k, 'v) linear_map \<Rightarrow> bool" where
  "lm_ok m \<longleftrightarrow> distinct (map fst m)"

lemma lm_get_map_of: "lm_get m = map_of m"
proof
  fix k
  show "lm_get m k = map_of m k" by (induction m) (auto simp: lm_get_def)
qed

lemma lm_position_Some:
  "lm_key_position m key = Some i \<Longrightarrow> i < length m \<and> fst (m ! i) = key"
  by (auto simp: lm_key_position_def position_Some_iff)

lemma lm_position_None: "lm_key_position m key = None \<longleftrightarrow> key \<notin> fst ` set m"
  by (auto simp: lm_key_position_def position_None_iff)

lemma lm_split:
  assumes "lm_key_position m key = Some i"
  obtains xs v ys where "m = xs @ (key, v) # ys" and "length xs = i"
  using lm_position_Some [OF assms] that [of "take i m" "snd (m ! i)" "drop (Suc i) m"]
  by (metis id_take_nth_drop length_take min.absorb4 prod.collapse)

lemma lm_insert_laws:
  assumes "lm_ok m"
  shows "lm_ok (snd (lm_insert m key v)) \<and> map_of (snd (lm_insert m key v)) = (map_of m)(key \<mapsto> v) \<and>
    fst (lm_insert m key v) = map_of m key"
proof (cases "lm_key_position m key")
  case None
  then have "key \<notin> fst ` set m" by (simp add: lm_position_None)
  moreover from this have "map_of m key = None" by (simp add: map_of_eq_None_iff)
  ultimately show ?thesis using None assms
    by (auto simp: lm_insert_def lm_ok_def fun_eq_iff map_add_def split: option.splits)
next
  case (Some i)
  then obtain xs w ys where m: "m = xs @ (key, w) # ys" "length xs = i" by (rule lm_split)
  have ins: "lm_insert m key v = (Some w, xs @ (key, v) # ys)" using Some m
    by (auto simp: lm_insert_def nth_append list_update_append)
  have "key \<notin> fst ` set xs" using assms m(1) by (auto simp: lm_ok_def)
  then have "map_of xs key = None" by (simp add: map_of_eq_None_iff)
  then show ?thesis using assms unfolding ins unfolding m(1) lm_ok_def
    by (auto simp: fun_eq_iff map_add_def split: option.splits)
qed

lemma map_of_swap_remove:
  assumes "distinct (map fst m)" and "i < length m"
  shows "distinct (map fst (swap_remove i m)) \<and> map_of (swap_remove i m) = (map_of m)(fst (m ! i) := None)"
proof -
  have dm: "distinct m" using assms(1) by (simp add: distinct_map)
  note sr = distinct_swap_remove [OF dm assms(2)]
  have inj: "inj_on fst (set m)" using assms(1) by (simp add: distinct_map)
  have d: "distinct (map fst (swap_remove i m))"
    using sr inj_on_subset [OF inj] by (simp add: distinct_map)
  have "map_of (swap_remove i m) k = ((map_of m)(fst (m ! i) := None)) k" for k
  proof (cases "k = fst (m ! i)")
    case True
    have "k \<notin> fst ` set (swap_remove i m)"
      using inj_on_image_set_diff [OF inj, of "set m" "{m ! i}"] sr(2) assms(2) True by simp
    then show ?thesis using True by (simp add: map_of_eq_None_iff)
  next
    case False
    then have "(k, v) \<noteq> m ! i" for v by (metis fst_conv)
    then have mem: "(k, v) \<in> set (swap_remove i m) \<longleftrightarrow> (k, v) \<in> set m" for v unfolding sr(2) by blast
    have "map_of (swap_remove i m) k = Some v \<longleftrightarrow> map_of m k = Some v" for v
      unfolding map_of_eq_Some_iff [OF d] map_of_eq_Some_iff [OF assms(1)] by (rule mem)
    then have "map_of (swap_remove i m) k = map_of m k"
      by (metis option.exhaust)
    then show ?thesis using False by simp
  qed
  with d show ?thesis by blast
qed

lemma lm_remove_laws:
  assumes "lm_ok m"
  shows "lm_ok (snd (lm_remove m key)) \<and> map_of (snd (lm_remove m key)) = (map_of m)(key := None) \<and>
    fst (lm_remove m key) = map_of m key"
proof (cases "lm_key_position m key")
  case None
  then have "map_of m key = None" by (simp add: lm_position_None map_of_eq_None_iff)
  then show ?thesis using None assms by (simp add: lm_remove_def fun_upd_idem)
next
  case (Some i)
  have i: "i < length m" "fst (m ! i) = key" using lm_position_Some [OF Some] by auto
  have "(key, snd (m ! i)) \<in> set m" using i by (metis nth_mem prod.collapse)
  then have "map_of m key = Some (snd (m ! i))" using assms by (simp add: lm_ok_def)
  then show ?thesis using Some assms map_of_swap_remove [of m i] i by (simp add: lm_remove_def lm_ok_def)
qed

interpretation lm: id_map "\<lambda>m k v. snd (lm_insert m k v)" "\<lambda>m k. snd (lm_remove m k)" lm_get lm_ok
  by unfold_locales (simp_all add: lm_get_map_of lm_insert_laws lm_remove_laws)

end
