(* ===== verification/Server_Context.thy ===== *)
theory Server_Context
  imports Chat_Spec Linear_Map
begin

section \<open>The context of the server's handlers (\<open>nodes/server/src/main.rs\<close>)\<close>

text \<open>
  The origin of a request, the client streams with their subscriptions, the notifications and
  events pushed to them, and the request dispatch bookkeeping of \<open>handlers.rs\<close>
  (\<open>HandlerNest\<close>). Path ids, peer ids and call ids are type parameters. Whether the encrypted
  stream of a client takes another packet is the argument \<open>accepts\<close>.
\<close>

datatype ('path, 'peer) request_origin = Client 'path | Server 'peer

record ('path, 'call) client_stream =
  sm_id :: 'path
  subscriptions :: "(possible_topic, 'call) linear_map"
  sm_out :: "('call \<times> bytes) list"

text \<open>\<open>InnerStream::write\<close>: the packet is queued, or the stream refuses it and nothing changes.\<close>

definition stream_write ::
  "(('path, 'call) client_stream \<Rightarrow> bool) \<Rightarrow> 'call \<times> bytes \<Rightarrow> ('path, 'call) client_stream \<Rightarrow>
   bool \<times> ('path, 'call) client_stream" where
  "stream_write accepts packet s =
     (if accepts s then (True, s\<lparr>sm_out := sm_out s @ [packet]\<rparr>) else (False, s))"

definition subscribe ::
  "possible_topic \<Rightarrow> 'call \<Rightarrow> 'path \<Rightarrow> ('path, 'call) client_stream list \<Rightarrow> ('path, 'call) client_stream list" where
  "subscribe topic call origin streams =
     (case position (\<lambda>s. sm_id s = origin) streams of
        None \<Rightarrow> streams
      | Some i \<Rightarrow> streams[i := (streams ! i)\<lparr>subscriptions := snd (lm_insert (subscriptions (streams ! i)) topic call)\<rparr>])"

definition push_notification ::
  "(('path, 'call) client_stream \<Rightarrow> bool) \<Rightarrow> ('path, 'call) client_stream list \<Rightarrow> identity \<Rightarrow> bytes \<Rightarrow> 'path \<Rightarrow>
   bool \<times> ('path, 'call) client_stream list" where
  "push_notification accepts streams topic event recip =
     (case position (\<lambda>s. sm_id s = recip) streams of
        None \<Rightarrow> (False, streams)
      | Some i \<Rightarrow>
          (case lm_get (subscriptions (streams ! i)) (TProfile topic) of
             None \<Rightarrow> (False, streams)
           | Some call \<Rightarrow>
               (case stream_write accepts (call, event) (streams ! i) of
                  (ok, s') \<Rightarrow> (ok, streams[i := s']))))"

definition push_event ::
  "(('path, 'call) client_stream \<Rightarrow> bool) \<Rightarrow> possible_topic \<Rightarrow> bytes \<Rightarrow> ('path, 'call) client_stream list \<Rightarrow>
   ('path, 'call) client_stream list" where
  "push_event accepts topic event streams =
     map (\<lambda>s. case lm_get (subscriptions s) topic of
           None \<Rightarrow> s
         | Some call \<Rightarrow> snd (stream_write accepts (call, event) s)) streams"

text \<open>The handler of \<open>Subscribe\<close>: only clients subscribe, the answer is always \<open>Ok\<close>.\<close>

definition handle_subscribe ::
  "('path, 'peer) request_origin \<Rightarrow> 'call \<Rightarrow> possible_topic \<Rightarrow> ('path, 'call) client_stream list \<Rightarrow>
   ('path, 'call) client_stream list" where
  "handle_subscribe origin call topic streams =
     (case origin of Client path \<Rightarrow> subscribe topic call path streams | Server _ \<Rightarrow> streams)"

subsection \<open>Pending handlers\<close>

text \<open>
  \<open>HandlerNest\<close>: the handlers that wait for an event. A handler's \<open>execute\<close> and \<open>resume\<close>
  return \<open>Inr\<close> of a response or \<open>Inl\<close> of the handler that goes on waiting, with the new
  context \<open>'cx\<close>; a response is given as encoded bytes.
\<close>

record ('path, 'peer, 'call, 'h) handler_instance =
  hi_prefix :: u8
  hi_id :: 'call
  hi_origin :: "('path, 'peer) request_origin"
  hi_handler :: 'h

datatype handler_exec_error = DecodeRequest | UnknownPrefix

record ('path, 'peer, 'call) handler_request =
  hr_prefix :: u8
  hr_id :: 'call
  hr_origin :: "('path, 'peer) request_origin"
  hr_body :: bytes

definition nest_execute ::
  "(bytes \<Rightarrow> 'req option) \<Rightarrow>
   ('cx \<Rightarrow> ('path, 'peer) request_origin \<Rightarrow> 'call \<Rightarrow> u8 \<Rightarrow> 'req \<Rightarrow> (('h + bytes) \<times> 'cx) run) \<Rightarrow>
   'cx \<Rightarrow> ('path, 'peer, 'call) handler_request \<Rightarrow> ('path, 'peer, 'call, 'h) handler_instance list \<Rightarrow>
   (handler_exec_error + (bytes option \<times> 'cx \<times> ('path, 'peer, 'call, 'h) handler_instance list)) run" where
  "nest_execute decode exec cx req hs =
     (case decode (hr_body req) of
        None \<Rightarrow> Done (Inl DecodeRequest)
      | Some r \<Rightarrow>
          run_bind (exec cx (hr_origin req) (hr_id req) (hr_prefix req) r) (\<lambda>(res, cx').
            case res of
              Inr resp \<Rightarrow> Done (Inr (Some resp, cx', hs))
            | Inl con \<Rightarrow> Done (Inr (None, cx', hs @ [\<lparr>hi_prefix = hr_prefix req, hi_id = hr_id req,
                hi_origin = hr_origin req, hi_handler = con\<rparr>]))))"

text \<open>\<open>find_map\<close> over the handlers: each is resumed until one completes.\<close>

fun resume_first ::
  "('cx \<Rightarrow> ('path, 'peer) request_origin \<Rightarrow> 'call \<Rightarrow> u8 \<Rightarrow> 'h \<Rightarrow> 'ev \<Rightarrow> (('h + bytes) \<times> 'cx) run) \<Rightarrow> 'ev \<Rightarrow> 'cx \<Rightarrow>
   ('path, 'peer, 'call, 'h) handler_instance list \<Rightarrow>
   ((nat \<times> bytes) option \<times> 'cx \<times> ('path, 'peer, 'call, 'h) handler_instance list) run" where
  "resume_first resume ev cx [] = Done (None, cx, [])"
| "resume_first resume ev cx (h # hs) =
     run_bind (resume cx (hi_origin h) (hi_id h) (hi_prefix h) (hi_handler h) ev) (\<lambda>(res, cx').
       case res of
         Inr resp \<Rightarrow> Done (Some (0, resp), cx', h # hs)
       | Inl handler' \<Rightarrow>
           run_bind (resume_first resume ev cx' hs) (\<lambda>(r, cx'', hs').
             Done (map_option (\<lambda>(i, b). (Suc i, b)) r, cx'', h\<lparr>hi_handler := handler'\<rparr> # hs')))"

definition nest_try_complete ::
  "('cx \<Rightarrow> ('path, 'peer) request_origin \<Rightarrow> 'call \<Rightarrow> u8 \<Rightarrow> 'h \<Rightarrow> 'ev \<Rightarrow> (('h + bytes) \<times> 'cx) run) \<Rightarrow> 'ev \<Rightarrow> 'cx \<Rightarrow>
   ('path, 'peer, 'call, 'h) handler_instance list \<Rightarrow>
   ((('path, 'peer) request_origin \<times> 'call \<times> bytes) option \<times> 'cx \<times> ('path, 'peer, 'call, 'h) handler_instance list) run" where
  "nest_try_complete resume ev cx hs =
     run_bind (resume_first resume ev cx hs) (\<lambda>(r, cx', hs').
       case r of
         None \<Rightarrow> Done (None, cx', hs')
       | Some (i, resp) \<Rightarrow> Done (Some (hi_origin (hs' ! i), hi_id (hs' ! i), resp), cx', swap_remove i hs'))"

text \<open>What a pending handler will answer: the origin and the call of its request.\<close>

definition pending_of :: "('path, 'peer, 'call, 'h) handler_instance list \<Rightarrow> (('path, 'peer) request_origin \<times> 'call) multiset" where
  "pending_of hs = mset (map (\<lambda>h. (hi_origin h, hi_id h)) hs)"

lemma nest_execute_pending:
  assumes "nest_execute decode exec cx req hs = Done (Inr (resp, cx', hs'))"
  shows "pending_of hs' + (if resp = None then {#} else {#(hr_origin req, hr_id req)#}) = add_mset (hr_origin req, hr_id req) (pending_of hs)"
proof -
  obtain r res cx1 where r: "decode (hr_body req) = Some r"
    and res: "exec cx (hr_origin req) (hr_id req) (hr_prefix req) r = Done (res, cx1)"
    using assms by (auto simp: nest_execute_def run_simps split: option.splits)
  show ?thesis using assms r res by (cases res) (auto simp: nest_execute_def pending_of_def)
qed

lemma resume_first_pending:
  "resume_first resume ev cx hs = Done (r, cx', hs') \<Longrightarrow>
   map (\<lambda>h. (hi_origin h, hi_id h)) hs' = map (\<lambda>h. (hi_origin h, hi_id h)) hs \<and> (\<forall>i b. r = Some (i, b) \<longrightarrow> i < length hs')"
proof (induction hs arbitrary: cx r hs')
  case (Cons h hs)
  from Cons.prems obtain res cx1 where res: "resume cx (hi_origin h) (hi_id h) (hi_prefix h) (hi_handler h) ev = Done (res, cx1)"
    by (auto simp: run_simps)
  show ?case
  proof (cases res)
    case (Inl handler')
    then obtain r1 hs1 where "resume_first resume ev cx1 hs = Done (r1, cx', hs1)"
      "r = map_option (\<lambda>(i, b). (Suc i, b)) r1" "hs' = h\<lparr>hi_handler := handler'\<rparr> # hs1"
      using Cons.prems res by (auto simp: run_simps)
    then show ?thesis using Cons.IH by fastforce
  next
    case (Inr resp)
    then show ?thesis using Cons.prems res by auto
  qed
qed simp

lemma nest_try_complete_pending:
  assumes "nest_try_complete resume ev cx hs = Done (r, cx', hs')"
  shows "pending_of hs' + (case r of None \<Rightarrow> {#} | Some (origin, call, _) \<Rightarrow> {#(origin, call)#}) = pending_of hs"
proof -
  obtain q hs1 where q: "resume_first resume ev cx hs = Done (q, cx', hs1)"
    and r: "r = map_option (\<lambda>(i, b). (hi_origin (hs1 ! i), hi_id (hs1 ! i), b)) q"
    and hs': "hs' = (case q of None \<Rightarrow> hs1 | Some (i, _) \<Rightarrow> swap_remove i hs1)"
  proof -
    obtain q cx1 hs1 where "resume_first resume ev cx hs = Done (q, cx1, hs1)"
      using assms by (auto simp: nest_try_complete_def run_simps)
    then show thesis using assms by (intro that [of q hs1]) (auto simp: nest_try_complete_def split: option.splits)
  qed
  note p = resume_first_pending [OF q]
  have same: "pending_of hs1 = pending_of hs" unfolding pending_of_def using p by metis
  show ?thesis
  proof (cases q)
    case None
    then show ?thesis using r hs' same by simp
  next
    case (Some x)
    obtain i b where x: "x = (i, b)" by force
    then have i: "i < length hs1" using p Some by blast
    have "pending_of hs1 = add_mset (hi_origin (hs1 ! i), hi_id (hs1 ! i)) (pending_of (swap_remove i hs1))"
      unfolding pending_of_def mset_map mset_swap_remove [OF i]
      using nth_mem_mset [OF i] by (metis (no_types, lifting) image_mset_add_mset insert_DiffM)
    then show ?thesis using r hs' same Some x by simp
  qed
qed

end
