(* ===== verification/Chat_Server.thy ===== *)
theory Chat_Server
  imports Server_Context "HOL-Library.List_Lexorder"
begin

section \<open>The chat handlers (\<open>nodes/server/src/handlers/chat.rs\<close>)\<close>

text \<open>
  A chat on a server: its members with their nonces, the block of messages being filled, the
  stage of the agreement on the previous block, and the finalized blocks; the handlers of the
  protocol on the map of all chats. \<open>chat_env\<close> holds what a handler gets from its context: the
  cryptographic primitives, whether the build checks overflows, the size of the stack buffer of
  a proposal, and the other replicators of a chat (\<open>other_replicators_for\<close> of theory \<open>Dht\<close>).
  Requests to other servers and events for subscribers are returned as a list of effects.
\<close>

definition MAX_MESSAGE_SIZE :: nat where
  "MAX_MESSAGE_SIZE = 1024"

definition MESSAGE_FETCH_LIMIT :: nat where
  "MESSAGE_FETCH_LIMIT = 20"

definition BLOCK_SIZE :: nat where
  "BLOCK_SIZE = 1024 * 32"

definition BLOCK_HISTORY :: nat where
  "BLOCK_HISTORY = 32"

text \<open>The default of a hash is 32 zero bytes.\<close>

definition hash_default :: bytes where
  "hash_default = replicate 32 0"

record 'peer chat_env =
  ce_lib :: crypto_lib
  ce_verify :: "bytes \<Rightarrow> bytes \<Rightarrow> bytes \<Rightarrow> bool"
  ce_checks :: bool
  ce_proposal_buf :: nat
  ce_replicators :: "chat_name \<Rightarrow> 'peer list"

record block =
  bl_hash :: bytes
  bl_data :: bytes

datatype block_stage =
    Unfinalized "block option" "bytes list"
  | Recovering bytes bool

definition block_stage_default :: block_stage where
  "block_stage_default = Unfinalized None (replicate REPLICATION_FACTOR hash_default)"

fun unfinalized_block :: "block_stage \<Rightarrow> bytes option" where
  "unfinalized_block (Unfinalized proposed _) = map_option bl_data proposed"
| "unfinalized_block (Recovering _ _) = None"

record member =
  action :: nonce

definition member_new :: member where
  "member_new = \<lparr>action = 0\<rparr>"

record chat =
  members :: "identity \<rightharpoonup> member"
  finalized :: "block list"
  current_block :: bytes
  block_number :: block_number
  stage :: block_stage
  restoring :: bool

definition chat_new :: "identity \<Rightarrow> bool \<Rightarrow> chat" where
  "chat_new i r = \<lparr>members = [i \<mapsto> member_new], finalized = [], current_block = [], block_number = 0,
     stage = block_stage_default, restoring = r\<rparr>"

subsection \<open>Operations of a chat\<close>

text \<open>
  \<open>hash_block\<close>: the hashes of the messages, sorted, folded with \<open>combine\<close>; a block without a
  message panics. The sorted hashes stay in the scratch vector, the second result.
\<close>

definition hash_block :: "crypto_lib \<Rightarrow> bytes \<Rightarrow> (bytes \<times> bytes list) run" where
  "hash_block L blk =
     (let hashes = sort (map (hash_from_slice L) (unpack_messages blk)) in
      case hashes of [] \<Rightarrow> Panic | h # hs \<Rightarrow> Done (foldl (hash_combine L) h hs, hashes))"

definition push_to_finalized :: "block \<Rightarrow> chat \<Rightarrow> chat" where
  "push_to_finalized b c =
     (let fin = (if length (finalized c) = BLOCK_HISTORY then butlast (finalized c) else finalized c) in
      c\<lparr>finalized := b # fin\<rparr>)"

definition finalize_current_block :: "bytes \<Rightarrow> chat \<Rightarrow> chat" where
  "finalize_current_block hash c =
     (let c1 = c\<lparr>stage := block_stage_default\<rparr>;
          c2 = push_to_finalized \<lparr>bl_hash = hash, bl_data = current_block c1\<rparr> c1 in
      c2\<lparr>current_block := [], block_number := block_number c2 + 1\<rparr>)"

definition stage_pending :: "block_stage \<Rightarrow> bool" where
  "stage_pending s = (case s of Unfinalized (Some _) _ \<Rightarrow> True | Unfinalized None _ \<Rightarrow> False | Recovering _ _ \<Rightarrow> True)"

definition last_finalized_block :: "bool \<Rightarrow> chat \<Rightarrow> block_number run" where
  "last_finalized_block checks c =
     (if stage_pending (stage c)
      then if checks \<and> block_number c = 0 then Panic else Done (block_number c - 1)
      else Done (block_number c))"

text \<open>The vector was allocated with the capacity \<open>BLOCK_SIZE\<close>, which no operation changes.\<close>

definition try_push :: "bytes \<Rightarrow> message \<Rightarrow> bool \<times> bytes" where
  "try_push blk m =
     (case encode_message no_cap_overflow_ops m \<lparr>cv_data = blk, cv_capacity = BLOCK_SIZE\<rparr> of
        (False, b) \<Rightarrow> (False, cv_data b)
      | (True, b) \<Rightarrow>
          (case extend_from_slice no_cap_overflow_ops (encode_len (length (cv_data b) - length blk)) b of
             (ok, b') \<Rightarrow> (ok, cv_data b')))"

text \<open>\<open>count\<close> of the replicators that voted for a hash.\<close>

definition votes_for :: "bytes \<Rightarrow> bytes list \<Rightarrow> nat" where
  "votes_for h others = length (filter (\<lambda>x. x = h) others)"

text \<open>
  \<open>push_message\<close>: \<open>Inr ()\<close> is \<open>Ok\<close>, \<open>Inl (Some hash)\<close> announces that the block was closed and
  the message started a new one, \<open>Inl None\<close> that it was not stored. The new scratch vector of
  hashes is the last result.
\<close>

definition push_message :: "crypto_lib \<Rightarrow> message \<Rightarrow> chat \<Rightarrow> bytes list \<Rightarrow>
    ((bytes option + unit) \<times> chat \<times> bytes list) run" where
  "push_message L m c ht =
     (case try_push (current_block c) m of
        (True, b) \<Rightarrow> Done (Inr (), c\<lparr>current_block := b\<rparr>, ht)
      | (False, b) \<Rightarrow>
          let c1 = c\<lparr>current_block := take (length (current_block c)) b\<rparr>;
              retry = (\<lambda>(hash, c2, ht').
                case try_push (current_block c2) m of
                  (True, b') \<Rightarrow> Done (Inl (Some hash), c2\<lparr>current_block := b'\<rparr>, ht')
                | (False, _) \<Rightarrow> Panic) in
          (case stage c1 of
             Unfinalized (Some _) _ \<Rightarrow> Done (Inl None, c1, ht)
           | Unfinalized None others \<Rightarrow>
               run_bind (hash_block L (current_block c1)) (\<lambda>(hash, ht').
                 if REPLICATION_FACTOR div 2 \<le> votes_for hash others
                 then retry (hash, finalize_current_block hash c1, ht')
                 else retry (hash, c1\<lparr>stage := Unfinalized (Some \<lparr>bl_hash = hash, bl_data = current_block c1\<rparr>) others,
                        current_block := [], block_number := block_number c1 + 1\<rparr>, ht'))
           | Recovering final_hash we_finalized \<Rightarrow>
               if we_finalized then Done (Inl None, c1, ht)
               else run_bind (hash_block L (current_block c1)) (\<lambda>(hash, ht').
                 let c2 = c1\<lparr>stage := Recovering final_hash True\<rparr> in
                 if hash = final_hash
                 then retry (hash, finalize_current_block hash c2, ht')
                 else retry (hash, c2\<lparr>current_block := []\<rparr>, ht'))))"

subsection \<open>The server's chats and the effects of a handler\<close>

record chat_store =
  chats :: "chat_name \<rightharpoonup> chat"
  hashes :: "bytes list"

datatype 'peer effect =
    RpcRequest 'peer bytes
  | PushChatEvent chat_name "chat_name signed_proof" bytes

type_synonym ('peer, 'e, 'a) handled = "(chat_store \<times> 'peer effect list \<times> ('e + 'a)) run"

definition put_chat :: "chat_name \<Rightarrow> chat \<Rightarrow> chat_store \<Rightarrow> chat_store" where
  "put_chat name c s = s\<lparr>chats := (chats s)(name \<mapsto> c)\<rparr>"

definition create_chat :: "chat_name \<Rightarrow> identity \<Rightarrow> chat_store \<Rightarrow> ('peer, create_chat_error, unit) handled" where
  "create_chat name i s =
     (case chats s name of
        Some _ \<Rightarrow> Done (s, [], Inl ChatAlreadyExists)
      | None \<Rightarrow> Done (put_chat name (chat_new i False) s, [], Inr ()))"

text \<open>
  A proposal: prefix, name, number and hash encoded into a zeroed array of fixed size, sent
  whole to every other replicator. The prefix is the index of the protocol in its list.
\<close>

definition PROPOSE_PREFIX :: u8 where
  "PROPOSE_PREFIX = 4"

definition SEND_BLOCK_PREFIX :: u8 where
  "SEND_BLOCK_PREFIX = 5"

definition encode_proposal :: "'b buffer_ops \<Rightarrow> chat_name \<Rightarrow> block_number \<Rightarrow> bytes \<Rightarrow> 'b \<Rightarrow> bool \<times> 'b" where
  "encode_proposal ops name number hash =
     seq_enc (encode_u8 ops PROPOSE_PREFIX) (seq_enc (encode_str ops name)
       (seq_enc (encode_int ops number) (encode_array encode_u8 ops hash)))"

definition send_block_proposals ::
  "'peer chat_env \<Rightarrow> chat_name \<Rightarrow> block_number \<Rightarrow> bytes \<Rightarrow> 'peer effect list run" where
  "send_block_proposals env name number hash =
     (case encode_proposal slice_ops name number hash
        \<lparr>sl_written = [], sl_free = replicate (ce_proposal_buf env) 0\<rparr> of
        (False, _) \<Rightarrow> Panic
      | (True, b) \<Rightarrow> Done (map (\<lambda>r. RpcRequest r (sl_written b @ sl_free b)) (ce_replicators env name)))"

definition encode_send_block :: "chat_name \<Rightarrow> block_number \<Rightarrow> bytes \<Rightarrow> bytes" where
  "encode_send_block name number data =
     snd (seq_enc (encode_u8 vec_ops SEND_BLOCK_PREFIX) (seq_enc (encode_str vec_ops name)
       (seq_enc (encode_int vec_ops number) (encode_reminder vec_ops data))) [])"

definition perform_chat_action :: "'peer chat_env \<Rightarrow> chat_name signed_proof \<Rightarrow> chat_action \<Rightarrow> chat_store \<Rightarrow>
    ('peer, chat_action_error, unit) handled" where
  "perform_chat_action env p act s =
     (if \<not> proof_verify (ce_verify env) (slice_context (ce_lib env)) p then Done (s, [], Inl CAInvalidProof)
      else case chats s (pf_context p) of
        None \<Rightarrow> Done (s, [], Inl CAChatNotFound)
      | Some c \<Rightarrow>
          let sender_id = hash_from_raw (ce_lib env) (pf_pk p) in
          (case members c sender_id of
             None \<Rightarrow> Done (s, [], Inl NotMember)
           | Some sender \<Rightarrow>
               (case advance_nonce (action sender) (pf_nonce p) of
                  (False, cur) \<Rightarrow> Done (s, [], Inl (CAInvalidAction cur))
                | (True, cur) \<Rightarrow>
                    let c1 = c\<lparr>members := (members c)(sender_id \<mapsto> sender\<lparr>action := cur\<rparr>)\<rparr>;
                        s1 = put_chat (pf_context p) c1 s in
                    (case act of
                       AddUser i \<Rightarrow>
                         if members c1 i \<noteq> None then Done (s1, [], Inl AlreadyMember)
                         else Done (put_chat (pf_context p)
                           (c1\<lparr>members := (members c1)(i \<mapsto> member_new)\<rparr>) s1, [], Inr ())
                     | SendMessage msg \<Rightarrow>
                         if MAX_MESSAGE_SIZE < length msg then Done (s1, [], Inl MessageTooLarge)
                         else
                           let bn = block_number c1;
                               m = \<lparr>identiy = sender_id, msg_nonce = cur - 1, msg_content = msg\<rparr> in
                           run_bind (push_message (ce_lib env) m c1 (hashes s1)) (\<lambda>(r, c2, ht).
                             let s2 = (put_chat (pf_context p) c2 s1)\<lparr>hashes := ht\<rparr>;
                                 event = PushChatEvent (pf_context p) p msg in
                             case r of
                               Inl None \<Rightarrow> Done (s2, [], Inl MessageBlockNotFinalized)
                             | Inl (Some hash) \<Rightarrow>
                                 run_bind (send_block_proposals env (pf_context p) bn hash) (\<lambda>reqs.
                                   Done (s2, reqs @ [event], Inr ()))
                             | Inr _ \<Rightarrow> Done (s2, [event], Inr ()))))))"

definition set_other :: "nat \<Rightarrow> bytes \<Rightarrow> bytes list \<Rightarrow> bytes list run" where
  "set_other i h others = (if i < length others then Done (others[i := h]) else Panic)"

text \<open>The part of \<open>ProposeMsgBlock\<close> that counts the votes on an unfinalized block.\<close>

definition count_proposal :: "nat \<Rightarrow> bytes \<Rightarrow> block option \<Rightarrow> bytes list \<Rightarrow> chat \<Rightarrow> chat run" where
  "count_proposal index phash proposed others c =
     (let we_finalized = (proposed \<noteq> None);
          we_match = (map_option bl_hash proposed = Some phash) in
      run_bind (set_other index phash others) (\<lambda>others'.
        if REPLICATION_FACTOR div 2 - (if we_match then 1 else 0) < votes_for phash others'
        then (case proposed of
            Some b \<Rightarrow> if bl_hash b = phash then Done ((push_to_finalized b c)\<lparr>stage := block_stage_default\<rparr>)
                     else Done (c\<lparr>stage := Recovering phash we_finalized\<rparr>)
          | None \<Rightarrow> Done (c\<lparr>stage := Recovering phash we_finalized\<rparr>))
        else if hash_default \<notin> set others' \<and> we_finalized then Panic
        else Done (c\<lparr>stage := Unfinalized proposed others'\<rparr>)))"

definition propose_msg_block :: "'peer chat_env \<Rightarrow> ('path, 'peer) request_origin \<Rightarrow> chat_name \<Rightarrow> block_number \<Rightarrow>
    bytes \<Rightarrow> chat_store \<Rightarrow> ('peer, propose_msg_block_error, unit) handled" where
  "propose_msg_block env origin name number phash s =
     (case origin of
        Client _ \<Rightarrow> Done (s, [], Inl NotServer)
      | Server peer \<Rightarrow>
          (case position (\<lambda>r. r = peer) (ce_replicators env name) of
             None \<Rightarrow> Done (s, [], Inl PMNoReplicator)
           | Some index \<Rightarrow>
               (case chats s name of
                  None \<Rightarrow> Done (s, [], Inl PMChatNotFound)
                | Some c \<Rightarrow>
                    run_bind (last_finalized_block (ce_checks env) c) (\<lambda>ours.
                      if number < ours then
                        if ours - number \<le> 1 then
                          (case finalized c of
                             [] \<Rightarrow> Done (s, [], Inl NoBlocks)
                           | b # _ \<Rightarrow>
                               if bl_hash b = phash then Done (s, [], Inr ())
                               else Done (s, [RpcRequest peer (encode_send_block name number (bl_data b))], Inr ()))
                        else Panic
                      else if ours < number \<and> \<not> number - ours \<le> 1 then Panic
                      else (case stage c of
                          Recovering _ _ \<Rightarrow> Done (s, [], Inr ())
                        | Unfinalized proposed others \<Rightarrow>
                            run_bind (count_proposal index phash proposed others c) (\<lambda>c'.
                              Done (put_chat name c' s, [], Inr ())))))))"

definition send_block :: "'peer chat_env \<Rightarrow> ('path, 'peer) request_origin \<Rightarrow> chat_name \<Rightarrow> block_number \<Rightarrow>
    bytes \<Rightarrow> chat_store \<Rightarrow> ('peer, send_block_error, unit) handled" where
  "send_block env origin name number blk s =
     (case position (\<lambda>r. Server r = origin) (ce_replicators env name) of
        None \<Rightarrow> Done (s, [], Inl SBNoReplicator)
      | Some index \<Rightarrow>
          (case chats s name of
             None \<Rightarrow> Done (s, [], Inl SBChatNotFound)
           | Some c \<Rightarrow>
               run_bind (last_finalized_block (ce_checks env) c) (\<lambda>ours.
                 if ours \<noteq> number then Done (s, [], Inl (InvalidBlock Outdated))
                 else (case stage c of
                     Unfinalized (Some b) others \<Rightarrow>
                       run_bind (hash_block (ce_lib env) blk) (\<lambda>(hash, ht).
                       run_bind (set_other index hash others) (\<lambda>others'.
                         if votes_for hash others' < REPLICATION_FACTOR div 2
                         then Done ((put_chat name (c\<lparr>stage := Unfinalized (Some b) others'\<rparr>) s)\<lparr>hashes := ht\<rparr>, [],
                           Inl (InvalidBlock MajorityMismatch))
                         else Done ((put_chat name (push_to_finalized \<lparr>bl_hash = hash, bl_data = blk\<rparr>
                             (c\<lparr>stage := block_stage_default\<rparr>)) s)\<lparr>hashes := ht\<rparr>, [], Inr ())))
                   | Unfinalized None _ \<Rightarrow> Done (s, [], Inl (InvalidBlock NotExpected))
                   | Recovering final_hash _ \<Rightarrow>
                       run_bind (hash_block (ce_lib env) blk) (\<lambda>(hash, ht).
                         if hash \<noteq> final_hash
                         then Done (s\<lparr>hashes := ht\<rparr>, [], Inl (InvalidBlock MajorityMismatch))
                         else run_bind (retain_messages_in_vec
                             (\<lambda>u m. (hash_from_slice (ce_lib env) m \<notin> set ht, m, u)) () (current_block c)) (\<lambda>(_, cur).
                           Done ((put_chat name (push_to_finalized \<lparr>bl_hash = hash, bl_data = blk\<rparr>
                             (c\<lparr>current_block := cur\<rparr>)) s)\<lparr>hashes := ht\<rparr>, [], Inr ())))))))"

definition fetch_latest_block ::
  "chat_name \<Rightarrow> chat_store \<Rightarrow> fetch_latest_block_error + (block_number \<times> bytes)" where
  "fetch_latest_block name s =
     (case chats s name of None \<Rightarrow> Inl FLChatNotFound | Some c \<Rightarrow> Inr (block_number c, current_block c))"

definition saturating_sub_u64 :: "u64 \<Rightarrow> u64 \<Rightarrow> u64" where
  "saturating_sub_u64 a b = (if b \<le> a then a - b else 0)"

definition fetch_blocks :: "chat \<Rightarrow> bytes list" where
  "fetch_blocks c = current_block c #
     (case unfinalized_block (stage c) of None \<Rightarrow> [] | Some b \<Rightarrow> [b]) @ map bl_data (finalized c)"

text \<open>The slice at the end of \<open>FetchMessages\<close>: up to twenty messages that end at the offset.\<close>

definition fetch_page :: "cursor \<Rightarrow> bytes \<Rightarrow> (cursor \<times> bytes) run" where
  "fetch_page cur blk =
     (let offset = (if cu_offset cur = 0 then length blk else cu_offset cur) in
      if length blk < offset then Done (CURSOR_INIT, [])
      else
        let blk' = take offset blk;
            message_length = sum_list (map (\<lambda>m. length m + 2) (take MESSAGE_FETCH_LIMIT (unpack_messages blk'))) in
        run_bind (usize_sub offset message_length) (\<lambda>start.
          Done (cur\<lparr>cu_offset := start\<rparr>, take (offset - start) (drop start blk'))))"

definition fetch_messages ::
  "bool \<Rightarrow> chat_name \<Rightarrow> cursor \<Rightarrow> chat_store \<Rightarrow> (fetch_messages_error + (cursor \<times> bytes)) run" where
  "fetch_messages checks name cur s =
     (case chats s name of
        None \<Rightarrow> Done (Inl FMChatNotFound)
      | Some c \<Rightarrow>
          let cur1 = (if cur = CURSOR_INIT
                      then \<lparr>cu_block = block_number c, cu_offset = length (current_block c)\<rparr> else cur) in
          if cu_offset cur1 = 0 \<and> cu_block cur1 = 0 then Done (Inr (CURSOR_INIT, []))
          else if cu_offset cur1 = 0 \<and> checks \<and> cu_block cur1 = - 1 then Panic
          else
            let cur2 = (if cu_offset cur1 = 0 then cur1\<lparr>cu_block := cu_block cur1 + 1\<rparr> else cur1);
                n = unat (saturating_sub_u64 (block_number c) (cu_block cur2)) in
            if length (fetch_blocks c) \<le> n then Done (Inr (CURSOR_INIT, []))
            else run_bind (fetch_page cur2 (fetch_blocks c ! n)) (\<lambda>r. Done (Inr r)))"

subsection \<open>Pushing a message\<close>

definition message_bytes :: "message \<Rightarrow> bytes" where
  "message_bytes m = identiy m @ base128_bytes (msg_nonce m) @ msg_content m"

lemma wr_message: "ncap.wr (encode_message no_cap_overflow_ops m) (message_bytes m)"
proof -
  have "ncap.wr (for_enc (encode_u8 no_cap_overflow_ops) (identiy m)) (concat (map (\<lambda>x. [x]) (identiy m)))"
    by (intro ncap.wr_for) (simp add: encode_u8_def ncap.push_law)
  moreover have "ncap.wr (encode_int no_cap_overflow_ops (msg_nonce m)) (base128_bytes (msg_nonce m))"
    using ncap.wr_base128 [of "msg_nonce m"] by (simp add: encode_int_def)
  moreover have "ncap.wr (encode_reminder no_cap_overflow_ops (msg_content m)) (msg_content m)"
    unfolding encode_reminder_def by (rule ncap.extend_law)
  ultimately show ?thesis
    unfolding encode_message_def encode_array_def message_bytes_def by (intro ncap.wr_seq) simp_all
qed

lemma try_push_fits:
  assumes "length blk + length (message_bytes m) + 2 \<le> BLOCK_SIZE"
  shows "try_push blk m = (True, blk @ message_bytes m @ encode_len (length (message_bytes m)))"
proof -
  let ?b = "\<lparr>cv_data = blk, cv_capacity = BLOCK_SIZE\<rparr>"
  have ok: "cap_vec_ok ?b" and f: "length (cv_data ?b) + length (message_bytes m) \<le> cv_capacity ?b"
    using assms by (auto simp: cap_vec_ok_def)
  obtain b1 where b1: "encode_message no_cap_overflow_ops m ?b = (True, b1)" "cap_vec_ok b1"
    "cv_data b1 = cv_data ?b @ message_bytes m"
    "\<forall>n. length (cv_data b1) + n \<le> cv_capacity b1 \<longleftrightarrow> length (cv_data ?b) + (length (message_bytes m) + n) \<le> cv_capacity ?b"
    by (rule writes_fits [OF wr_message ok f])
  let ?l = "encode_len (length (message_bytes m))"
  have "length ?l = 2" by (simp add: encode_len_def)
  then have f1: "length (cv_data b1) + length ?l \<le> cv_capacity b1"
    using assms spec [OF b1(4), of "length ?l"] by simp
  obtain b2 where "extend_from_slice no_cap_overflow_ops ?l b1 = (True, b2)" "cv_data b2 = cv_data b1 @ ?l"
    by (rule writes_fits [OF ncap.extend_law b1(2) f1])
  with b1 show ?thesis by (simp add: try_push_def)
qed

lemma try_push_full:
  assumes "length blk \<le> BLOCK_SIZE" and "BLOCK_SIZE < length blk + length (message_bytes m) + 2"
  shows "\<exists>p. try_push blk m = (False, blk @ p)"
proof -
  let ?b = "\<lparr>cv_data = blk, cv_capacity = BLOCK_SIZE\<rparr>"
  have ok: "cap_vec_ok ?b" using assms by (auto simp: cap_vec_ok_def)
  show ?thesis
  proof (cases "length (cv_data ?b) + length (message_bytes m) \<le> cv_capacity ?b")
    case False
    obtain b1 p where "encode_message no_cap_overflow_ops m ?b = (False, b1)" "cv_data b1 = cv_data ?b @ p"
      by (rule writes_full [OF wr_message ok False])
    then show ?thesis by (simp add: try_push_def)
  next
    case True
    obtain b1 where b1: "encode_message no_cap_overflow_ops m ?b = (True, b1)" "cap_vec_ok b1"
      "cv_data b1 = cv_data ?b @ message_bytes m"
      "\<forall>n. length (cv_data b1) + n \<le> cv_capacity b1 \<longleftrightarrow> length (cv_data ?b) + (length (message_bytes m) + n) \<le> cv_capacity ?b"
      by (rule writes_fits [OF wr_message ok True])
    let ?l = "encode_len (length (message_bytes m))"
    have "length ?l = 2" by (simp add: encode_len_def)
    then have f1: "\<not> length (cv_data b1) + length ?l \<le> cv_capacity b1"
      using assms(2) spec [OF b1(4), of "length ?l"] by simp
    obtain b2 p where "extend_from_slice no_cap_overflow_ops ?l b1 = (False, b2)" "cv_data b2 = cv_data b1 @ p"
      by (rule writes_full [OF ncap.extend_law b1(2) f1])
    with b1 show ?thesis by (simp add: try_push_def)
  qed
qed

text \<open>A message of a member: a 32 byte identity and at most \<open>MAX_MESSAGE_SIZE\<close> bytes.\<close>

definition message_ok :: "message \<Rightarrow> bool" where
  "message_ok m \<longleftrightarrow> length (identiy m) = 32 \<and> length (msg_content m) \<le> MAX_MESSAGE_SIZE"

lemma message_bytes_small: "message_ok m \<Longrightarrow> length (message_bytes m) \<le> 1066"
  using length_base128_bytes_10 [of "msg_nonce m"]
  by (simp add: message_ok_def message_bytes_def MAX_MESSAGE_SIZE_def)

text \<open>
  The invariant: the block being filled is a sequence of packed messages that fits its
  capacity, at most \<open>BLOCK_HISTORY\<close> blocks are kept, and every other replicator has a vote.
\<close>

definition chat_ok :: "chat \<Rightarrow> bool" where
  "chat_ok c \<longleftrightarrow> length (current_block c) \<le> BLOCK_SIZE \<and>
     (\<exists>msgs. current_block c = pack_messages msgs \<and> (\<forall>m\<in>set msgs. length m < 2 ^ 16)) \<and>
     length (finalized c) \<le> BLOCK_HISTORY \<and>
     (case stage c of Unfinalized _ others \<Rightarrow> length others = REPLICATION_FACTOR | Recovering _ _ \<Rightarrow> True)"

lemma unpack_empty_iff:
  assumes "\<forall>m\<in>set msgs. length m < 2 ^ 16"
  shows "unpack_messages (pack_messages msgs) = [] \<longleftrightarrow> pack_messages msgs = []"
proof (cases msgs rule: rev_cases)
  case Nil
  then show ?thesis using unpack_pack [OF assms] by (simp add: pack_messages_def)
next
  case (snoc ms m)
  then have "length (pack_messages msgs) > 0" by (simp add: pack_messages_def encode_len_def)
  then show ?thesis using unpack_pack [OF assms] snoc by auto
qed

lemma hash_block_total:
  assumes "chat_ok c" and "current_block c \<noteq> []"
  shows "\<exists>h hs. hash_block L (current_block c) = Done (h, hs)"
proof -
  have ne: "unpack_messages (current_block c) \<noteq> []"
    using assms unpack_empty_iff by (auto simp: chat_ok_def)
  have "sort (map (hash_from_slice L) (unpack_messages (current_block c))) \<noteq> []"
  proof
    assume "sort (map (hash_from_slice L) (unpack_messages (current_block c))) = []"
    then have "length (map (hash_from_slice L) (unpack_messages (current_block c))) = 0"
      by (metis length_sort list.size(3))
    with ne show False by simp
  qed
  then show ?thesis by (auto simp: hash_block_def Let_def split: list.split)
qed

lemma pack_snoc: "pack_messages (msgs @ [b]) = pack_messages msgs @ b @ encode_len (length b)"
  by (simp add: pack_messages_def)

lemma chat_ok_push:
  assumes "chat_ok c" and "length (current_block c) + length (message_bytes m) + 2 \<le> BLOCK_SIZE"
    and "length (message_bytes m) < 2 ^ 16"
  shows "chat_ok (c\<lparr>current_block := current_block c @ message_bytes m @ encode_len (length (message_bytes m))\<rparr>)"
proof -
  obtain msgs where "current_block c = pack_messages msgs" "\<forall>m\<in>set msgs. length m < 2 ^ 16"
    using assms(1) by (auto simp: chat_ok_def)
  then have "\<exists>msgs'. current_block c @ message_bytes m @ encode_len (length (message_bytes m)) =
      pack_messages msgs' \<and> (\<forall>x\<in>set msgs'. length x < 2 ^ 16)"
    using assms(3) by (intro exI [of _ "msgs @ [message_bytes m]"]) (simp add: pack_snoc)
  moreover have "length (encode_len (length (message_bytes m))) = 2" by (simp add: encode_len_def)
  ultimately show ?thesis using assms(1,2) unfolding chat_ok_def by simp
qed

lemma push_to_finalized_simps [simp]:
  "current_block (push_to_finalized b c) = current_block c" "members (push_to_finalized b c) = members c"
  "stage (push_to_finalized b c) = stage c" "block_number (push_to_finalized b c) = block_number c"
  by (simp_all add: push_to_finalized_def Let_def)

lemma hd_push_to_finalized: "finalized (push_to_finalized b c) \<noteq> [] \<and> hd (finalized (push_to_finalized b c)) = b"
  by (simp add: push_to_finalized_def Let_def)

lemma length_push_to_finalized:
  "length (finalized c) \<le> BLOCK_HISTORY \<Longrightarrow> length (finalized (push_to_finalized b c)) \<le> BLOCK_HISTORY"
  by (auto simp: push_to_finalized_def Let_def BLOCK_HISTORY_def)

lemma default_stage_ok:
  "\<exists>others. block_stage_default = Unfinalized None others \<and> length others = REPLICATION_FACTOR"
  by (simp add: block_stage_default_def)

definition stage_ok :: "block_stage \<Rightarrow> bool" where
  "stage_ok st = (case st of Unfinalized _ others \<Rightarrow> length others = REPLICATION_FACTOR | Recovering _ _ \<Rightarrow> True)"

lemma stage_ok_simps [simp]:
  "stage_ok (Unfinalized p others) \<longleftrightarrow> length others = REPLICATION_FACTOR" "stage_ok (Recovering h w)"
  "stage_ok block_stage_default"
  by (simp_all add: stage_ok_def block_stage_default_def)

lemma chat_ok_alt:
  "chat_ok c \<longleftrightarrow> length (current_block c) \<le> BLOCK_SIZE \<and>
     (\<exists>msgs. current_block c = pack_messages msgs \<and> (\<forall>m\<in>set msgs. length m < 2 ^ 16)) \<and>
     length (finalized c) \<le> BLOCK_HISTORY \<and> stage_ok (stage c)"
  by (simp add: chat_ok_def stage_ok_def)

text \<open>A closed block: the chat after the current block was taken out of it.\<close>

lemma chat_ok_cleared:
  "chat_ok c \<Longrightarrow> length (finalized c') \<le> BLOCK_HISTORY \<Longrightarrow> stage_ok (stage c') \<Longrightarrow>
   current_block c' = [] \<Longrightarrow> chat_ok c'"
  unfolding chat_ok_alt by (auto simp: BLOCK_SIZE_def pack_messages_def intro: exI [of _ "[]"])

lemma try_push_empty:
  "message_ok m \<Longrightarrow> try_push [] m = (True, message_bytes m @ encode_len (length (message_bytes m)))"
  using try_push_fits [of "[]" m] message_bytes_small [of m] by (simp add: BLOCK_SIZE_def)

lemma chat_ok_first:
  assumes "chat_ok c" and "current_block c = []" and "message_ok m"
  shows "chat_ok (c\<lparr>current_block := message_bytes m @ encode_len (length (message_bytes m))\<rparr>)"
  using chat_ok_push [of c m] assms message_bytes_small [of m] by (simp add: BLOCK_SIZE_def)

lemma unpack_first:
  "message_ok m \<Longrightarrow> unpack_messages (message_bytes m @ encode_len (length (message_bytes m))) = [message_bytes m]"
  using unpack_messages_snoc [of "message_bytes m" "[]"] message_bytes_small [of m]
  by (simp add: unpack_messages.simps [of "[]"])

text \<open>What closing the current block leaves.\<close>

definition closed_into :: "chat \<Rightarrow> chat \<Rightarrow> bool" where
  "closed_into c c' \<longleftrightarrow> (\<exists>p others. stage c = Unfinalized p others) \<longrightarrow>
     current_block c \<in> set (tl (fetch_blocks c')) \<and> block_number c' = block_number c + 1"

definition push_outcome :: "message \<Rightarrow> chat \<Rightarrow> (bytes option + unit) \<Rightarrow> chat \<Rightarrow> bool" where
  "push_outcome m c r c' \<longleftrightarrow> chat_ok c' \<and> members c' = members c \<and>
     (case r of
        Inr _ \<Rightarrow> c' = c\<lparr>current_block := current_block c @ message_bytes m @ encode_len (length (message_bytes m))\<rparr>
      | Inl None \<Rightarrow> c' = c
      | Inl (Some h) \<Rightarrow> unpack_messages (current_block c') = [message_bytes m] \<and> closed_into c c')"

lemma push_closed:
  assumes "chat_ok c2" and "current_block c2 = []" and "members c2 = members c" and "message_ok m" and "closed_into c c2"
  shows "push_outcome m c (Inl (Some h))
    (c2\<lparr>current_block := message_bytes m @ encode_len (length (message_bytes m))\<rparr>)"
  using chat_ok_first [OF assms(1,2,4)] assms(3,5) unpack_first [OF assms(4)]
  by (simp add: push_outcome_def closed_into_def fetch_blocks_def)

lemma finalize_closed:
  assumes "chat_ok c"
  shows "chat_ok (finalize_current_block h c) \<and> current_block (finalize_current_block h c) = [] \<and>
    members (finalize_current_block h c) = members c \<and>
    current_block c \<in> set (tl (fetch_blocks (finalize_current_block h c))) \<and>
    block_number (finalize_current_block h c) = block_number c + 1"
proof -
  let ?c1 = "c\<lparr>stage := block_stage_default\<rparr>"
  let ?b = "\<lparr>bl_hash = h, bl_data = current_block c\<rparr>"
  have fin: "finalize_current_block h c =
      (push_to_finalized ?b ?c1)\<lparr>current_block := [], block_number := block_number c + 1\<rparr>"
    by (simp add: finalize_current_block_def Let_def)
  have len: "length (finalized (push_to_finalized ?b ?c1)) \<le> BLOCK_HISTORY"
    by (rule length_push_to_finalized) (use assms in \<open>simp add: chat_ok_def\<close>)
  have "?b \<in> set (finalized (push_to_finalized ?b ?c1))"
    using hd_push_to_finalized [of ?b ?c1] by (metis hd_in_set)
  then have "current_block c \<in> bl_data ` set (finalized (push_to_finalized ?b ?c1))" by force
  then show ?thesis unfolding fin
    using chat_ok_cleared [OF assms, of "(push_to_finalized ?b ?c1)\<lparr>current_block := [], block_number := block_number c + 1\<rparr>"] len
    by (simp add: fetch_blocks_def)
qed

lemma push_message_outcome:
  assumes ok: "chat_ok c" and m: "message_ok m"
  shows "\<exists>r c' ht'. push_message L m c ht = Done (r, c', ht') \<and> push_outcome m c r c'"
proof (cases "length (current_block c) + length (message_bytes m) + 2 \<le> BLOCK_SIZE")
  case True
  then show ?thesis using try_push_fits [OF True] chat_ok_push [OF ok True] message_bytes_small [OF m]
    by (simp add: push_message_def push_outcome_def)
next
  case False
  then obtain p where tp: "try_push (current_block c) m = (False, current_block c @ p)"
    using try_push_full [of "current_block c" m] ok by (auto simp: chat_ok_def)
  have ne: "current_block c \<noteq> []"
    using False message_bytes_small [OF m] by (auto simp: BLOCK_SIZE_def)
  obtain h hs where hb: "hash_block L (current_block c) = Done (h, hs)" using hash_block_total [OF ok ne] by blast
  have c1: "c\<lparr>current_block := current_block c\<rparr> = c" by simp
  note retry = try_push_empty [OF m]
  show ?thesis
  proof (cases "stage c")
    case (Unfinalized proposed others)
    show ?thesis
    proof (cases proposed)
      case (Some b)
      then show ?thesis using tp Unfinalized ok by (simp add: push_message_def push_outcome_def)
    next
      case None
      let ?pd = "c\<lparr>stage := Unfinalized (Some \<lparr>bl_hash = h, bl_data = current_block c\<rparr>) others,
          current_block := [], block_number := block_number c + 1\<rparr>"
      have f: "push_outcome m c (Inl (Some h)) ((finalize_current_block h c)
          \<lparr>current_block := message_bytes m @ encode_len (length (message_bytes m))\<rparr>)"
        by (rule push_closed) (use finalize_closed [OF ok, of h] m in \<open>auto simp: closed_into_def\<close>)
      have q: "push_outcome m c (Inl (Some h)) (?pd
          \<lparr>current_block := message_bytes m @ encode_len (length (message_bytes m))\<rparr>)"
        using chat_ok_cleared [OF ok, of ?pd] push_closed [of ?pd c m h] ok m Unfinalized
        by (simp add: closed_into_def fetch_blocks_def chat_ok_def)
      show ?thesis using tp hb retry Unfinalized None finalize_closed [OF ok, of h] f q
        by (cases "REPLICATION_FACTOR div 2 \<le> votes_for h others") (simp_all add: push_message_def)
    qed
  next
    case (Recovering final_hash we_finalized)
    let ?c2 = "c\<lparr>stage := Recovering final_hash True\<rparr>"
    have ok2: "chat_ok ?c2" using ok by (simp add: chat_ok_alt)
    have f: "push_outcome m c (Inl (Some h)) ((finalize_current_block h ?c2)
        \<lparr>current_block := message_bytes m @ encode_len (length (message_bytes m))\<rparr>)"
      by (rule push_closed) (use finalize_closed [OF ok2, of h] m Recovering in \<open>auto simp: closed_into_def\<close>)
    have q: "push_outcome m c (Inl (Some h)) (?c2\<lparr>current_block := message_bytes m @ encode_len (length (message_bytes m))\<rparr>)"
      using push_closed [of "?c2\<lparr>current_block := []\<rparr>" c m h] m ok2 Recovering
        chat_ok_cleared [OF ok2, of "?c2\<lparr>current_block := []\<rparr>"]
      by (simp add: closed_into_def chat_ok_alt)
    show ?thesis
    proof (cases we_finalized)
      case True
      then show ?thesis using tp Recovering ok by (simp add: push_message_def push_outcome_def)
    next
      case nf: False
      show ?thesis using tp hb retry Recovering nf finalize_closed [OF ok2, of h] f q
        by (cases "h = final_hash") (simp_all add: push_message_def)
    qed
  qed
qed

subsection \<open>The handlers keep the invariant\<close>

definition store_ok :: "chat_store \<Rightarrow> bool" where
  "store_ok s \<longleftrightarrow> (\<forall>name c. chats s name = Some c \<longrightarrow> chat_ok c)"

lemma store_ok_put: "store_ok s \<Longrightarrow> chat_ok c \<Longrightarrow> store_ok (put_chat name c s)"
  by (simp add: store_ok_def put_chat_def)

lemma store_ok_hashes [simp]: "store_ok (s\<lparr>hashes := ht\<rparr>) = store_ok s"
  by (simp add: store_ok_def)

lemma chat_ok_members [simp]: "chat_ok (c\<lparr>members := ms\<rparr>) = chat_ok c"
  by (simp add: chat_ok_def)

lemma chat_ok_new: "chat_ok (chat_new i r)"
  unfolding chat_ok_alt by (auto simp: chat_new_def pack_messages_def intro: exI [of _ "[]"])

lemma chat_ok_stage: "chat_ok c \<Longrightarrow> stage_ok st \<Longrightarrow> chat_ok (c\<lparr>stage := st\<rparr>)"
  by (simp add: chat_ok_alt)

lemma chat_ok_finalized: "chat_ok c \<Longrightarrow> chat_ok (push_to_finalized b c)"
  by (simp add: chat_ok_alt length_push_to_finalized)

lemma count_proposal_ok: "count_proposal i h p others c = Done c' \<Longrightarrow> chat_ok c \<Longrightarrow>
    length others = REPLICATION_FACTOR \<Longrightarrow> chat_ok c'"
  by (auto simp: count_proposal_def set_other_def Let_def run_simps split: if_splits option.splits
      intro!: chat_ok_stage chat_ok_finalized)

lemma retain_current_ok:
  assumes "chat_ok c" and "retain_messages_in_vec (\<lambda>u m. (q m, m, u)) u (current_block c) = Done (u', cur)"
  shows "chat_ok (c\<lparr>current_block := cur\<rparr>)"
proof -
  obtain msgs where msgs: "current_block c = pack_messages msgs" "\<forall>m\<in>set msgs. length m < 2 ^ 16"
    using assms(1) by (auto simp: chat_ok_def)
  have "\<forall>s m. length (fst (snd (q m, m, s :: 'a))) = length m" by simp
  from retain_messages_correct [of "\<lambda>s m. (q m, m, s)", simplified, of u "pack_messages msgs"]
  have cur: "cur = pack_messages (filter q msgs)"
    using assms(2) retain_spec_filter [OF msgs(2), of q u]
    by (auto simp: msgs(1) retain_messages_in_vec_def run_simps)
  have "length (pack_messages (filter q msgs)) \<le> length (pack_messages msgs)"
    by (induction msgs) (auto simp: pack_messages_def)
  then have "length cur \<le> BLOCK_SIZE" using assms(1) msgs(1) cur by (simp add: chat_ok_def)
  moreover have "\<exists>ms. cur = pack_messages ms \<and> (\<forall>m\<in>set ms. length m < 2 ^ 16)"
    using cur msgs(2) by (intro exI [of _ "filter q msgs"]) simp
  ultimately show ?thesis using assms(1) by (simp add: chat_ok_def)
qed

text \<open>Environments: hashes have 32 bytes, and the array of a proposal is large enough.\<close>

definition env_ok :: "'peer chat_env \<Rightarrow> bool" where
  "env_ok env \<longleftrightarrow> (\<forall>d. length (blake3 (ce_lib env) d) = 32) \<and> 76 \<le> ce_proposal_buf env"

lemma send_block_proposals_total:
  assumes "env_ok env" and "length name \<le> 32" and "length hash = 32"
  shows "\<exists>reqs. send_block_proposals env name number hash = Done reqs"
proof -
  let ?bytes = "PROPOSE_PREFIX # slice_bytes name @ base128_bytes number @ hash"
  have "slc.wr (for_enc (encode_u8 slice_ops) hash) (concat (map (\<lambda>x. [x]) hash))"
    by (intro slc.wr_for) (simp add: encode_u8_def slc.push_law)
  then have "slc.wr (seq_enc (encode_int slice_ops number) (encode_array encode_u8 slice_ops hash))
      (base128_bytes number @ hash)"
    unfolding encode_array_def encode_int_def
    using slc.wr_base128 [of number] by (intro slc.wr_seq) simp_all
  then have "slc.wr (seq_enc (encode_slice slice_ops name) (seq_enc (encode_int slice_ops number)
      (encode_array encode_u8 slice_ops hash))) (slice_bytes name @ base128_bytes number @ hash)"
    by (rule slc.wr_seq [OF slc.wr_slice])
  moreover have "encode_u8 slice_ops PROPOSE_PREFIX = push slice_ops PROPOSE_PREFIX"
    "encode_str slice_ops name = encode_slice slice_ops name"
    by (simp_all add: encode_u8_def encode_str_def fun_eq_iff)
  ultimately have wr: "slc.wr (encode_proposal slice_ops name number hash) ?bytes"
    unfolding encode_proposal_def by (simp only: slc.wr_push)
  have "length (base128_bytes (of_nat (length name) :: u64)) \<le> 1"
    by (rule length_base128_bytes) (use assms(2) in \<open>auto simp: unat_of_nat\<close>)
  then have "length (slice_bytes name) \<le> 33"
    using assms(2) by (simp add: slice_bytes_def usize_bytes_def)
  then have "length ?bytes \<le> 76" using length_base128_bytes_10 [of number] assms(3) by simp
  then have "length ?bytes \<le> length (sl_free \<lparr>sl_written = [], sl_free = replicate (ce_proposal_buf env) 0\<rparr>)"
    using assms(1) by (simp add: env_ok_def)
  then obtain b where "encode_proposal slice_ops name number hash
      \<lparr>sl_written = [], sl_free = replicate (ce_proposal_buf env) 0\<rparr> = (True, b)"
    by (rule writes_fits [OF wr TrueI])
  then show ?thesis by (simp add: send_block_proposals_def)
qed

lemma hash_block_length:
  assumes "\<forall>d. length (blake3 L d) = 32" and "hash_block L blk = Done (h, hs)"
  shows "length h = 32"
proof -
  obtain x xs where x: "sort (map (hash_from_slice L) (unpack_messages blk)) = x # xs" "h = foldl (hash_combine L) x xs"
    using assms(2) by (auto simp: hash_block_def Let_def split: list.splits)
  have "x \<in> set (map (hash_from_slice L) (unpack_messages blk))" by (metis x(1) list.set_intros(1) set_sort)
  then have "length x = 32" using assms(1) by (auto simp: hash_from_slice_def)
  then have "length (foldl (hash_combine L) x xs) = 32"
    by (cases xs rule: rev_cases) (simp_all add: hash_combine_def assms(1))
  then show ?thesis by (simp add: x(2))
qed

lemma push_message_hash:
  assumes "push_message L m c ht = Done (Inl (Some h), c', ht')"
  obtains hs where "hash_block L (take (length (current_block c)) (snd (try_push (current_block c) m))) = Done (h, hs)"
  using assms
  by (auto simp: push_message_def Let_def run_simps split: prod.splits bool.splits block_stage.splits option.splits if_splits)

lemma push_message_members:
  "push_message L m c ht = Done (r, c', ht') \<Longrightarrow> members c' = members c"
  by (auto simp: push_message_def finalize_current_block_def Let_def run_simps
      split: prod.splits bool.splits block_stage.splits option.splits if_splits)

text \<open>A request is refused before it changes anything, or its nonce is accepted.\<close>

definition granted :: "'peer chat_env \<Rightarrow> chat_name signed_proof \<Rightarrow> chat_store \<Rightarrow> chat \<Rightarrow> member \<Rightarrow> bool" where
  "granted env p s c sender \<longleftrightarrow> proof_verify (ce_verify env) (slice_context (ce_lib env)) p \<and>
     chats s (pf_context p) = Some c \<and> members c (hash_from_raw (ce_lib env) (pf_pk p)) = Some sender \<and>
     action sender < pf_nonce p"

lemma perform_refused_or_granted:
  "(\<exists>e\<in>{CAInvalidProof, CAChatNotFound, NotMember} \<union> range CAInvalidAction.
      perform_chat_action env p act s = Done (s, [], Inl e)) \<or>
   (\<exists>c sender. granted env p s c sender)"
proof (cases "\<exists>c sender. granted env p s c sender")
  case False
  show ?thesis
  proof (cases "proof_verify (ce_verify env) (slice_context (ce_lib env)) p")
    case False
    then show ?thesis by (simp add: perform_chat_action_def)
  next
    case v: True
    show ?thesis
    proof (cases "chats s (pf_context p)")
      case None
      with v show ?thesis by (simp add: perform_chat_action_def)
    next
      case (Some c)
      show ?thesis
      proof (cases "members c (hash_from_raw (ce_lib env) (pf_pk p))")
        case None
        with v Some show ?thesis by (simp add: perform_chat_action_def)
      next
        case m: (Some sender)
        with False v Some have "\<not> action sender < pf_nonce p" by (auto simp: granted_def)
        with v Some m show ?thesis by (simp add: perform_chat_action_def advance_nonce_def)
      qed
    qed
  qed
qed blast

text \<open>The chat of a granted request after its nonce was recorded.\<close>

definition advanced :: "'peer chat_env \<Rightarrow> chat_name signed_proof \<Rightarrow> chat \<Rightarrow> member \<Rightarrow> chat" where
  "advanced env p c sender =
     c\<lparr>members := (members c)(hash_from_raw (ce_lib env) (pf_pk p) \<mapsto> sender\<lparr>action := pf_nonce p\<rparr>)\<rparr>"

lemma perform_granted:
  assumes "granted env p s c sender"
  shows "perform_chat_action env p act s =
    (let c1 = advanced env p c sender; s1 = put_chat (pf_context p) c1 s in
     case act of
       AddUser i \<Rightarrow>
         if members c1 i \<noteq> None then Done (s1, [], Inl AlreadyMember)
         else Done (put_chat (pf_context p) (c1\<lparr>members := (members c1)(i \<mapsto> member_new)\<rparr>) s1, [], Inr ())
     | SendMessage msg \<Rightarrow>
         if MAX_MESSAGE_SIZE < length msg then Done (s1, [], Inl MessageTooLarge)
         else run_bind (push_message (ce_lib env) \<lparr>identiy = hash_from_raw (ce_lib env) (pf_pk p),
                 msg_nonce = pf_nonce p - 1, msg_content = msg\<rparr> c1 (hashes s1)) (\<lambda>(r, c2, ht).
             let s2 = (put_chat (pf_context p) c2 s1)\<lparr>hashes := ht\<rparr>; event = PushChatEvent (pf_context p) p msg in
             case r of
               Inl None \<Rightarrow> Done (s2, [], Inl MessageBlockNotFinalized)
             | Inl (Some hash) \<Rightarrow>
                 run_bind (send_block_proposals env (pf_context p) (block_number c) hash) (\<lambda>reqs.
                   Done (s2, reqs @ [event], Inr ()))
             | Inr _ \<Rightarrow> Done (s2, [event], Inr ())))"
  using assms
  by (cases act) (simp_all add: granted_def perform_chat_action_def advance_nonce_def advanced_def Let_def)

lemma perform_granted_store:
  assumes g: "granted env p s c sender" and res: "perform_chat_action env p act s = Done (s', es, r)"
  shows "\<exists>c2. chats s' = (chats s)(pf_context p \<mapsto> c2) \<and>
    members c2 (hash_from_raw (ce_lib env) (pf_pk p)) = Some (sender\<lparr>action := pf_nonce p\<rparr>)"
proof -
  let ?c1 = "advanced env p c sender"
  have m1: "members ?c1 (hash_from_raw (ce_lib env) (pf_pk p)) = Some (sender\<lparr>action := pf_nonce p\<rparr>)"
    by (simp add: advanced_def)
  show ?thesis
  proof (cases act)
    case (AddUser i)
    show ?thesis
    proof (cases "members ?c1 i = None")
      case True
      let ?c2 = "?c1\<lparr>members := (members ?c1)(i \<mapsto> member_new)\<rparr>"
      have "chats s' = (chats s)(pf_context p \<mapsto> ?c2)"
        using res True AddUser by (auto simp: perform_granted [OF g] Let_def put_chat_def)
      then show ?thesis using m1 True by (intro exI [of _ ?c2]) auto
    next
      case False
      then have "chats s' = (chats s)(pf_context p \<mapsto> ?c1)"
        using res AddUser by (auto simp: perform_granted [OF g] Let_def put_chat_def)
      then show ?thesis using m1 by blast
    qed
  next
    case (SendMessage msg)
    show ?thesis
    proof (cases "MAX_MESSAGE_SIZE < length msg")
      case True
      then show ?thesis using res m1 SendMessage
        by (auto simp: perform_granted [OF g] Let_def put_chat_def)
    next
      case False
      let ?m = "\<lparr>identiy = hash_from_raw (ce_lib env) (pf_pk p), msg_nonce = pf_nonce p - 1, msg_content = msg\<rparr>"
      obtain q c2 ht where pm: "push_message (ce_lib env) ?m ?c1 (hashes s) = Done (q, c2, ht)"
        using res False SendMessage by (auto simp: perform_granted [OF g] Let_def put_chat_def run_simps)
      have "chats s' = (chats s)(pf_context p \<mapsto> c2)"
        using res False SendMessage pm
        by (cases q; cases "projl q")
          (auto simp: perform_granted [OF g] Let_def put_chat_def run_bind_Done_iff)
      then show ?thesis using push_message_members [OF pm] m1 by auto
    qed
  qed
qed

lemma perform_send_total:
  assumes "env_ok env" and "chat_ok c1" and "store_ok s1" and "length name \<le> 32" and "message_ok m"
  shows "\<exists>s' es r. run_bind (push_message (ce_lib env) m c1 ht0) (\<lambda>(r, c2, ht).
      let s2 = (put_chat name c2 s1)\<lparr>hashes := ht\<rparr>; event = PushChatEvent name p msg in
      case r of
        Inl None \<Rightarrow> Done (s2, [], Inl MessageBlockNotFinalized)
      | Inl (Some hash) \<Rightarrow> run_bind (send_block_proposals env name bn hash) (\<lambda>reqs. Done (s2, reqs @ [event], Inr ()))
      | Inr _ \<Rightarrow> Done (s2, [event], Inr ())) = Done (s', es, r) \<and> store_ok s'"
proof -
  obtain r c2 ht where pm: "push_message (ce_lib env) m c1 ht0 = Done (r, c2, ht)" "push_outcome m c1 r c2"
    using push_message_outcome [OF assms(2,5)] by blast
  have s2: "store_ok (put_chat name c2 s1)" using pm(2) assms(3) by (simp add: push_outcome_def store_ok_put)
  consider "r = Inr ()" | "r = Inl None" | h where "r = Inl (Some h)" 
    by (cases r; cases "projl r") auto
  then show ?thesis
  proof cases
    case 3
    then obtain hs where "hash_block (ce_lib env) (take (length (current_block c1)) (snd (try_push (current_block c1) m))) = Done (h, hs)"
      using pm(1) push_message_hash by blast
    then have "length h = 32" using assms(1) by (auto simp: env_ok_def dest: hash_block_length)
    then obtain reqs where "send_block_proposals env name bn h = Done reqs"
      using send_block_proposals_total [OF assms(1,4)] by blast
    then show ?thesis using 3 pm(1) s2 by simp
  qed (use pm(1) s2 in simp_all)
qed

lemma perform_chat_action_total:
  assumes "env_ok env" and "store_ok s" and "length (pf_context p) \<le> 32"
  shows "\<exists>s' es r. perform_chat_action env p act s = Done (s', es, r) \<and> store_ok s'"
proof (cases "\<exists>c sender. granted env p s c sender")
  case False
  then show ?thesis using perform_refused_or_granted [of env p act s] assms(2) by blast
next
  case True
  then obtain c sender where g: "granted env p s c sender" by blast
  let ?c1 = "advanced env p c sender"
  let ?s1 = "put_chat (pf_context p) ?c1 s"
  have c: "chat_ok ?c1" using assms(2) g by (auto simp: store_ok_def granted_def advanced_def)
  then have s1: "store_ok ?s1" using assms(2) by (simp add: store_ok_put)
  show ?thesis
  proof (cases act)
    case (AddUser i)
    then show ?thesis using c s1 by (simp add: perform_granted [OF g] Let_def store_ok_put)
  next
    case (SendMessage msg)
    have "message_ok \<lparr>identiy = hash_from_raw (ce_lib env) (pf_pk p), msg_nonce = pf_nonce p - 1, msg_content = msg\<rparr>"
      if "\<not> MAX_MESSAGE_SIZE < length msg"
      using assms(1) that by (simp add: message_ok_def env_ok_def hash_from_raw_def)
    then show ?thesis using s1 perform_send_total [OF assms(1) c s1 assms(3)]
      by (simp add: perform_granted [OF g] SendMessage Let_def)
  qed
qed

inductive chat_step :: "'peer chat_env \<Rightarrow> chat_store \<Rightarrow> chat_store \<Rightarrow> bool" for env where
  step_create: "create_chat name i s = (Done (s', es, r) :: ('peer, create_chat_error, unit) handled) \<Longrightarrow>
     chat_step env s s'"
| step_perform: "length (pf_context p) \<le> 32 \<Longrightarrow> perform_chat_action env p act s = Done (s', es, r) \<Longrightarrow>
     chat_step env s s'"
| step_propose: "propose_msg_block env (origin :: (unit, 'peer) request_origin) name number h s = Done (s', es, r) \<Longrightarrow>
     chat_step env s s'"
| step_send: "send_block env (origin :: (unit, 'peer) request_origin) name number blk s = Done (s', es, r) \<Longrightarrow>
     chat_step env s s'"

inductive chat_reach :: "'peer chat_env \<Rightarrow> chat_store \<Rightarrow> bool" for env where
  chat_reach_init: "chat_reach env \<lparr>chats = Map.empty, hashes = []\<rparr>"
| chat_reach_step: "chat_reach env s \<Longrightarrow> chat_step env s s' \<Longrightarrow> chat_reach env s'"

lemma create_chat_ok: "create_chat name i s = Done (s', es, r) \<Longrightarrow> store_ok s \<Longrightarrow> store_ok s'"
  by (auto simp: create_chat_def split: option.splits intro!: store_ok_put chat_ok_new)

lemma propose_ok:
  assumes "propose_msg_block env origin name number h s = Done (s', es, r)" and "store_ok s"
  shows "store_ok s'"
proof -
  have "s' = s \<or> (\<exists>c i proposed others c'. chats s name = Some c \<and> stage c = Unfinalized proposed others \<and>
      count_proposal i h proposed others c = Done c' \<and> s' = put_chat name c' s)"
    using assms(1) by (auto simp: propose_msg_block_def run_simps split: request_origin.splits option.splits
        if_splits list.splits block_stage.splits)
  then show ?thesis
  proof
    assume "\<exists>c i proposed others c'. chats s name = Some c \<and> stage c = Unfinalized proposed others \<and>
      count_proposal i h proposed others c = Done c' \<and> s' = put_chat name c' s"
    then obtain c i proposed others c' where c: "chats s name = Some c" "stage c = Unfinalized proposed others"
      "count_proposal i h proposed others c = Done c'" "s' = put_chat name c' s" by blast
    have ok: "chat_ok c" using assms(2) c(1) by (simp add: store_ok_def)
    then have "length others = REPLICATION_FACTOR" using c(2) by (simp add: chat_ok_def)
    then show ?thesis using count_proposal_ok [OF c(3) ok] assms(2) by (simp add: c(4) store_ok_put)
  qed (use assms(2) in simp)
qed

lemma send_block_ok:
  assumes "send_block env origin name number blk s = Done (s', es, r)" and "store_ok s"
  shows "store_ok s'"
proof (cases "chats s name")
  case None
  then show ?thesis using assms by (auto simp: send_block_def split: option.splits)
next
  case (Some c)
  have ok: "chat_ok c" using assms(2) Some by (simp add: store_ok_def)
  show ?thesis
  proof (cases "stage c")
    case (Unfinalized proposed others)
    then have "length others = REPLICATION_FACTOR" using ok by (simp add: chat_ok_def)
    then show ?thesis using assms ok Some Unfinalized
      by (auto simp: send_block_def run_simps set_other_def split: option.splits if_splits
          intro!: store_ok_put chat_ok_finalized chat_ok_stage)
  next
    case (Recovering fh w)
    have "store_ok s' \<or> (\<exists>ht u cur b. retain_messages_in_vec (\<lambda>u m. (hash_from_slice (ce_lib env) m \<notin> set ht, m, u)) ()
        (current_block c) = Done (u, cur) \<and> s' = (put_chat name (push_to_finalized b (c\<lparr>current_block := cur\<rparr>)) s)\<lparr>hashes := ht\<rparr>)"
      using assms Some Recovering
      by (auto simp: send_block_def run_simps split: option.splits if_splits)
    then show ?thesis
    proof (elim disjE exE conjE)
      fix ht u cur b
      assume r: "retain_messages_in_vec (\<lambda>u m. (hash_from_slice (ce_lib env) m \<notin> set ht, m, u)) ()
          (current_block c) = Done (u, cur)"
        and s': "s' = (put_chat name (push_to_finalized b (c\<lparr>current_block := cur\<rparr>)) s)\<lparr>hashes := ht\<rparr>"
      show ?thesis unfolding s'
        using retain_current_ok [OF ok r] assms(2) by (simp add: store_ok_put chat_ok_finalized)
    qed simp
  qed
qed

lemma chat_step_ok: "chat_step env s s' \<Longrightarrow> env_ok env \<Longrightarrow> store_ok s \<Longrightarrow> store_ok s'"
proof (induction rule: chat_step.induct)
  case (step_perform p act s s' es r)
  then show ?case using perform_chat_action_total [of env s p act] by auto
qed (auto dest: create_chat_ok propose_ok send_block_ok)

lemma chat_reach_ok: "chat_reach env s \<Longrightarrow> env_ok env \<Longrightarrow> store_ok s"
  by (induction rule: chat_reach.induct) (auto simp: store_ok_def [of "\<lparr>chats = Map.empty, hashes = []\<rparr>"] dest: chat_step_ok)

subsection \<open>Pages of messages\<close>

lemma pack_append: "pack_messages (xs @ ys) = pack_messages xs @ pack_messages ys"
  by (simp add: pack_messages_def)

lemma sum_frame_lengths: "sum_list (map (\<lambda>m. length m + 2) ms) = length (pack_messages ms)"
  by (induction ms) (simp_all add: pack_messages_def encode_len_def)

lemma page_messages:
  assumes "\<forall>m\<in>set xs. length m < 2 ^ 16"
  shows "sum_list (map (\<lambda>m. length m + 2) (take k (unpack_messages (pack_messages xs)))) =
    length (pack_messages (drop (length xs - k) xs))"
proof -
  have "take k (rev xs) = rev (drop (length xs - k) xs)" by (simp add: take_rev)
  then have "sum_list (map (\<lambda>m. length m + 2) (take k (rev xs))) = sum_list (map (\<lambda>m. length m + 2) (drop (length xs - k) xs))"
    by (simp only: rev_map [symmetric] sum_list_rev)
  then show ?thesis unfolding unpack_pack [OF assms] sum_frame_lengths .
qed

lemma fetch_page_packed:
  assumes "\<forall>m\<in>set msgs. length m < 2 ^ 16" and "n \<le> length msgs"
    and "if cu_offset cur = 0 then n = length msgs else cu_offset cur = length (pack_messages (take n msgs))"
  shows "fetch_page cur (pack_messages msgs) =
    Done (cur\<lparr>cu_offset := length (pack_messages (take (n - MESSAGE_FETCH_LIMIT) msgs))\<rparr>,
      pack_messages (drop (n - MESSAGE_FETCH_LIMIT) (take n msgs)))"
proof -
  let ?xs = "take n msgs"
  let ?k = "n - MESSAGE_FETCH_LIMIT"
  have off: "(if cu_offset cur = 0 then length (pack_messages msgs) else cu_offset cur) = length (pack_messages ?xs)"
    using assms(3) by (auto split: if_splits)
  have sp: "pack_messages msgs = pack_messages ?xs @ pack_messages (drop n msgs)" by (metis append_take_drop_id pack_append)
  have xs: "\<forall>m\<in>set ?xs. length m < 2 ^ 16" using assms(1) by (auto dest: in_set_takeD)
  have ml: "sum_list (map (\<lambda>m. length m + 2) (take MESSAGE_FETCH_LIMIT (unpack_messages (pack_messages ?xs)))) =
      length (pack_messages (drop ?k ?xs))"
    using page_messages [OF xs, of MESSAGE_FETCH_LIMIT] assms(2) by simp
  have px: "pack_messages ?xs = pack_messages (take ?k msgs) @ pack_messages (drop ?k ?xs)"
  proof -
    have "take ?k ?xs = take ?k msgs" by simp
    then show ?thesis by (metis append_take_drop_id pack_append)
  qed
  have "usize_sub (length (pack_messages ?xs)) (length (pack_messages (drop ?k ?xs))) = Done (length (pack_messages (take ?k msgs)))"
    by (simp add: usize_sub_def px)
  then show ?thesis
    unfolding fetch_page_def Let_def off using sp px ml by (simp add: px)
qed

subsection \<open>Properties\<close>

text \<open>The setting of the witnesses: four other replicators, a chat of one member.\<close>

definition demo_env :: "nat chat_env" where
  "demo_env = \<lparr>ce_lib = toy_lib, ce_verify = (\<lambda>_ _ _. True), ce_checks = True, ce_proposal_buf = 80,
     ce_replicators = (\<lambda>_. [1, 2, 3, 4])\<rparr>"

definition demo_chat :: chat where
  "demo_chat = chat_new (hash_from_raw toy_lib [7]) False"

definition demo_store :: chat_store where
  "demo_store = \<lparr>chats = [[97] \<mapsto> demo_chat], hashes = []\<rparr>"

definition demo_proof :: "chat_name signed_proof" where
  "demo_proof = \<lparr>pf_pk = [7], pf_nonce = 3, pf_signature = [], pf_context = [97]\<rparr>"

lemma demo_env_ok: "env_ok demo_env"
  by (auto simp: env_ok_def demo_env_def toy_lib_def min_def)

lemma demo_granted: "granted demo_env demo_proof demo_store demo_chat member_new"
  by (simp add: granted_def demo_env_def demo_proof_def demo_store_def demo_chat_def proof_verify_def
      chat_new_def member_new_def Let_def)

lemma demo_chat_reach: "chat_reach demo_env demo_store"
proof (rule chat_reach_step [OF chat_reach_init])
  have "create_chat [97] (hash_from_raw toy_lib [7]) \<lparr>chats = Map.empty, hashes = []\<rparr> = Done (demo_store, [], Inr ())"
    by (simp add: create_chat_def put_chat_def demo_store_def demo_chat_def)
  then show "chat_step demo_env \<lparr>chats = Map.empty, hashes = []\<rparr> demo_store" by (rule step_create)
qed







lemma count_proposal_quorum:
  assumes "count_proposal i h proposed others c = Done c'"
  shows "i < length others \<and>
    ((finalized c' \<noteq> finalized c \<or> (\<exists>x w. stage c' = Recovering x w)) \<longrightarrow>
      3 \<le> votes_for h (others[i := h]) + (if map_option bl_hash proposed = Some h then 1 else 0)) \<and>
    (finalized c' \<noteq> finalized c \<longrightarrow> (\<exists>b. proposed = Some b \<and> bl_hash b = h \<and> hd (finalized c') = b)) \<and>
    (\<forall>x w. stage c' = Recovering x w \<longrightarrow> x = h)"
  using assms hd_push_to_finalized
  by (auto simp: count_proposal_def set_other_def Let_def REPLICATION_FACTOR_def block_stage_default_def
      split: if_splits option.splits)


definition demo_block :: block where
  "demo_block = \<lparr>bl_hash = replicate 32 5, bl_data = [1, 0, 1]\<rparr>"

definition demo_voting :: chat where
  "demo_voting = demo_chat\<lparr>block_number := 1,
     stage := Unfinalized (Some demo_block) [replicate 32 5, hash_default, hash_default, hash_default]\<rparr>"


text \<open>The vote slots start as the zero hash, which also counts as a vote: a single replicator
  that proposes the zero hash for a new chat has the whole majority at once and sends the chat
  into recovery, where a build with overflow checks panics on every later proposal or block, as
  the number of the last finalized block would be below zero.\<close>
theorem zero_hash_takes_over:
  fixes env :: "'peer chat_env" and origin :: "('path, 'peer) request_origin"
  assumes "chats s name = Some (chat_new i rst)"
    and "position (\<lambda>r. r = peer) (ce_replicators env name) = Some k" and "k < 4" and "ce_checks env" and "origin = Server peer"
  shows "\<exists>s' c'. propose_msg_block env origin name 0 hash_default s = Done (s', [], Inr ()) \<and>
    chats s' name = Some c' \<and> stage c' = Recovering hash_default False \<and>
    propose_msg_block env origin name number h s' = Panic \<and>
    send_block env origin name number blk s' = Panic"
proof -
  let ?c' = "(chat_new i rst)\<lparr>stage := Recovering hash_default False\<rparr>"
  have upd: "(replicate 4 hash_default)[k := hash_default] = replicate 4 hash_default"
    by (metis list_update_id nth_replicate assms(3))
  have d: "propose_msg_block env origin name 0 hash_default s = Done (put_chat name ?c' s, [], Inr ())"
    using assms upd
    by (simp add: propose_msg_block_def chat_new_def last_finalized_block_def stage_pending_def
        block_stage_default_def count_proposal_def set_other_def votes_for_def REPLICATION_FACTOR_def)
  have "propose_msg_block env origin name number h (put_chat name ?c' s) = Panic"
    "send_block env origin name number blk (put_chat name ?c' s) = Panic"
    using assms(2,4,5) by (simp_all add: propose_msg_block_def send_block_def last_finalized_block_def stage_pending_def
        put_chat_def chat_new_def)
  then show ?thesis using d by (intro exI [of _ "put_chat name ?c' s"] exI [of _ ?c']) (simp add: put_chat_def)
qed

theorem zero_hash_takes_over_witness:
  "\<exists>s' c'. propose_msg_block demo_env (Server 2 :: (unit, nat) request_origin) [97] 0 hash_default demo_store = Done (s', [], Inr ()) \<and>
    chats s' [97] = Some c' \<and> stage c' = Recovering hash_default False \<and>
    propose_msg_block demo_env (Server 2 :: (unit, nat) request_origin) [97] 1 [1] s' = Panic \<and>
    send_block demo_env (Server 2 :: (unit, nat) request_origin) [97] 1 [] s' = Panic"
  by (rule zero_hash_takes_over [where k = 1 and i = "hash_from_raw toy_lib [7]" and rst = False])
    (simp_all add: demo_store_def demo_chat_def demo_env_def)

text \<open>Reading a block of packed messages backwards by the returned offsets yields pages of at
  most twenty messages that end where the previous page began, without a gap or an overlap,
  and never panics.\<close>
theorem fetch_page_walks_back:
  assumes "\<forall>m\<in>set msgs. length m < 2 ^ 16" and "n \<le> length msgs"
    and "if cu_offset cur = 0 then n = length msgs else cu_offset cur = length (pack_messages (take n msgs))"
  shows "\<exists>page start. fetch_page cur (pack_messages msgs) = Done (cur\<lparr>cu_offset := start\<rparr>, page) \<and>
    start = length (pack_messages (take (n - 20) msgs)) \<and>
    page = pack_messages (drop (n - 20) (take n msgs)) \<and>
    pack_messages (take n msgs) = pack_messages (take (n - 20) msgs) @ page \<and>
    length (unpack_messages page) \<le> 20"
proof -
  let ?page = "drop (n - 20) (take n msgs)"
  have "\<forall>m\<in>set ?page. length m < 2 ^ 16" using assms(1) by (auto dest!: in_set_dropD in_set_takeD)
  then have "unpack_messages (pack_messages ?page) = rev ?page" by (rule unpack_pack)
  moreover have "take n msgs = take (n - 20) msgs @ ?page"
    using append_take_drop_id [of "n - 20" "take n msgs"] by simp
  then have "pack_messages (take n msgs) = pack_messages (take (n - 20) msgs) @ pack_messages ?page"
    using pack_append by metis
  ultimately show ?thesis using fetch_page_packed [OF assms] assms(2)
    by (simp add: MESSAGE_FETCH_LIMIT_def)
qed

theorem fetch_page_walks_back_witness:
  "\<exists>page start. fetch_page \<lparr>cu_block = 3, cu_offset = 0\<rparr> (pack_messages [[1], [2, 2]]) =
      Done (\<lparr>cu_block = 3, cu_offset = start\<rparr>, page) \<and> start = 0 \<and> page = pack_messages [[1], [2, 2]]"
proof -
  have "\<forall>m\<in>set [[1], [2, 2] :: bytes]. length m < 2 ^ 16" by simp
  from fetch_page_walks_back [OF this, of 2 "\<lparr>cu_block = 3, cu_offset = 0\<rparr>"]
  show ?thesis by (simp add: pack_messages_def)
qed

text \<open>A client that has read the current block to its beginning asks with offset zero; the
  handler then raises the block of the cursor instead of lowering it and serves the newest page
  of the current block again, so earlier blocks are never reached this way.\<close>
theorem fetch_restarts:
  assumes "chats s name = Some c" and "chat_ok c" and "current_block c \<noteq> []"
    and "block_number c \<noteq> 0" and "block_number c + 1 \<noteq> 0"
  shows "\<exists>start page. fetch_messages checks name CURSOR_INIT s =
      Done (Inr (\<lparr>cu_block = block_number c, cu_offset = start\<rparr>, page)) \<and> page \<noteq> [] \<and>
    fetch_messages checks name \<lparr>cu_block = block_number c, cu_offset = 0\<rparr> s =
      Done (Inr (\<lparr>cu_block = block_number c + 1, cu_offset = start\<rparr>, page))"
proof -
  obtain msgs where msgs: "current_block c = pack_messages msgs" "\<forall>m\<in>set msgs. length m < 2 ^ 16"
    using assms(2) by (auto simp: chat_ok_def)
  let ?n = "length msgs"
  let ?start = "length (pack_messages (take (?n - MESSAGE_FETCH_LIMIT) msgs))"
  let ?page = "pack_messages (drop (?n - MESSAGE_FETCH_LIMIT) msgs)"
  have bn: "block_number c \<noteq> - 1" using assms(5) by (metis add.left_inverse)
  have "unat (block_number c + 1) \<noteq> 0" using assms(5) by (simp add: unat_eq_0)
  then have bn1: "unat (block_number c + 1) = Suc (unat (block_number c))"
    using unat_less_exp [of "block_number c"] by (simp add: unat_word_ariths mod_Suc split: if_splits)
  have sat: "saturating_sub_u64 (block_number c) (block_number c) = 0"
    "saturating_sub_u64 (block_number c) (block_number c + 1) = 0"
    using bn1 by (auto simp: saturating_sub_u64_def word_le_nat_alt)
  have page: "fetch_page cur (current_block c) = Done (cur\<lparr>cu_offset := ?start\<rparr>, ?page)"
    if "cu_offset cur = 0 \<or> cu_offset cur = length (current_block c)" for cur
    using fetch_page_packed [OF msgs(2), of ?n cur] that assms(3) by (auto simp: msgs(1))
  have ne: "msgs \<noteq> []" using assms(3) msgs(1) by (auto simp: pack_messages_def)
  then have "?n - MESSAGE_FETCH_LIMIT < ?n" by (cases msgs) (simp_all add: MESSAGE_FETCH_LIMIT_def)
  then have "drop (?n - MESSAGE_FETCH_LIMIT) msgs \<noteq> []" by simp
  then have pne: "?page \<noteq> []" by (cases "drop (?n - MESSAGE_FETCH_LIMIT) msgs") (auto simp: pack_messages_def encode_len_def u16_to_be_bytes_def)
  have "fetch_messages checks name CURSOR_INIT s =
      Done (Inr (\<lparr>cu_block = block_number c, cu_offset = ?start\<rparr>, ?page))"
    using assms(1,3) page [of "\<lparr>cu_block = block_number c, cu_offset = length (current_block c)\<rparr>"]
    by (simp add: fetch_messages_def Let_def sat fetch_blocks_def)
  moreover have "fetch_messages checks name \<lparr>cu_block = block_number c, cu_offset = 0\<rparr> s =
      Done (Inr (\<lparr>cu_block = block_number c + 1, cu_offset = ?start\<rparr>, ?page))"
    using assms(1,4) bn page [of "\<lparr>cu_block = block_number c + 1, cu_offset = 0\<rparr>"]
    by (simp add: fetch_messages_def Let_def sat fetch_blocks_def CURSOR_INIT_def)
  ultimately show ?thesis using pne by blast
qed

definition demo_history :: chat where
  "demo_history = demo_chat\<lparr>block_number := 1, current_block := pack_messages [[1]], finalized := [demo_block]\<rparr>"

theorem fetch_restarts_witness:
  "\<exists>start page. fetch_messages True [97] CURSOR_INIT \<lparr>chats = [[97] \<mapsto> demo_history], hashes = []\<rparr> =
      Done (Inr (\<lparr>cu_block = 1, cu_offset = start\<rparr>, page)) \<and> page \<noteq> [] \<and>
    fetch_messages True [97] \<lparr>cu_block = 1, cu_offset = 0\<rparr> \<lparr>chats = [[97] \<mapsto> demo_history], hashes = []\<rparr> =
      Done (Inr (\<lparr>cu_block = 2, cu_offset = start\<rparr>, page))"
proof -
  have ok: "chat_ok demo_history"
    using chat_ok_new [of "hash_from_raw toy_lib [7]" False] unfolding chat_ok_alt
    by (auto simp: demo_history_def demo_chat_def chat_new_def BLOCK_HISTORY_def BLOCK_SIZE_def
        pack_messages_def encode_len_def intro: exI [of _ "[[1]]"])
  have "current_block demo_history \<noteq> []"
    by (simp add: demo_history_def pack_messages_def)
  from fetch_restarts [of "\<lparr>chats = [[97] \<mapsto> demo_history], hashes = []\<rparr>" "[97]" demo_history True, OF _ ok this]
  show ?thesis by (simp add: demo_history_def)
qed

text \<open>A chat in recovery that receives the block it waits for keeps it as finalized, drops the
  messages of the block from the current one, but stays in recovery with the same block number:
  the same block is accepted and stored again each time it is sent.\<close>
theorem recovery_never_ends:
  fixes env :: "'peer chat_env" and origin :: "('path, 'peer) request_origin"
  assumes "chats s name = Some c" and "chat_ok c" and "stage c = Recovering h w" and "block_number c = number + 1"
    and "number + 1 \<noteq> 0" and "position (\<lambda>r. Server r = origin) (ce_replicators env name) = Some k"
    and "hash_block (ce_lib env) blk = Done (h, hs)"
  shows "\<exists>s' c'. send_block env origin name number blk s = Done (s', [], Inr ()) \<and> chats s' name = Some c' \<and>
    chat_ok c' \<and> stage c' = stage c \<and> block_number c' = block_number c \<and>
    hd (finalized c') = \<lparr>bl_hash = h, bl_data = blk\<rparr> \<and>
    unpack_messages (current_block c') =
      filter (\<lambda>m. hash_from_slice (ce_lib env) m \<notin> set hs) (unpack_messages (current_block c))"
proof -
  let ?q = "\<lambda>m. hash_from_slice (ce_lib env) m \<notin> set hs"
  obtain msgs where msgs: "current_block c = pack_messages msgs" "\<forall>m\<in>set msgs. length m < 2 ^ 16"
    using assms(2) by (auto simp: chat_ok_def)
  let ?cur = "pack_messages (filter ?q msgs)"
  let ?c' = "push_to_finalized \<lparr>bl_hash = h, bl_data = blk\<rparr> (c\<lparr>current_block := ?cur\<rparr>)"
  obtain mem wc where "retain_messages (\<lambda>u m. (?q m, m, u)) () (pack_messages msgs) = Done ((), mem, wc)"
    "wc \<le> length mem" "drop wc mem = ?cur"
    using retain_messages_correct [of "\<lambda>u m. (?q m, m, u)" "()" "pack_messages msgs"] retain_spec_filter [OF msgs(2), of ?q "()"]
    by auto
  then have ret: "retain_messages_in_vec (\<lambda>u m. (?q m, m, u)) () (current_block c) = Done ((), ?cur)"
    by (simp add: retain_messages_in_vec_def msgs(1))
  have lf: "last_finalized_block (ce_checks env) c = Done number"
    using assms(3-5) by (simp add: last_finalized_block_def stage_pending_def)
  have d: "send_block env origin name number blk s = Done ((put_chat name ?c' s)\<lparr>hashes := hs\<rparr>, [], Inr ())"
    using assms(1,3,6,7) lf ret by (simp add: send_block_def)
  have "chat_ok ?c'" using retain_current_ok [OF assms(2) ret] by (rule chat_ok_finalized)
  moreover have "\<forall>m\<in>set (filter ?q msgs). length m < 2 ^ 16" using msgs(2) by simp
  ultimately show ?thesis using d hd_push_to_finalized unpack_pack msgs
    by (intro exI [of _ "(put_chat name ?c' s)\<lparr>hashes := hs\<rparr>"] exI [of _ ?c']) (simp add: put_chat_def rev_filter)
qed

definition demo_recovering :: chat where
  "demo_recovering = demo_chat\<lparr>block_number := 1, stage := Recovering (hash_from_slice toy_lib [9]) False\<rparr>"

theorem recovery_never_ends_witness:
  "\<exists>s' c'. send_block demo_env (Server 4 :: (unit, nat) request_origin) [97] 0 (pack_messages [[9]])
      \<lparr>chats = [[97] \<mapsto> demo_recovering], hashes = []\<rparr> = Done (s', [], Inr ()) \<and>
    chats s' [97] = Some c' \<and> stage c' = stage demo_recovering \<and> block_number c' = 1"
proof -
  have ok: "chat_ok demo_recovering"
    using chat_ok_new [of "hash_from_raw toy_lib [7]" False] by (simp add: chat_ok_alt demo_recovering_def demo_chat_def)
  have "unpack_messages (pack_messages [[9]]) = [[9]]" by (simp add: unpack_pack)
  then have hb: "hash_block (ce_lib demo_env) (pack_messages [[9]]) = Done (hash_from_slice toy_lib [9], [hash_from_slice toy_lib [9]])"
    by (simp add: hash_block_def demo_env_def)
  have st: "stage demo_recovering = Recovering (hash_from_slice toy_lib [9]) False" "block_number demo_recovering = 0 + 1"
    by (simp_all add: demo_recovering_def)
  have pos: "position (\<lambda>r. (Server r :: (unit, nat) request_origin) = Server 4) (ce_replicators demo_env [97]) = Some 3"
    by (simp add: demo_env_def)
  from recovery_never_ends [OF _ ok st(1,2) _ pos hb, of "\<lparr>chats = [[97] \<mapsto> demo_recovering], hashes = []\<rparr>"]
  show ?thesis using st(2) by (auto simp: st(2))
qed

end
