(* ===== verification/Profile_Server.thy ===== *)
theory Profile_Server
  imports Server_Context
begin

section \<open>The profile handlers (\<open>nodes/server/src/handlers/profile.rs\<close>)\<close>

text \<open>
  The profiles of a server, the origins its users were last seen at, and the handlers: creating
  a profile, its vault, reading and sending mail, with the forwarding of mail to a client or to
  another server and the resumption when that server answers. The rpc request to another server
  is the argument \<open>request\<close> (the id of the call, or a failure); decoding its response to
  \<open>SentDirectly\<close> is the boolean of the event.
\<close>

definition MAIL_BOX_CAP :: nat where
  "MAIL_BOX_CAP = 1024 * 1024"

record ('path, 'peer, 'call) profile_store =
  profiles :: "identity \<rightharpoonup> profile"
  online :: "identity \<rightharpoonup> ('path, 'peer) request_origin"
  clients :: "('path, 'call) client_stream list"

type_synonym verifier = "bytes \<Rightarrow> bytes \<Rightarrow> bytes \<Rightarrow> bool"

definition put_profile :: "identity \<Rightarrow> profile \<Rightarrow> ('path, 'peer, 'call) profile_store \<Rightarrow>
    ('path, 'peer, 'call) profile_store" where
  "put_profile i p s = s\<lparr>profiles := (profiles s)(i \<mapsto> p)\<rparr>"

definition fetch_profile :: "identity \<Rightarrow> ('path, 'peer, 'call) profile_store \<Rightarrow> fetch_profile_error + (bytes \<times> bytes)" where
  "fetch_profile i s = (case profiles s i of None \<Rightarrow> Inl FPNotFound | Some p \<Rightarrow> Inr (fetch_profile_resp p))"

definition fetch_full_profile :: "identity \<Rightarrow> ('path, 'peer, 'call) profile_store \<Rightarrow> fetch_profile_error + profile" where
  "fetch_full_profile i s = (case profiles s i of None \<Rightarrow> Inl FPNotFound | Some p \<Rightarrow> Inr p)"

definition create_profile :: "crypto_lib \<Rightarrow> verifier \<Rightarrow> bytes signed_proof \<Rightarrow> bytes \<Rightarrow> ('path, 'peer, 'call) profile_store \<Rightarrow>
    ('path, 'peer, 'call) profile_store \<times> (create_account_error + unit)" where
  "create_profile L v p enc s =
     (if \<not> proof_verify v (slice_context L) p then (s, Inl CRInvalidProof)
      else
        let user_id = hash_from_raw L (pf_pk p) in
        case profiles s user_id of
          None \<Rightarrow> (put_profile user_id \<lparr>pr_sign = pf_pk p, pr_enc = enc, last_sig = pf_signature p,
              vault_version = pf_nonce p, mail_action = pf_nonce p, vault = pf_context p, mail = []\<rparr> s, Inr ())
        | Some account \<Rightarrow>
            if vault_version account < pf_nonce p
            then (put_profile user_id (account\<lparr>vault_version := pf_nonce p, last_sig := pf_signature p,
                vault := pf_context p\<rparr>) s, Inr ())
            else (s, Inl CRAlreadyExists))"

definition set_vault :: "crypto_lib \<Rightarrow> verifier \<Rightarrow> bytes signed_proof \<Rightarrow> ('path, 'peer, 'call) profile_store \<Rightarrow>
    ('path, 'peer, 'call) profile_store \<times> (set_vault_error + unit)" where
  "set_vault L v p s =
     (if \<not> proof_verify v (slice_context L) p then (s, Inl SVInvalidProof)
      else
        let i = hash_from_raw L (pf_pk p) in
        case profiles s i of
          None \<Rightarrow> (s, Inl SVNotFound)
        | Some pr \<Rightarrow>
            (case advance_nonce (vault_version pr) (pf_nonce p) of
               (False, _) \<Rightarrow> (s, Inl SVInvalidAction)
             | (True, n) \<Rightarrow> (put_profile i (pr\<lparr>vault_version := n, last_sig := pf_signature p, vault := pf_context p\<rparr>) s, Inr ())))"

definition fetch_vault :: "identity \<Rightarrow> ('path, 'peer, 'call) profile_store \<Rightarrow> fetch_vault_error + (nonce \<times> nonce \<times> bytes)" where
  "fetch_vault i s =
     (case profiles s i of None \<Rightarrow> Inl FVNotFound
      | Some p \<Rightarrow> Inr (vault_version p, mail_action p, vault p))"

definition handle_read_mail :: "crypto_lib \<Rightarrow> verifier \<Rightarrow> ('path, 'peer) request_origin \<Rightarrow> unit signed_proof \<Rightarrow>
    ('path, 'peer, 'call) profile_store \<Rightarrow> ('path, 'peer, 'call) profile_store \<times> (read_mail_error + bytes)" where
  "handle_read_mail L v origin p s =
     (if \<not> proof_verify v mail_context p then (s, Inl RMInvalidProof)
      else
        let i = hash_from_raw L (pf_pk p) in
        case profiles s i of
          None \<Rightarrow> (s, Inl RMNotFound)
        | Some pr \<Rightarrow>
            (case advance_nonce (mail_action pr) (pf_nonce p) of
               (False, _) \<Rightarrow> (s, Inl RMInvalidAction)
             | (True, n) \<Rightarrow>
                 (case read_mail (pr\<lparr>mail_action := n\<rparr>) of
                    (content, pr') \<Rightarrow>
                      ((put_profile i pr' s)\<lparr>online := (online s)(i \<mapsto> origin)\<rparr>, Inr content))))"

text \<open>\<open>SendMail\<close>: \<open>Inr\<close> is a response, \<open>Inl\<close> the handler that waits for the other server.\<close>

record 'call send_mail_handler =
  dm :: 'call
  for_who :: identity

definition clear_presence :: "'call send_mail_handler \<Rightarrow> ('path, 'peer, 'call) profile_store \<Rightarrow>
    ('path, 'peer, 'call) profile_store \<times> ('call send_mail_handler + (send_mail_error + unit))" where
  "clear_presence h s = (s\<lparr>online := (online s)(for_who h := None)\<rparr>, Inr (Inr ()))"

definition pop_pushed_mail :: "'call send_mail_handler \<Rightarrow> ('path, 'peer, 'call) profile_store \<Rightarrow>
    ('path, 'peer, 'call) profile_store \<times> ('call send_mail_handler + (send_mail_error + unit))" where
  "pop_pushed_mail h s =
     ((case profiles s (for_who h) of None \<Rightarrow> s | Some p \<Rightarrow> put_profile (for_who h) (p\<lparr>mail := []\<rparr>) s),
      Inr (Inl SentDirectly))"

definition send_mail ::
  "(('path, 'call) client_stream \<Rightarrow> bool) \<Rightarrow> ('peer \<Rightarrow> identity \<times> bytes \<Rightarrow> 'call option) \<Rightarrow>
   ('path, 'peer) request_origin \<Rightarrow> identity \<Rightarrow> bytes \<Rightarrow> ('path, 'peer, 'call) profile_store \<Rightarrow>
   ('path, 'peer, 'call) profile_store \<times> ('call send_mail_handler + (send_mail_error + unit))" where
  "send_mail accepts request origin who content s =
     (case profiles s who of
        None \<Rightarrow> (s, Inr (Inl SMNotFound))
      | Some p \<Rightarrow>
          if \<not> length (mail p) + length content < MAIL_BOX_CAP then (s, Inr (Inl MailboxFull))
          else (case online s who of
              None \<Rightarrow> (put_profile who (push_mail content p) s, Inr (Inr ()))
            | Some (Client path) \<Rightarrow>
                if Client path = origin then (s, Inr (Inl SendingToSelf))
                else (case push_notification accepts (clients s) who content path of
                    (True, cs) \<Rightarrow> (s\<lparr>clients := cs\<rparr>, Inr (Inl SentDirectly))
                  | (False, cs) \<Rightarrow> ((put_profile who (push_mail content p) s)
                        \<lparr>online := (online s)(who := None), clients := cs\<rparr>, Inr (Inr ())))
            | Some (Server peer) \<Rightarrow>
                let s1 = put_profile who (push_mail content p) s in
                (case origin of
                   Server _ \<Rightarrow> (s1\<lparr>online := (online s1)(who := None)\<rparr>, Inr (Inr ()))
                 | Client _ \<Rightarrow>
                     (case request peer (who, content) of
                        Some call \<Rightarrow> (s1, Inl \<lparr>dm = call, for_who = who\<rparr>)
                      | None \<Rightarrow> (s1, Inr (Inr ()))))))"

text \<open>
  The rpc event a handler is resumed with: the response to a call (\<open>Some d\<close> when bytes came
  back, \<open>d\<close> telling whether they decode to \<open>SentDirectly\<close>; \<open>None\<close> when the call failed), or
  another event.
\<close>

datatype 'call rpc_event = RpcResponse 'call "bool option" | RpcOther

definition send_mail_resume :: "'call send_mail_handler \<Rightarrow> 'call rpc_event \<Rightarrow> ('path, 'peer, 'call) profile_store \<Rightarrow>
    ('path, 'peer, 'call) profile_store \<times> ('call send_mail_handler + (send_mail_error + unit))" where
  "send_mail_resume h ev s =
     (case ev of
        RpcOther \<Rightarrow> (s, Inl h)
      | RpcResponse call res \<Rightarrow>
          if call \<noteq> dm h then (s, Inl h)
          else (case res of
              None \<Rightarrow> clear_presence h s
            | Some sent_directly \<Rightarrow> if sent_directly then pop_pushed_mail h s else clear_presence h s))"

subsection \<open>The invariant\<close>

text \<open>
  A profile is filed under the hash of its key, one of the keys \<open>K\<close> in use, its vault is signed by that key under its
  version, and its mail box exceeds the cap by at most one byte (the two bytes of a mail's length
  are not counted).
\<close>

definition profile_ok :: "bytes set \<Rightarrow> crypto_lib \<Rightarrow> verifier \<Rightarrow> identity \<Rightarrow> profile \<Rightarrow> bool" where
  "profile_ok K L v i p \<longleftrightarrow> pr_sign p \<in> K \<and> i = hash_from_raw L (pr_sign p) \<and> profile_is_valid v L p \<and>
     length (mail p) \<le> MAIL_BOX_CAP + 1"

definition profiles_ok :: "bytes set \<Rightarrow> crypto_lib \<Rightarrow> verifier \<Rightarrow> ('path, 'peer, 'call) profile_store \<Rightarrow> bool" where
  "profiles_ok K L v s \<longleftrightarrow> (\<forall>i p. profiles s i = Some p \<longrightarrow> profile_ok K L v i p)"

inductive profile_step :: "bytes set \<Rightarrow> crypto_lib \<Rightarrow> verifier \<Rightarrow> ('path, 'peer, 'call) profile_store \<Rightarrow>
    ('path, 'peer, 'call) profile_store \<Rightarrow> bool" for K L v where
  pstep_create: "pf_pk p \<in> K \<Longrightarrow> create_profile L v p enc s = (s', r) \<Longrightarrow> profile_step K L v s s'"
| pstep_vault: "pf_pk p \<in> K \<Longrightarrow> set_vault L v p s = (s', r) \<Longrightarrow> profile_step K L v s s'"
| pstep_read: "handle_read_mail L v origin q s = (s', r) \<Longrightarrow> profile_step K L v s s'"
| pstep_send: "send_mail accepts request origin who content s = (s', r) \<Longrightarrow> profile_step K L v s s'"
| pstep_resume: "send_mail_resume h ev s = (s', r) \<Longrightarrow> profile_step K L v s s'"

inductive_cases profile_stepE: "profile_step K L v s s'"

lemma put_profile_ok: "profiles_ok K L v s \<Longrightarrow> profile_ok K L v i p \<Longrightarrow> profiles_ok K L v (put_profile i p s)"
  by (simp add: profiles_ok_def put_profile_def)

lemma profiles_ok_other [simp]:
  "profiles_ok K L v (s\<lparr>online := x\<rparr>) = profiles_ok K L v s" "profiles_ok K L v (s\<lparr>clients := y\<rparr>) = profiles_ok K L v s"
  by (simp_all add: profiles_ok_def)

lemma profile_ok_push:
  "profile_ok K L v i p \<Longrightarrow> length (mail p) + length content < MAIL_BOX_CAP \<Longrightarrow> profile_ok K L v i (push_mail content p)"
  by (simp add: profile_ok_def push_mail_def profile_is_valid_def encode_len_def)

lemma profile_ok_mail:
  "profile_ok K L v i p \<Longrightarrow> profile_ok K L v i (p\<lparr>mail := []\<rparr>)"
  "profile_ok K L v i p \<Longrightarrow> profile_ok K L v i (p\<lparr>mail_action := n, mail := []\<rparr>)"
  by (simp_all add: profile_ok_def profile_is_valid_def)

lemma profile_ok_vault:
  assumes "proof_verify v (slice_context L) q" and "profile_ok K L v (hash_from_raw L (pf_pk q)) p" and "pr_sign p = pf_pk q"
  shows "profile_ok K L v (hash_from_raw L (pf_pk q))
    (p\<lparr>vault_version := pf_nonce q, last_sig := pf_signature q, vault := pf_context q\<rparr>)"
  using assms by (simp add: profile_ok_def profile_is_valid_def proof_verify_def Let_def)

text \<open>
  The keys in use have distinct hashes. Two keys with the same digest would share a profile.
\<close>

definition keys_identified :: "bytes set \<Rightarrow> crypto_lib \<Rightarrow> bool" where
  "keys_identified K L \<longleftrightarrow> inj_on (hash_from_raw L) K"

lemma stored_key:
  "keys_identified K L \<Longrightarrow> profiles_ok K L v s \<Longrightarrow> profiles s (hash_from_raw L k) = Some p \<Longrightarrow> k \<in> K \<Longrightarrow> pr_sign p = k"
  by (auto simp: keys_identified_def profiles_ok_def profile_ok_def inj_on_def)

lemma create_profile_ok:
  assumes "create_profile L v q enc s = (s', r)" and "profiles_ok K L v s" and "keys_identified K L"
    and "pf_pk q \<in> K"
  shows "profiles_ok K L v s'"
proof (cases "proof_verify v (slice_context L) q")
  case False
  then show ?thesis using assms(1,2) by (simp add: create_profile_def)
next
  case True
  let ?i = "hash_from_raw L (pf_pk q)"
  show ?thesis
  proof (cases "profiles s ?i")
    case None
    have "profile_ok K L v ?i \<lparr>pr_sign = pf_pk q, pr_enc = enc, last_sig = pf_signature q,
        vault_version = pf_nonce q, mail_action = pf_nonce q, vault = pf_context q, mail = []\<rparr>"
      using True assms(4) by (simp add: profile_ok_def profile_is_valid_def proof_verify_def Let_def)
    then show ?thesis using assms(1,2) True None by (auto simp: create_profile_def Let_def intro: put_profile_ok)
  next
    case (Some p)
    have "profile_ok K L v ?i (p\<lparr>vault_version := pf_nonce q, last_sig := pf_signature q, vault := pf_context q\<rparr>)"
      using assms(2) Some by (intro profile_ok_vault [OF True]) (auto simp: profiles_ok_def stored_key [OF assms(3,2) _ assms(4)])
    then show ?thesis using assms(1,2) True Some
      by (auto simp: create_profile_def Let_def intro: put_profile_ok split: if_splits)
  qed
qed

lemma set_vault_ok:
  assumes "set_vault L v q s = (s', r)" and "profiles_ok K L v s" and "keys_identified K L"
    and "pf_pk q \<in> K"
  shows "profiles_ok K L v s'"
proof (cases "s' = s")
  case True
  then show ?thesis using assms(2) by simp
next
  case False
  then obtain p where p: "proof_verify v (slice_context L) q" "profiles s (hash_from_raw L (pf_pk q)) = Some p"
    "s' = put_profile (hash_from_raw L (pf_pk q))
       (p\<lparr>vault_version := pf_nonce q, last_sig := pf_signature q, vault := pf_context q\<rparr>) s"
    using assms(1) by (auto simp: set_vault_def advance_nonce_def Let_def split: if_splits option.splits)
  have "profile_ok K L v (hash_from_raw L (pf_pk q)) p" using assms(2) p(2) by (simp add: profiles_ok_def)
  then show ?thesis unfolding p(3)
    using profile_ok_vault [OF p(1)] stored_key [OF assms(3,2) p(2) assms(4)] assms(2) by (intro put_profile_ok)
qed

lemma read_mail_ok:
  "handle_read_mail L v origin q s = (s', r) \<Longrightarrow> profiles_ok K L v s \<Longrightarrow> profiles_ok K L v s'"
  by (auto simp: handle_read_mail_def advance_nonce_def read_mail_def Let_def profiles_ok_def put_profile_def
      profile_ok_mail split: if_splits option.splits)

lemma send_mail_ok:
  assumes "send_mail accepts request origin who content s = (s', r)" and "profiles_ok K L v s"
  shows "profiles_ok K L v s'"
proof -
  have "profiles s' = profiles s \<or> (\<exists>p. profiles s who = Some p \<and> length (mail p) + length content < MAIL_BOX_CAP \<and>
      profiles s' = (profiles s)(who \<mapsto> push_mail content p))"
    using assms(1) by (auto simp: send_mail_def put_profile_def Let_def split: option.splits if_splits
        request_origin.splits prod.splits bool.splits)
  then show ?thesis using assms(2) by (auto simp: profiles_ok_def profile_ok_push split: if_splits)
qed

lemma send_mail_resume_ok:
  "send_mail_resume h ev s = (s', r) \<Longrightarrow> profiles_ok K L v s \<Longrightarrow> profiles_ok K L v s'"
  by (auto simp: send_mail_resume_def clear_presence_def pop_pushed_mail_def put_profile_def profiles_ok_def
      profile_ok_mail split: rpc_event.splits if_splits option.splits)

lemma profile_step_ok:
  "profile_step K L v s s' \<Longrightarrow> keys_identified K L \<Longrightarrow> profiles_ok K L v s \<Longrightarrow> profiles_ok K L v s'"
  by (erule profile_stepE)
    (auto dest: create_profile_ok set_vault_ok read_mail_ok send_mail_ok send_mail_resume_ok)

subsection \<open>Properties\<close>

inductive profile_reach :: "bytes set \<Rightarrow> crypto_lib \<Rightarrow> verifier \<Rightarrow> ('path, 'peer, 'call) profile_store \<Rightarrow> bool" for K L v where
  preach_init: "profile_reach K L v \<lparr>profiles = Map.empty, online = Map.empty, clients = cs\<rparr>"
| preach_step: "profile_reach K L v s \<Longrightarrow> profile_step K L v s s' \<Longrightarrow> profile_reach K L v s'"

lemma profile_reach_ok: "profile_reach K L v s \<Longrightarrow> keys_identified K L \<Longrightarrow> profiles_ok K L v s"
  by (induction rule: profile_reach.induct)
    (auto simp: profiles_ok_def [of _ _ _ "\<lparr>profiles = Map.empty, online = Map.empty, clients = _\<rparr>"] dest: profile_step_ok)

definition id_lib :: crypto_lib where
  "id_lib = toy_lib\<lparr>blake3 := (\<lambda>d. d)\<rparr>"

definition demo_vault :: "nonce \<Rightarrow> bytes signed_proof" where
  "demo_vault n = \<lparr>pf_pk = [7], pf_nonce = n, pf_signature = [1], pf_context = [5, 5]\<rparr>"

definition demo_profile :: profile where
  "demo_profile = \<lparr>pr_sign = [7], pr_enc = [8], last_sig = [1], vault_version = 2, mail_action = 2, vault = [5, 5], mail = []\<rparr>"

definition demo_profiles :: "(nat, nat, nat) profile_store" where
  "demo_profiles = \<lparr>profiles = [[7] \<mapsto> demo_profile], online = Map.empty, clients = []\<rparr>"

lemma id_lib_keys: "keys_identified UNIV id_lib"
  by (simp add: keys_identified_def hash_from_raw_def id_lib_def inj_on_def)

lemma demo_profiles_reach: "profile_reach UNIV id_lib (\<lambda>_ _ _. True) demo_profiles"
proof (rule preach_step [OF preach_init])
  have "create_profile id_lib (\<lambda>_ _ _. True) (demo_vault 2) [8] \<lparr>profiles = Map.empty, online = Map.empty, clients = []\<rparr> =
      (demo_profiles, Inr ())"
    by (simp add: create_profile_def proof_verify_def demo_vault_def demo_profiles_def demo_profile_def put_profile_def
        hash_from_raw_def id_lib_def Let_def)
  then show "profile_step UNIV id_lib (\<lambda>_ _ _. True) \<lparr>profiles = Map.empty, online = Map.empty, clients = []\<rparr> demo_profiles"
    by (rule pstep_create [rotated]) simp
qed



text \<open>What a step may do to a stored profile.\<close>

definition profile_le :: "profile \<Rightarrow> profile \<Rightarrow> bool" where
  "profile_le p p' \<longleftrightarrow> pr_sign p' = pr_sign p \<and> pr_enc p' = pr_enc p \<and> mail_action p \<le> mail_action p' \<and>
     (vault_version p < vault_version p' \<or>
      vault_version p' = vault_version p \<and> vault p' = vault p \<and> last_sig p' = last_sig p)"

lemma profile_le_simps [simp]:
  "profile_le p p" "profile_le p (push_mail c p)" "profile_le p (p\<lparr>mail := x\<rparr>)"
  "mail_action p < n \<Longrightarrow> profile_le p (p\<lparr>mail_action := n, mail := x\<rparr>)"
  "vault_version p < n \<Longrightarrow> profile_le p (p\<lparr>vault_version := n, last_sig := sg, vault := va\<rparr>)"
  by (simp_all add: profile_le_def push_mail_def)





text \<open>When mail of a client is forwarded to the server its recipient is online at, and that
  server reports that it delivered the mail, the local copy is taken back by clearing the whole
  mail box: every mail that was waiting there is lost.\<close>
theorem forwarding_loses_mail:
  assumes "profiles s who = Some p" and "online s who = Some (Server peer)"
    and "length (mail p) + length content < MAIL_BOX_CAP" and "request peer (who, content) = Some call"
  shows "\<exists>s1 h s2. send_mail accepts request (Client path) who content s = (s1, Inl h) \<and>
    send_mail_resume h (RpcResponse call (Some True)) s1 = (s2, Inr (Inl SentDirectly)) \<and>
    profiles s2 who = Some (p\<lparr>mail := []\<rparr>)"
  using assms by (simp add: send_mail_def send_mail_resume_def pop_pushed_mail_def put_profile_def push_mail_def Let_def)

theorem forwarding_loses_mail_witness:
  "\<exists>s1 h s2. send_mail (\<lambda>_. True) (\<lambda>_ _. Some 4) (Client 1) [7] [9]
      \<lparr>profiles = [[7] \<mapsto> push_mail [1, 2, 3] demo_profile], online = [[7] \<mapsto> Server 2], clients = [] :: (nat, nat) client_stream list\<rparr> = (s1, Inl h) \<and>
    send_mail_resume h (RpcResponse 4 (Some True)) s1 = (s2, Inr (Inl SentDirectly)) \<and>
    profiles s2 [7] = Some ((push_mail [1, 2, 3] demo_profile)\<lparr>mail := []\<rparr>)"
  by (rule forwarding_loses_mail [where peer = 2])
    (simp_all add: push_mail_def demo_profile_def MAIL_BOX_CAP_def encode_len_def)

end
