(* ===== verification/Kyber_Ntt.thy ===== *)
theory Kyber_Ntt
  imports Prelude
begin

section \<open>Kyber: modular reduction and the number theoretic transform (\<open>utils/kyber/src\<close>)\<close>

text \<open>
  The arithmetic core of the lattice key exchange: \<open>barrett.rs\<close>, \<open>mondgomery.rs\<close> and
  \<open>ntt.rs\<close>. A value of type \<open>i16\<close> or \<open>i32\<close> is an integer, and every operation
  that can leave the type's range wraps it explicitly (\<open>as_i16\<close>, \<open>as_i32\<close>), which is
  also what the \<open>as\<close> casts of the code do; \<open>>>\<close> on a signed value is the arithmetic
  shift. The lemmas show that on the inputs the code works with nothing wraps, that both reductions
  are the residue they stand for, and that the inverse transform undoes the forward one.
\<close>

definition KYBER_N :: nat where
  "KYBER_N = 256"

definition KYBER_Q :: int where
  "KYBER_Q = 3329"

definition as_i16 :: "int \<Rightarrow> int" where
  "as_i16 x = signed_take_bit 15 x"

definition as_i32 :: "int \<Rightarrow> int" where
  "as_i32 x = signed_take_bit 31 x"

subsection \<open>The reductions\<close>

definition BARRETT_V :: int where
  "BARRETT_V = as_i16 ((push_bit 26 1 + KYBER_Q div 2) div KYBER_Q)"

definition barrett_reduce :: "int \<Rightarrow> int" where
  "barrett_reduce a =
     (let t = drop_bit 26 (as_i32 (BARRETT_V * a + push_bit 25 1)) in
      as_i16 (a - as_i16 (as_i32 (t * KYBER_Q))))"

definition QINV :: int where
  "QINV = -3327"

definition montgomery_reduce :: "int \<Rightarrow> int" where
  "montgomery_reduce a =
     (let t = as_i16 (as_i16 a * QINV);
          t' = drop_bit 16 (as_i32 (a - as_i32 (t * KYBER_Q))) in
      as_i16 t')"

subsection \<open>The transform\<close>

definition ZETAS :: "int list" where
  "ZETAS = [
    -1044, -758, -359, -1517, 1493, 1422, 287, 202, -171, 622, 1577, 182, 962, -1202, -1474, 1468,
    573, -1325, 264, 383, -829, 1458, -1602, -130, -681, 1017, 732, 608, -1542, 411, -205, -1571,
    1223, 652, -552, 1015, -1293, 1491, -282, -1544, 516, -8, -320, -666, -1618, -1162, 126, 1469,
    -853, -90, -271, 830, 107, -1421, -247, -951, -398, 961, -1508, -725, 448, -1065, 677, -1275,
    -1103, 430, 555, 843, -1251, 871, 1550, 105, 422, 587, 177, -235, -291, -460, 1574, 1653, -246,
    778, 1159, -147, -777, 1483, -602, 1119, -1590, 644, -872, 349, 418, 329, -156, -75, 817, 1097,
    603, 610, 1322, -1285, -1465, 384, -1215, -136, 1218, -1335, -874, 220, -1187, -1659, -1185,
    -1530, -1278, 794, -1510, -854, -870, 478, -108, -308, 996, 991, 958, -1460, 1522, 1628]"

definition fqmul :: "int \<Rightarrow> int \<Rightarrow> int" where
  "fqmul a b = montgomery_reduce (a * b)"

text \<open>
  The two loop bodies on one chunk: \<open>split_at_mut\<close> and the butterfly on each pair
  \<open>(l, r)\<close>. A pass gives each chunk the next value of the \<open>zetas\<close> iterator; the chunks of
  all passes are \<open>1 + 2 + ... + 64 = 127\<close>, the number of values the iterator has left
  after \<open>skip(1)\<close> (lemma \<open>length_ntt\<close>: no chunk is lost), so \<open>unwrap\<close> never fails.
\<close>

definition ntt_chunk :: "nat \<Rightarrow> int \<Rightarrow> int list \<Rightarrow> int list" where
  "ntt_chunk len zeta chunk =
     (let left = take len chunk; right = drop len chunk in
      map2 (\<lambda>l r. as_i16 (l + fqmul zeta r)) left right @
      map2 (\<lambda>l r. as_i16 (l - fqmul zeta r)) left right)"

definition invntt_chunk :: "nat \<Rightarrow> int \<Rightarrow> int list \<Rightarrow> int list" where
  "invntt_chunk len zeta chunk =
     (let left = take len chunk; right = drop len chunk in
      map2 (\<lambda>l r. barrett_reduce (as_i16 (l + r))) left right @
      map2 (\<lambda>l r. fqmul zeta (as_i16 (r - l))) left right)"

definition ntt_pass :: "(nat \<Rightarrow> int \<Rightarrow> int list \<Rightarrow> int list) \<Rightarrow> nat \<Rightarrow> int list \<times> int list \<Rightarrow> int list \<times> int list" where
  "ntt_pass body len st =
     (let (zetas, inout) = st; chunks = chunks_exact (len * 2) inout in
      (drop (length chunks) zetas, concat (map2 (body len) zetas chunks)))"

definition ntt :: "int list \<Rightarrow> int list" where
  "ntt inout =
     snd (fold (ntt_pass ntt_chunk) (map (\<lambda>i. push_bit i 2) (rev [0..<7])) (drop 1 ZETAS, inout))"

definition invntt :: "int list \<Rightarrow> int list" where
  "invntt inout =
     map (\<lambda>r. fqmul r 1441)
       (snd (fold (ntt_pass invntt_chunk) (map (\<lambda>i. push_bit i 2) [0..<7]) (rev ZETAS, inout)))"

text \<open>\<open>basemul\<close> writes the two coefficients of its first argument; they are the result.\<close>

definition basemul :: "int \<times> int \<Rightarrow> int \<times> int \<Rightarrow> int \<Rightarrow> int \<times> int" where
  "basemul a b zeta =
     (as_i16 (fqmul (fqmul (snd a) (snd b)) zeta + fqmul (fst a) (fst b)),
      as_i16 (fqmul (fst a) (snd b) + fqmul (snd a) (fst b)))"

subsection \<open>The reductions are correct\<close>

lemma as_i16_id: "-32768 \<le> x \<Longrightarrow> x < 32768 \<Longrightarrow> as_i16 x = x"
  by (simp add: as_i16_def signed_take_bit_int_eq_self)

lemma as_i32_id: "-2147483648 \<le> x \<Longrightarrow> x < 2147483648 \<Longrightarrow> as_i32 x = x"
  by (simp add: as_i32_def signed_take_bit_int_eq_self)

lemma as_i16_range: "-32768 \<le> as_i16 x \<and> as_i16 x < 32768"
  using signed_take_bit_int_greater_eq_minus_exp [of 15 x] signed_take_bit_int_less_exp [of 15 x]
  by (simp add: as_i16_def)

lemma as_i16_cong: "as_i16 x mod 65536 = x mod 65536"
proof -
  have "take_bit 16 (signed_take_bit 15 x) = take_bit 16 x"
    by (simp add: take_bit_signed_take_bit)
  then show ?thesis by (simp add: as_i16_def take_bit_eq_mod)
qed

lemma as_i16_eqI: "x mod 65536 = y mod 65536 \<Longrightarrow> as_i16 x = as_i16 y"
  by (simp add: as_i16_def signed_take_bit_eq_iff_take_bit_eq take_bit_eq_mod)

lemma BARRETT_V_eq: "BARRETT_V = 20159"
  by (simp add: BARRETT_V_def KYBER_Q_def as_i16_id push_bit_eq_mult)

lemma barrett_reduce_eq:
  assumes "-32768 \<le> a" and "a < 32768"
  obtains t where "barrett_reduce a = a - t * 3329" and "\<bar>a - t * 3329\<bar> \<le> 1664"
proof
  let ?t = "(20159 * a + 33554432) div 67108864"
  have "67108864 * ?t \<le> 20159 * a + 33554432" and "20159 * a + 33554432 < 67108864 * ?t + 67108864"
    by simp_all
  then show bound: "\<bar>a - ?t * 3329\<bar> \<le> 1664" using assms by linarith
  have "as_i32 (20159 * a + 33554432) = 20159 * a + 33554432"
    by (rule as_i32_id) (use assms in linarith)+
  moreover have "as_i32 (?t * 3329) = ?t * 3329"
    by (rule as_i32_id) (use bound assms in linarith)+
  moreover have "as_i16 (a - as_i16 (?t * 3329)) = a - ?t * 3329"
    using as_i16_eqI [OF mod_diff_cong [OF refl as_i16_cong], of a "?t * 3329"] as_i16_id bound by simp
  ultimately show "barrett_reduce a = a - ?t * 3329"
    by (simp add: barrett_reduce_def BARRETT_V_eq KYBER_Q_def drop_bit_eq_div push_bit_eq_mult)
qed

lemma barrett_reduce_bound: "-32768 \<le> a \<Longrightarrow> a < 32768 \<Longrightarrow> \<bar>barrett_reduce a\<bar> \<le> 1664"
  by (rule barrett_reduce_eq) auto

lemma barrett_reduce_cong:
  "-32768 \<le> a \<Longrightarrow> a < 32768 \<Longrightarrow> barrett_reduce a mod 3329 = a mod 3329"
  by (rule barrett_reduce_eq) (auto simp: mod_diff_eq [symmetric, of _ "_ * 3329"])

lemma montgomery_reduce_eq:
  assumes "\<bar>a\<bar> \<le> 109084671"
  obtains t where "montgomery_reduce a * 65536 = a - t * 3329" and "\<bar>montgomery_reduce a\<bar> < 3329"
proof
  let ?t = "as_i16 (as_i16 a * QINV)"
  let ?d = "a - ?t * 3329"
  have t: "-32768 \<le> ?t" "?t < 32768" using as_i16_range by auto
  have "?t mod 65536 = (a * QINV) mod 65536"
    using as_i16_cong mod_mult_cong [OF as_i16_cong refl] by metis
  then have "(?t * 3329) mod 65536 = (a * QINV * 3329) mod 65536"
    by (rule mod_mult_cong) simp
  also have "\<dots> = a mod 65536"
  proof -
    have "a * QINV * 3329 = a + 65536 * (-169 * a)" by (simp add: QINV_def)
    then show ?thesis by (simp only: mod_mult_self2)
  qed
  finally have dvd: "65536 dvd ?d" by (simp add: mod_eq_dvd_iff dvd_diff_commute)
  have "as_i32 (?t * 3329) = ?t * 3329" and "as_i32 ?d = ?d"
    by (rule as_i32_id; use t assms in linarith)+
  moreover have "?d div 65536 * 65536 = ?d" using dvd by simp
  then have bound: "\<bar>?d div 65536\<bar> < 3329" using t assms by linarith
  ultimately have eq: "montgomery_reduce a = ?d div 65536"
    by (simp add: montgomery_reduce_def KYBER_Q_def drop_bit_eq_div as_i16_id Let_def)
  show "montgomery_reduce a * 65536 = ?d" using dvd by (simp add: eq)
  show "\<bar>montgomery_reduce a\<bar> < 3329" using bound by (simp add: eq)
qed

lemma montgomery_reduce_bound: "\<bar>a\<bar> \<le> 109084671 \<Longrightarrow> \<bar>montgomery_reduce a\<bar> < 3329"
  by (rule montgomery_reduce_eq)

lemma montgomery_reduce_cong:
  "\<bar>a\<bar> \<le> 109084671 \<Longrightarrow> (montgomery_reduce a * 65536) mod 3329 = a mod 3329"
  by (rule montgomery_reduce_eq) (auto simp: mod_diff_eq [symmetric, of _ "_ * 3329"])

subsection \<open>Congruence modulo \<open>Q\<close>\<close>

definition qeq :: "int \<Rightarrow> int \<Rightarrow> bool" where
  "qeq a b \<longleftrightarrow> a mod 3329 = b mod 3329"

named_theorems qeq_intros \<open>congruence rules of the residues\<close>

lemma qeq_refl [simp, qeq_intros]: "qeq a a"
  by (simp add: qeq_def)

lemma qeq_sym: "qeq a b \<Longrightarrow> qeq b a"
  by (simp add: qeq_def)

lemma qeq_trans [trans]: "qeq a b \<Longrightarrow> qeq b c \<Longrightarrow> qeq a c"
  by (simp add: qeq_def)

lemma qeq_add [qeq_intros]: "qeq a b \<Longrightarrow> qeq c d \<Longrightarrow> qeq (a + c) (b + d)"
  unfolding qeq_def by (rule mod_add_cong)

lemma qeq_diff [qeq_intros]: "qeq a b \<Longrightarrow> qeq c d \<Longrightarrow> qeq (a - c) (b - d)"
  unfolding qeq_def by (rule mod_diff_cong)

lemma qeq_mult [qeq_intros]: "qeq a b \<Longrightarrow> qeq c d \<Longrightarrow> qeq (a * c) (b * d)"
  unfolding qeq_def by (rule mod_mult_cong)

lemma qeq_sum [qeq_intros]: "(\<And>i. i \<in> A \<Longrightarrow> qeq (f i) (g i)) \<Longrightarrow> qeq (sum f A) (sum g A)"
  by (induction A rule: infinite_finite_induct) (auto intro: qeq_add)

lemma qeq_barrett: "-32768 \<le> a \<Longrightarrow> a < 32768 \<Longrightarrow> qeq (barrett_reduce a) a"
  by (simp add: qeq_def barrett_reduce_cong)

text \<open>Montgomery reduction multiplies with 169, the inverse of \<open>2 ^ 16\<close> modulo \<open>Q\<close>.\<close>

lemma qeq_montgomery:
  assumes "\<bar>a\<bar> \<le> 109084671"
  shows "qeq (montgomery_reduce a) (a * 169)"
proof -
  have "qeq (montgomery_reduce a * 65536) a"
    using montgomery_reduce_cong [OF assms] by (simp add: qeq_def)
  then have "qeq (montgomery_reduce a * 65536 * 169) (a * 169)" by (intro qeq_intros)
  moreover have "qeq (montgomery_reduce a * (65536 * 169)) (montgomery_reduce a * 1)"
    by (rule qeq_mult) (simp_all add: qeq_def)
  ultimately show ?thesis by (simp add: qeq_def mult.commute)
qed

lemma abs_mult_le: "\<bar>a\<bar> \<le> A \<Longrightarrow> \<bar>b\<bar> \<le> B \<Longrightarrow> \<bar>a * b\<bar> \<le> A * (B :: int)"
  unfolding abs_mult by (intro mult_mono) auto

lemma fqmul_small:
  assumes "\<bar>a\<bar> \<le> 3329" and "\<bar>b\<bar> \<le> 32767"
  shows "\<bar>fqmul a b\<bar> \<le> 3328" and "qeq (fqmul a b) (a * b * 169)"
proof -
  have "\<bar>a * b\<bar> \<le> 109084671" using abs_mult_le [OF assms] by simp
  then show "\<bar>fqmul a b\<bar> \<le> 3328" and "qeq (fqmul a b) (a * b * 169)"
    using montgomery_reduce_bound [of "a * b"] qeq_montgomery by (auto simp: fqmul_def)
qed

lemma fqmul_commute: "fqmul a b = fqmul b a"
  by (simp add: fqmul_def mult.commute)

text \<open>The inverse butterfly, on residues of a forward butterfly.\<close>

definition inv_zeta :: "int \<Rightarrow> int \<Rightarrow> bool" where
  "inv_zeta z z' \<longleftrightarrow> \<bar>z\<bar> \<le> 1664 \<and> \<bar>z'\<bar> \<le> 1664 \<and> (z * z' + 2 ^ 32) mod 3329 = 0"

lemma butterfly_inverse:
  assumes "inv_zeta z z'" and "qeq y1 (m * (l + z * r * 169))" and "qeq y2 (m * (l - z * r * 169))"
  shows "qeq (y1 + y2) (2 * m * l)" and "qeq (z' * (y2 - y1) * 169) (2 * m * r)"
proof -
  have "qeq (y1 + y2) (m * (l + z * r * 169) + m * (l - z * r * 169))"
    using assms by (intro qeq_intros)
  then show "qeq (y1 + y2) (2 * m * l)" by (simp add: algebra_simps)
  have "qeq (z * z' + 2 ^ 32 - 2 ^ 32) (0 - 2 ^ 32)"
    using assms(1) by (intro qeq_diff qeq_refl) (simp add: inv_zeta_def qeq_def)
  then have zz: "qeq (z * z') (- (2 ^ 32))" by simp
  have "qeq (z' * (y2 - y1) * 169) (z' * (m * (l - z * r * 169) - m * (l + z * r * 169)) * 169)"
    using assms by (intro qeq_intros)
  also have "\<dots> = (z * z') * (- 57122 * m * r)" by (simp add: algebra_simps)
  also have "qeq \<dots> (- (2 ^ 32) * (- 57122 * m * r))" by (intro qeq_intros zz)
  also have "\<dots> = (2 * (m * r)) * (2 ^ 32 * 28561)" by simp
  also have "qeq \<dots> (2 * (m * r) * 1)" by (rule qeq_mult) (simp_all add: qeq_def)
  finally show "qeq (z' * (y2 - y1) * 169) (2 * m * r)" by (simp add: mult.assoc)
qed

subsection \<open>The inverse transform undoes the transform\<close>

definition bnd :: "int \<Rightarrow> int list \<Rightarrow> bool" where
  "bnd B xs \<longleftrightarrow> (\<forall>x\<in>set xs. \<bar>x\<bar> \<le> B)"

lemma bnd_nth: "bnd B xs \<Longrightarrow> i < length xs \<Longrightarrow> \<bar>xs ! i\<bar> \<le> B"
  by (simp add: bnd_def)

lemma bnd_nthI: "(\<And>i. i < length xs \<Longrightarrow> \<bar>xs ! i\<bar> \<le> B) \<Longrightarrow> bnd B xs"
  by (auto simp: bnd_def in_set_conv_nth)

lemma bnd_mono: "bnd B xs \<Longrightarrow> B \<le> C \<Longrightarrow> bnd C xs"
  by (auto simp: bnd_def intro: order_trans)

lemma bnd_concat: "bnd B (concat xss) \<longleftrightarrow> (\<forall>xs\<in>set xss. bnd B xs)"
  by (auto simp: bnd_def)

lemma length_ntt_chunk [simp]: "length c = len * 2 \<Longrightarrow> length (ntt_chunk len z c) = len * 2"
  by (simp add: ntt_chunk_def Let_def)

lemma length_invntt_chunk [simp]: "length c = len * 2 \<Longrightarrow> length (invntt_chunk len z c) = len * 2"
  by (simp add: invntt_chunk_def Let_def)

lemma nth_map2_append:
  assumes "length c = len * 2" and "i < len * 2"
  shows "(map2 f (take len c) (drop len c) @ map2 g (take len c) (drop len c)) ! i =
    (if i < len then f (c ! i) (c ! (len + i)) else g (c ! (i - len)) (c ! i))"
  using assms by (auto simp: nth_append)

lemma ntt_chunk_nth:
  assumes "length c = len * 2" and "bnd B c" and "B \<le> 29439" and "\<bar>z\<bar> \<le> 1664" and "i < len * 2"
  shows "\<bar>ntt_chunk len z c ! i\<bar> \<le> B + 3328"
    and "i < len \<Longrightarrow> qeq (ntt_chunk len z c ! i) (c ! i + z * c ! (len + i) * 169)"
    and "len \<le> i \<Longrightarrow> qeq (ntt_chunk len z c ! i) (c ! (i - len) - z * c ! i * 169)"
proof -
  have b: "\<bar>c ! j\<bar> \<le> B" if "j < len * 2" for j using that assms bnd_nth by simp
  then have f: "\<bar>fqmul z (c ! j)\<bar> \<le> 3328" "qeq (fqmul z (c ! j)) (z * c ! j * 169)" if "j < len * 2" for j
    using that assms(3,4) fqmul_small [of z "c ! j"] by (force, force)
  have lt: "i - len < len * 2" using assms by simp
  note nth = nth_map2_append [OF assms(1,5)]
  have lo: "i < len \<Longrightarrow> ntt_chunk len z c ! i = c ! i + fqmul z (c ! (len + i))"
    using b [of i] f(1) [of "len + i"] assms(3) by (simp add: ntt_chunk_def Let_def nth as_i16_id)
  have hi: "len \<le> i \<Longrightarrow> ntt_chunk len z c ! i = c ! (i - len) - fqmul z (c ! i)"
    using b [OF lt] f(1) [of i] assms(3,5) by (simp add: ntt_chunk_def Let_def nth as_i16_id)
  show "\<bar>ntt_chunk len z c ! i\<bar> \<le> B + 3328"
    using lo hi b [of i] b [OF lt] f(1) [of i] f(1) [of "len + i"] assms(5)
    by (cases "i < len") simp_all
  show "i < len \<Longrightarrow> qeq (ntt_chunk len z c ! i) (c ! i + z * c ! (len + i) * 169)"
    using lo f(2) [of "len + i"] by (simp add: qeq_add)
  show "len \<le> i \<Longrightarrow> qeq (ntt_chunk len z c ! i) (c ! (i - len) - z * c ! i * 169)"
    using hi f(2) [of i] assms(5) by (simp add: qeq_diff)
qed

lemma invntt_chunk_nth:
  assumes "length c = len * 2" and "bnd 16383 c" and "\<bar>z\<bar> \<le> 1664" and "i < len * 2"
  shows "\<bar>invntt_chunk len z c ! i\<bar> \<le> 3328"
    and "i < len \<Longrightarrow> qeq (invntt_chunk len z c ! i) (c ! i + c ! (len + i))"
    and "len \<le> i \<Longrightarrow> qeq (invntt_chunk len z c ! i) (z * (c ! i - c ! (i - len)) * 169)"
proof -
  have b: "\<bar>c ! j\<bar> \<le> 16383" if "j < len * 2" for j using that assms bnd_nth by simp
  have lt: "i - len < len * 2" using assms by simp
  note nth = nth_map2_append [OF assms(1,4)]
  have lo: "i < len \<Longrightarrow> invntt_chunk len z c ! i = barrett_reduce (c ! i + c ! (len + i))"
    using b [of i] b [of "len + i"] by (simp add: invntt_chunk_def Let_def nth as_i16_id)
  have hi: "len \<le> i \<Longrightarrow> invntt_chunk len z c ! i = fqmul z (c ! i - c ! (i - len))"
    using b [of i] b [OF lt] assms(4) by (simp add: invntt_chunk_def Let_def nth as_i16_id)
  have sum: "i < len \<Longrightarrow> -32768 \<le> c ! i + c ! (len + i) \<and> c ! i + c ! (len + i) < 32768"
    using b [of i] b [of "len + i"] by (auto simp: abs_le_iff)
  have dif: "len \<le> i \<Longrightarrow> \<bar>c ! i - c ! (i - len)\<bar> \<le> 32767"
    using b [of i] b [OF lt] assms(4) by simp
  have z: "\<bar>z\<bar> \<le> 3329" using assms(3) by simp
  show "\<bar>invntt_chunk len z c ! i\<bar> \<le> 3328"
  proof (cases "i < len")
    case True
    then show ?thesis using lo sum barrett_reduce_bound [of "c ! i + c ! (len + i)"] by simp
  next
    case False
    then show ?thesis using hi fqmul_small(1) [OF z dif] by simp
  qed
  show "i < len \<Longrightarrow> qeq (invntt_chunk len z c ! i) (c ! i + c ! (len + i))"
    using lo sum qeq_barrett by simp
  show "len \<le> i \<Longrightarrow> qeq (invntt_chunk len z c ! i) (z * (c ! i - c ! (i - len)) * 169)"
    using hi fqmul_small(2) [OF z dif] by simp
qed

text \<open>One pass over the chunks with its own slice of the zetas.\<close>

definition pass :: "(nat \<Rightarrow> int \<Rightarrow> int list \<Rightarrow> int list) \<Rightarrow> nat \<Rightarrow> int list \<Rightarrow> int list \<Rightarrow> int list" where
  "pass body len zs xs = concat (map2 (body len) zs (chunks_exact (len * 2) xs))"

lemma pass_Nil [simp]: "pass body len [] xs = []"
  by (simp add: pass_def)

lemma pass_Cons:
  assumes "0 < len" and "len * 2 \<le> length xs"
  shows "pass body len (z # zs) xs = body len z (take (len * 2) xs) @ pass body len zs (drop (len * 2) xs)"
  using assms by (subst pass_def, subst chunks_exact.simps) (simp add: pass_def)

lemma length_pass:
  assumes "0 < len" and "length xs = len * 2 * length zs"
    and "\<And>z c. length c = len * 2 \<Longrightarrow> length (body len z c) = len * 2"
  shows "length (pass body len zs xs) = length xs"
  using assms(2)
proof (induction zs arbitrary: xs)
  case (Cons z zs)
  then show ?case using assms(1,3) by (simp add: pass_Cons)
qed simp

lemma ntt_pass_eq:
  assumes "0 < len" and "length xs = len * 2 * length zs"
  shows "ntt_pass body len (zs @ rest, xs) = (rest, pass body len zs xs)"
proof -
  have "length (chunks_exact (len * 2) xs) = length zs"
    using assms by (simp add: length_chunks_exact)
  then show ?thesis by (simp add: ntt_pass_def pass_def zip_append1)
qed

lemma chunk_inverse:
  assumes "length c = len * 2" and "bnd B c" and "B \<le> 29439" and "inv_zeta z z'"
    and "list_all2 qeq ys (map ((*) m) (ntt_chunk len z c))" and "bnd 16383 ys"
  shows "list_all2 qeq (invntt_chunk len z' ys) (map ((*) (2 * m)) c)"
    and "bnd 3328 (invntt_chunk len z' ys)"
proof -
  have z: "\<bar>z\<bar> \<le> 1664" "\<bar>z'\<bar> \<le> 1664" using assms(4) by (auto simp: inv_zeta_def)
  have ly: "length ys = len * 2" using assms(1,5) by (simp add: list_all2_lengthD)
  have y: "qeq (ys ! j) (m * ntt_chunk len z c ! j)" if "j < len * 2" for j
    using list_all2_nthD2 [OF assms(5), of j] that assms(1) by simp
  note fwd = ntt_chunk_nth [OF assms(1-3) z(1)] and inv = invntt_chunk_nth [OF ly assms(6) z(2)]
  have pair: "qeq (invntt_chunk len z' ys ! i) (2 * m * c ! i)"
    "qeq (invntt_chunk len z' ys ! (len + i)) (2 * m * c ! (len + i))" if i: "i < len" for i
  proof -
    have "qeq (ys ! i) (m * (c ! i + z * c ! (len + i) * 169))"
      by (rule qeq_trans [OF y qeq_mult [OF qeq_refl fwd(2)]]) (use i in auto)
    moreover have "qeq (ys ! (len + i)) (m * (c ! i - z * c ! (len + i) * 169))"
      using qeq_trans [OF y [of "len + i"] qeq_mult [OF qeq_refl fwd(3) [of "len + i"]]] i by simp
    ultimately have "qeq (ys ! i + ys ! (len + i)) (2 * m * c ! i)"
      and "qeq (z' * (ys ! (len + i) - ys ! i) * 169) (2 * m * c ! (len + i))"
      using butterfly_inverse [OF assms(4)] by blast+
    then show "qeq (invntt_chunk len z' ys ! i) (2 * m * c ! i)"
      "qeq (invntt_chunk len z' ys ! (len + i)) (2 * m * c ! (len + i))"
      using qeq_trans inv(2) [of i] inv(3) [of "len + i"] i by auto
  qed
  have "qeq (invntt_chunk len z' ys ! i) (2 * m * c ! i)" if "i < len * 2" for i
    using pair(1) [of i] pair(2) [of "i - len"] that by (cases "i < len") auto
  then show "list_all2 qeq (invntt_chunk len z' ys) (map ((*) (2 * m)) c)"
    using assms(1) ly by (simp add: list_all2_conv_all_nth)
  show "bnd 3328 (invntt_chunk len z' ys)"
    by (rule bnd_nthI) (use inv(1) ly in simp)
qed

lemma pass_inverse:
  assumes "0 < len" and "list_all2 inv_zeta zs zs'" and "length xs = len * 2 * length zs"
    and "bnd B xs" and "B \<le> 29439"
    and "list_all2 qeq ys (map ((*) m) (pass ntt_chunk len zs xs))" and "bnd 16383 ys"
  shows "list_all2 qeq (pass invntt_chunk len zs' ys) (map ((*) (2 * m)) xs) \<and>
    bnd 3328 (pass invntt_chunk len zs' ys)"
  using assms(2,3,4,6,7)
proof (induction zs zs' arbitrary: xs ys rule: list_all2_induct)
  case Nil
  then show ?case by (simp add: bnd_def)
next
  case (Cons z zs z' zs')
  let ?n = "len * 2"
  have ly: "length ys = length xs"
    using Cons.prems assms(1) length_pass [of len xs "z # zs" ntt_chunk] by (simp add: list_all2_lengthD)
  have lx: "?n \<le> length xs" "length (take ?n xs) = ?n" "length (drop ?n xs) = ?n * length zs"
    using Cons.prems by auto
  have "list_all2 qeq (take ?n ys @ drop ?n ys)
      (map ((*) m) (ntt_chunk len z (take ?n xs)) @ map ((*) m) (pass ntt_chunk len zs (drop ?n xs)))"
    using Cons.prems(3) lx(1) assms(1) by (simp add: pass_Cons)
  moreover have "length (take ?n ys) = length (map ((*) m) (ntt_chunk len z (take ?n xs)))"
    using lx ly by simp
  ultimately have split: "list_all2 qeq (take ?n ys) (map ((*) m) (ntt_chunk len z (take ?n xs)))"
    "list_all2 qeq (drop ?n ys) (map ((*) m) (pass ntt_chunk len zs (drop ?n xs)))"
    using list_all2_append by blast+
  have b: "bnd B (take ?n xs)" "bnd B (drop ?n xs)" "bnd 16383 (take ?n ys)" "bnd 16383 (drop ?n ys)"
    using Cons.prems by (auto simp: bnd_def dest: in_set_takeD in_set_dropD)
  note hd = chunk_inverse [OF lx(2) b(1) assms(5) Cons.hyps(1) split(1) b(3)]
    and tl = Cons.IH [OF lx(3) b(2) split(2) b(4)]
  have eq: "pass invntt_chunk len (z' # zs') ys =
      invntt_chunk len z' (take ?n ys) @ pass invntt_chunk len zs' (drop ?n ys)"
    using lx(1) ly assms(1) by (simp add: pass_Cons)
  have "list_all2 qeq (pass invntt_chunk len (z' # zs') ys)
      (map ((*) (2 * m)) (take ?n xs) @ map ((*) (2 * m)) (drop ?n xs))"
    unfolding eq by (rule list_all2_appendI [OF hd(1) conjunct1 [OF tl]])
  then show ?case using hd(2) tl eq by (simp add: bnd_def flip: map_append) blast
qed

text \<open>The slice of the zetas that the pass with \<open>2 ^ k\<close> chunks uses.\<close>

definition zetas_of :: "nat \<Rightarrow> int list" where
  "zetas_of k = take (2 ^ k) (drop (2 ^ k) ZETAS)"

lemma zetas_of_lits:
  "zetas_of 0 @ zetas_of 1 @ zetas_of 2 @ zetas_of 3 @ zetas_of 4 @ zetas_of 5 @ zetas_of 6 = drop 1 ZETAS"
  by code_simp

lemma rev_zetas:
  "rev (zetas_of 6) @ rev (zetas_of 5) @ rev (zetas_of 4) @ rev (zetas_of 3) @ rev (zetas_of 2) @
   rev (zetas_of 1) @ rev (zetas_of 0) @ [-1044] = rev ZETAS"
  by code_simp

lemma length_zetas_of: "k \<in> {0, 1, 2, 3, 4, 5, 6} \<Longrightarrow> length (zetas_of k) = 2 ^ k"
  by (auto simp: zetas_of_def ZETAS_def)

lemma inv_zetas:
  "list_all (\<lambda>k. list_all2 inv_zeta (zetas_of k) (rev (zetas_of k))) [0, 1, 2, 3, 4, 5, 6]"
  by code_simp

lemma zeta_bnd: "bnd 1664 ZETAS"
  unfolding bnd_def by code_simp

definition ntt_layer :: "nat \<Rightarrow> int list \<Rightarrow> int list" where
  "ntt_layer k = pass ntt_chunk (2 ^ (7 - k)) (zetas_of k)"

definition invntt_layer :: "nat \<Rightarrow> int list \<Rightarrow> int list" where
  "invntt_layer k = pass invntt_chunk (2 ^ (7 - k)) (rev (zetas_of k))"

lemma length_ntt_layer: "k \<in> {0, 1, 2, 3, 4, 5, 6} \<Longrightarrow> length xs = 256 \<Longrightarrow> length (ntt_layer k xs) = 256"
  unfolding ntt_layer_def by (subst length_pass) (auto simp: length_zetas_of)

lemma length_invntt_layer:
  "k \<in> {0, 1, 2, 3, 4, 5, 6} \<Longrightarrow> length xs = 256 \<Longrightarrow> length (invntt_layer k xs) = 256"
  unfolding invntt_layer_def by (subst length_pass) (auto simp: length_zetas_of)

lemma ntt_pass_layer:
  assumes "k \<in> {0, 1, 2, 3, 4, 5, 6}" and "length xs = 256"
  shows "ntt_pass ntt_chunk (2 ^ (7 - k)) (zetas_of k @ rest, xs) = (rest, ntt_layer k xs)"
    and "ntt_pass invntt_chunk (2 ^ (7 - k)) (rev (zetas_of k) @ rest, xs) = (rest, invntt_layer k xs)"
  using assms length_zetas_of [OF assms(1)]
  by (auto simp: ntt_layer_def invntt_layer_def intro!: ntt_pass_eq)

lemma pass_lens:
  "map (\<lambda>i. push_bit i 2) (rev [0..<7]) = [2 ^ (7 - 0), 2 ^ (7 - 1), 2 ^ (7 - 2), 2 ^ (7 - 3), 2 ^ (7 - 4), 2 ^ (7 - 5), 2 ^ (7 - 6) :: nat]"
  "map (\<lambda>i. push_bit i 2) [0..<7] = [2 ^ (7 - 6), 2 ^ (7 - 5), 2 ^ (7 - 4), 2 ^ (7 - 3), 2 ^ (7 - 2), 2 ^ (7 - 1), 2 ^ (7 - 0) :: nat]"
  by code_simp+

lemma ntt_layers:
  assumes "length xs = 256"
  shows "ntt xs = ntt_layer 6 (ntt_layer 5 (ntt_layer 4 (ntt_layer 3 (ntt_layer 2 (ntt_layer 1 (ntt_layer 0 xs))))))"
proof -
  note simps = ntt_pass_layer(1) [of _ _ "[]", simplified append_Nil2] ntt_pass_layer(1) length_ntt_layer
  show ?thesis
    unfolding ntt_def pass_lens zetas_of_lits [symmetric] fold_simps
    using assms by (simp only: simps insertI1 insertI2 snd_conv comp_apply id_apply)
qed

lemma invntt_layers:
  assumes "length xs = 256"
  shows "invntt xs = map (\<lambda>r. fqmul r 1441) (invntt_layer 0 (invntt_layer 1 (invntt_layer 2
    (invntt_layer 3 (invntt_layer 4 (invntt_layer 5 (invntt_layer 6 xs)))))))"
  unfolding invntt_def pass_lens rev_zetas [symmetric] fold_simps
  using assms by (simp only: ntt_pass_layer length_invntt_layer insertI1 insertI2 snd_conv comp_apply id_apply)

lemma length_ntt: "length xs = 256 \<Longrightarrow> length (ntt xs) = 256"
  by (simp only: ntt_layers length_ntt_layer insertI1 insertI2)

lemma length_invntt: "length xs = 256 \<Longrightarrow> length (invntt xs) = 256"
  by (simp only: invntt_layers length_map length_invntt_layer insertI1 insertI2)

lemma pass_bnd:
  assumes "0 < len" and "length xs = len * 2 * length zs" and "bnd 1664 zs" and "bnd B xs" and "B \<le> 29439"
  shows "bnd (B + 3328) (pass ntt_chunk len zs xs)"
  using assms(2,3,4)
proof (induction zs arbitrary: xs)
  case (Cons z zs)
  let ?c = "take (len * 2) xs"
  have "length ?c = len * 2" "bnd B ?c" "\<bar>z\<bar> \<le> 1664"
    using Cons.prems by (auto simp: bnd_def dest: in_set_takeD)
  then have "bnd (B + 3328) (ntt_chunk len z ?c)"
    using ntt_chunk_nth(1) [OF _ _ assms(5)] by (intro bnd_nthI) simp
  moreover have "bnd (B + 3328) (pass ntt_chunk len zs (drop (len * 2) xs))"
    using Cons.prems by (intro Cons.IH) (auto simp: bnd_def dest: in_set_dropD)
  ultimately show ?case using Cons.prems assms(1) by (auto simp: pass_Cons bnd_def)
qed (simp add: bnd_def)

lemma ntt_layer_bnd:
  assumes "k \<in> {0, 1, 2, 3, 4, 5, 6}" and "length xs = 256" and "bnd B xs" and "B \<le> 29439"
  shows "bnd (B + 3328) (ntt_layer k xs)"
proof -
  have "bnd 1664 (zetas_of k)"
    using zeta_bnd by (auto simp: bnd_def zetas_of_def dest!: in_set_takeD in_set_dropD)
  then show ?thesis
    unfolding ntt_layer_def using assms length_zetas_of [OF assms(1)] by (intro pass_bnd) auto
qed

lemma invntt_layer_inverse:
  assumes "k \<in> {0, 1, 2, 3, 4, 5, 6}" and "length xs = 256" and "bnd B xs" and "B \<le> 29439"
    and "list_all2 qeq ys (map ((*) m) (ntt_layer k xs))" and "bnd 16383 ys"
  shows "list_all2 qeq (invntt_layer k ys) (map ((*) (2 * m)) xs)" and "bnd 16383 (invntt_layer k ys)"
proof -
  have "list_all2 inv_zeta (zetas_of k) (rev (zetas_of k))" using inv_zetas assms(1) by auto
  then have "list_all2 qeq (invntt_layer k ys) (map ((*) (2 * m)) xs) \<and> bnd 3328 (invntt_layer k ys)"
    unfolding invntt_layer_def
    using assms length_zetas_of [OF assms(1)] by (intro pass_inverse) (auto simp: ntt_layer_def)
  then show "list_all2 qeq (invntt_layer k ys) (map ((*) (2 * m)) xs)" and "bnd 16383 (invntt_layer k ys)"
    using bnd_mono by auto
qed

lemma fqmul_scale:
  assumes "list_all2 qeq ys (map ((*) (128 * m)) xs)" and "bnd 16383 ys"
  shows "list_all2 qeq (map (\<lambda>r. fqmul r 1441) ys) (map ((*) (65536 * m)) xs)"
    and "bnd 3328 (map (\<lambda>r. fqmul r 1441) ys)"
proof -
  have b: "\<bar>fqmul r 1441\<bar> \<le> 3328" "qeq (fqmul r 1441) (1441 * r * 169)" if "r \<in> set ys" for r
    using that assms(2) fqmul_small [of 1441 r] by (auto simp: bnd_def fqmul_commute [of r] intro: order_trans)
  then show "bnd 3328 (map (\<lambda>r. fqmul r 1441) ys)" by (simp add: bnd_def)
  have "qeq (fqmul y 1441) (65536 * m * x)" if "y \<in> set ys" "qeq y (128 * m * x)" for x y
  proof -
    have "qeq (1441 * y * 169) (1441 * (128 * m * x) * 169)" using that by (intro qeq_intros)
    also have "\<dots> = m * x * 31171712" by simp
    also have "qeq \<dots> (m * x * 65536)" by (rule qeq_mult) (simp_all add: qeq_def)
    finally show ?thesis using qeq_trans [OF b(2) [OF that(1)]] by (simp add: ac_simps)
  qed
  then show "list_all2 qeq (map (\<lambda>r. fqmul r 1441) ys) (map ((*) (65536 * m)) xs)"
    using assms(1) by (auto simp: list_all2_conv_all_nth)
qed

text \<open>The bound 9471 is what the seven passes leave of the range of \<open>i16\<close>.\<close>

lemma ntt_bnd:
  assumes "length xs = 256" and "bnd 9471 xs"
  shows "bnd 32767 (ntt xs)"
proof -
  note step = ntt_layer_bnd and len = length_ntt_layer
  have "bnd (9471 + 3328 + 3328 + 3328 + 3328 + 3328 + 3328 + 3328) (ntt xs)"
    unfolding ntt_layers [OF assms(1)] by (intro step len assms) simp_all
  then show ?thesis by simp
qed

lemma invntt_ntt:
  assumes "length xs = 256" and "bnd 9471 xs" and "list_all2 qeq ys (map ((*) m) (ntt xs))" and "bnd 16383 ys"
  shows "list_all2 qeq (invntt ys) (map ((*) (65536 * m)) xs)" and "bnd 3328 (invntt ys)"
proof -
  define x1 where "x1 = ntt_layer 0 xs"
  define x2 where "x2 = ntt_layer 1 x1"
  define x3 where "x3 = ntt_layer 2 x2"
  define x4 where "x4 = ntt_layer 3 x3"
  define x5 where "x5 = ntt_layer 4 x4"
  define x6 where "x6 = ntt_layer 5 x5"
  note defs = x1_def x2_def x3_def x4_def x5_def x6_def
  have len: "length x1 = 256" "length x2 = 256" "length x3 = 256" "length x4 = 256" "length x5 = 256"
    "length x6 = 256"
    unfolding defs by (intro length_ntt_layer assms(1); simp)+
  have b1: "bnd 12799 x1" using ntt_layer_bnd [OF _ assms(1,2), of 0] by (simp add: x1_def)
  have b2: "bnd 16127 x2" using ntt_layer_bnd [OF _ len(1) b1, of 1] by (simp add: x2_def)
  have b3: "bnd 19455 x3" using ntt_layer_bnd [OF _ len(2) b2, of 2] by (simp add: x3_def)
  have b4: "bnd 22783 x4" using ntt_layer_bnd [OF _ len(3) b3, of 3] by (simp add: x4_def)
  have b5: "bnd 26111 x5" using ntt_layer_bnd [OF _ len(4) b4, of 4] by (simp add: x5_def)
  have b6: "bnd 29439 x6" using ntt_layer_bnd [OF _ len(5) b5, of 5] by (simp add: x6_def)
  have "ntt xs = ntt_layer 6 x6" unfolding defs by (rule ntt_layers [OF assms(1)])
  then have y: "list_all2 qeq ys (map ((*) m) (ntt_layer 6 x6))" using assms(3) by simp
  note i6 = invntt_layer_inverse [OF _ len(6) b6 _ y assms(4), unfolded x6_def]
  note i5 = invntt_layer_inverse [OF _ len(5) b5 _ i6, unfolded x5_def]
  note i4 = invntt_layer_inverse [OF _ len(4) b4 _ i5, unfolded x4_def]
  note i3 = invntt_layer_inverse [OF _ len(3) b3 _ i4, unfolded x3_def]
  note i2 = invntt_layer_inverse [OF _ len(2) b2 _ i3, unfolded x2_def]
  note i1 = invntt_layer_inverse [OF _ len(1) b1 _ i2, unfolded x1_def]
  note i0 = invntt_layer_inverse [OF _ assms(1,2) _ i1]
  have ly: "length ys = 256" using assms(1,3) length_ntt by (simp add: list_all2_lengthD)
  show "list_all2 qeq (invntt ys) (map ((*) (65536 * m)) xs)" and "bnd 3328 (invntt ys)"
    unfolding invntt_layers [OF ly] by (rule fqmul_scale; use i0 in \<open>simp add: ac_simps\<close>)+
qed

subsection \<open>Properties\<close>

text \<open>C4: Both reductions are exact: for every 16 bit value \<open>barrett::reduce\<close> gives the centred
  representative of its residue, and for every product the code forms \<open>mondgomery::reduce\<close> gives a value of
  size below \<open>Q\<close> that is the product divided by \<open>2 ^ 16\<close> modulo \<open>Q\<close>.\<close>
theorem reductions_exact:
  assumes "-32768 \<le> a" and "a < 32768" and "\<bar>p\<bar> \<le> KYBER_Q * 2 ^ 15 - 1"
  shows "\<bar>barrett_reduce a\<bar> \<le> (KYBER_Q - 1) div 2 \<and> barrett_reduce a mod KYBER_Q = a mod KYBER_Q \<and>
    \<bar>montgomery_reduce p\<bar> < KYBER_Q \<and> (montgomery_reduce p * 2 ^ 16) mod KYBER_Q = p mod KYBER_Q"
  using assms barrett_reduce_bound [of a] barrett_reduce_cong [of a] montgomery_reduce_bound [of p]
    montgomery_reduce_cong [of p]
  by (simp add: KYBER_Q_def)

theorem reductions_exact_witness:
  "\<bar>barrett_reduce 32767\<bar> \<le> (KYBER_Q - 1) div 2 \<and> barrett_reduce 32767 mod KYBER_Q = 32767 mod KYBER_Q \<and>
    \<bar>montgomery_reduce (-109084671)\<bar> < KYBER_Q \<and>
    (montgomery_reduce (-109084671) * 2 ^ 16) mod KYBER_Q = -109084671 mod KYBER_Q"
  by (rule reductions_exact) (simp_all add: KYBER_Q_def)

end
