(* ===== verification/Kyber_Mul.thy ===== *)
theory Kyber_Mul
  imports Kyber_Poly
begin

section \<open>Kyber: multiplication through the transform\<close>

text \<open>
  The reference is schoolbook multiplication modulo \<open>X ^ n - c\<close>. Each pass of the transform
  splits a product modulo \<open>X ^ (2 * m) - w ^ 2\<close> into the products modulo \<open>X ^ m - w\<close> and
  \<open>X ^ m + w\<close>; seven passes take \<open>X ^ 256 + 1\<close> to the 128 quadratic factors on which
  \<open>basemul\<close> multiplies.
\<close>

definition conv :: "nat \<Rightarrow> int \<Rightarrow> (nat \<Rightarrow> int) \<Rightarrow> (nat \<Rightarrow> int) \<Rightarrow> nat \<Rightarrow> int" where
  "conv n c f g k = (\<Sum>i<n. f i * (if i \<le> k then g (k - i) else c * g (n + k - i)))"

definition chunk_mul :: "nat \<Rightarrow> int \<Rightarrow> int list \<Rightarrow> int list \<Rightarrow> int list" where
  "chunk_mul n c xs ys = map (conv n c ((!) xs) ((!) ys)) [0..<n]"

text \<open>Multiplication modulo \<open>X ^ 256 + 1\<close>, the ring of the scheme.\<close>

definition negacyclic :: "int list \<Rightarrow> int list \<Rightarrow> int list" where
  "negacyclic = chunk_mul 256 (-1)"

fun prods :: "nat \<Rightarrow> int list \<Rightarrow> int list \<Rightarrow> int list \<Rightarrow> int list" where
  "prods n [] xs ys = []"
| "prods n (c # cs) xs ys = chunk_mul n c (take n xs) (take n ys) @ prods n cs (drop n xs) (drop n ys)"

lemma conv_split:
  assumes "k < m"
  shows "conv (2 * m) (w * w) f g k + w * conv (2 * m) (w * w) f g (m + k) =
    conv m w (\<lambda>i. f i + w * f (m + i)) (\<lambda>i. g i + w * g (m + i)) k"
proof -
  have halves: "sum h {..<2 * m} = (\<Sum>i<m. h i) + (\<Sum>i<m. h (m + i))" for h :: "nat \<Rightarrow> int"
    using sum.atLeastLessThan_concat [of 0 m "2 * m" h] sum.shift_bounds_nat_ivl [of h 0 m m]
    by (simp add: atLeast0LessThan mult_2 add.commute)
  have lo: "conv (2 * m) (w * w) f g k = (\<Sum>i<m. f i * (if i \<le> k then g (k - i) else w * w * g (m + (m + k) - i)) +
      f (m + i) * (w * w * g (m + k - i)))"
    unfolding conv_def halves sum.distrib [symmetric]
    by (rule sum.cong) (use assms in \<open>auto simp: mult_2 add.assoc\<close>)
  have hi: "conv (2 * m) (w * w) f g (m + k) = (\<Sum>i<m. f i * g (m + k - i) +
      f (m + i) * (if i \<le> k then g (k - i) else w * w * g (m + (m + k) - i)))"
    unfolding conv_def halves sum.distrib [symmetric]
    by (rule sum.cong) (use assms in \<open>auto simp: mult_2 add.assoc\<close>)
  show ?thesis
    unfolding lo hi sum_distrib_left sum.distrib [symmetric]
    unfolding conv_def
    by (rule sum.cong) (use assms in \<open>auto simp: algebra_simps mult_2 add.assoc\<close>)
qed

lemma conv_qeq:
  assumes "qeq c d" and "\<And>i. i < n \<Longrightarrow> qeq (f i) (f' i)" and "\<And>i. i < n \<Longrightarrow> qeq (g i) (g' i)" and "k < n"
  shows "qeq (conv n c f g k) (conv n d f' g' k)"
  unfolding conv_def
  by (intro qeq_sum qeq_mult assms(2)) (use assms in \<open>auto intro!: qeq_mult\<close>)

lemma length_chunk_mul [simp]: "length (chunk_mul n c xs ys) = n"
  by (simp add: chunk_mul_def)

lemma chunk_mul_nth [simp]: "k < n \<Longrightarrow> chunk_mul n c xs ys ! k = conv n c ((!) xs) ((!) ys) k"
  by (simp add: chunk_mul_def)

lemma chunk_mul_split:
  assumes lens: "length xs = m * 2" "length ys = m * 2" "length ps = m * 2"
    and bnds: "bnd B xs" "bnd B ys" "bnd B ps" and B: "B \<le> 29439" and z: "\<bar>z\<bar> \<le> 1664"
    and c: "qeq (z * 169 * (z * 169)) c"
    and ps: "list_all2 qeq ps (chunk_mul (m * 2) c xs ys)"
  shows "list_all2 qeq (ntt_chunk m z ps)
    (chunk_mul m (z * 169) (take m (ntt_chunk m z xs)) (take m (ntt_chunk m z ys)) @
     chunk_mul m (- (z * 169)) (drop m (ntt_chunk m z xs)) (drop m (ntt_chunk m z ys)))"
proof -
  let ?w = "z * 169"
  have p: "qeq (ps ! k) (conv (m * 2) (?w * ?w) ((!) xs) ((!) ys) k)" if "k < m * 2" for k
  proof -
    have "qeq (ps ! k) (conv (m * 2) c ((!) xs) ((!) ys) k)"
      using list_all2_nthD2 [OF ps, of k] that by simp
    also have "qeq \<dots> (conv (m * 2) (?w * ?w) ((!) xs) ((!) ys) k)"
      by (rule conv_qeq [OF qeq_sym [OF c] _ _ that]) simp_all
    finally show ?thesis .
  qed
  note X = ntt_chunk_nth [OF lens(1) bnds(1) B z] and Y = ntt_chunk_nth [OF lens(2) bnds(2) B z]
    and P = ntt_chunk_nth [OF lens(3) bnds(3) B z]
  have mid: "qeq (ps ! k + v * ps ! (m + k)) (conv m v (\<lambda>i. xs ! i + v * xs ! (m + i)) (\<lambda>i. ys ! i + v * ys ! (m + i)) k)"
    if "k < m" "v * v = ?w * ?w" for k v
  proof -
    have "qeq (ps ! k + v * ps ! (m + k))
        (conv (m * 2) (v * v) ((!) xs) ((!) ys) k + v * conv (m * 2) (v * v) ((!) xs) ((!) ys) (m + k))"
      using that p by (intro qeq_intros) simp_all
    then show ?thesis using conv_split [OF that(1), of v "(!) xs" "(!) ys"] by (simp add: mult.commute [of m])
  qed
  have lo: "qeq (ntt_chunk m z ps ! k) (conv m ?w ((!) (take m (ntt_chunk m z xs))) ((!) (take m (ntt_chunk m z ys))) k)"
    if k: "k < m" for k
  proof -
    have "qeq (ntt_chunk m z ps ! k) (ps ! k + ?w * ps ! (m + k))"
      using P(2) [of k] k by (simp add: ac_simps)
    also note mid [OF k refl]
    also have "qeq (conv m ?w (\<lambda>i. xs ! i + ?w * xs ! (m + i)) (\<lambda>i. ys ! i + ?w * ys ! (m + i)) k)
        (conv m ?w ((!) (take m (ntt_chunk m z xs))) ((!) (take m (ntt_chunk m z ys))) k)"
      using X(2) Y(2) k by (intro conv_qeq qeq_refl) (auto simp: ac_simps intro: qeq_sym)
    finally show ?thesis .
  qed
  have hi: "qeq (ntt_chunk m z ps ! (m + k))
      (conv m (- ?w) ((!) (drop m (ntt_chunk m z xs))) ((!) (drop m (ntt_chunk m z ys))) k)"
    if k: "k < m" for k
  proof -
    have "qeq (ntt_chunk m z ps ! (m + k)) (ps ! k + (- ?w) * ps ! (m + k))"
      using P(3) [of "m + k"] k by (simp add: ac_simps)
    also have "qeq \<dots> (conv m (- ?w) (\<lambda>i. xs ! i + (- ?w) * xs ! (m + i)) (\<lambda>i. ys ! i + (- ?w) * ys ! (m + i)) k)"
      by (rule mid [OF k]) simp
    also have "qeq \<dots> (conv m (- ?w) ((!) (drop m (ntt_chunk m z xs))) ((!) (drop m (ntt_chunk m z ys))) k)"
      using X(3) [of "m + _"] Y(3) [of "m + _"] k lens by (intro conv_qeq qeq_refl) (auto simp: ac_simps intro: qeq_sym)
    finally show ?thesis .
  qed
  show ?thesis
    unfolding list_all2_conv_all_nth
  proof (intro conjI allI impI)
    fix k assume "k < length (ntt_chunk m z ps)"
    then show "qeq (ntt_chunk m z ps ! k) ((chunk_mul m ?w (take m (ntt_chunk m z xs)) (take m (ntt_chunk m z ys)) @
        chunk_mul m (- ?w) (drop m (ntt_chunk m z xs)) (drop m (ntt_chunk m z ys))) ! k)"
      using lo [of k] hi [of "k - m"] lens by (cases "k < m") (simp_all add: nth_append)
  qed (use lens in simp)
qed

lemma length_prods: "length (prods n cs xs ys) = n * length cs"
  by (induction n cs xs ys rule: prods.induct) auto

lemma bnd_take_drop: "bnd B xs \<Longrightarrow> bnd B (take n xs)" "bnd B xs \<Longrightarrow> bnd B (drop n xs)"
  by (auto simp: bnd_def dest: in_set_takeD in_set_dropD)

lemma bnd_append: "bnd B (xs @ ys) \<longleftrightarrow> bnd B xs \<and> bnd B ys"
  by (auto simp: bnd_def)

definition halves :: "int list \<Rightarrow> int list" where
  "halves zs = concat (map (\<lambda>z. [z * 169, - (z * 169)]) zs)"

lemma pass_prods:
  assumes "0 < len" and "B \<le> 29439"
    and "list_all2 (\<lambda>z c. \<bar>z\<bar> \<le> 1664 \<and> qeq (z * 169 * (z * 169)) c) zs cs"
    and "length xs = len * 2 * length zs" and "length ys = len * 2 * length zs"
    and "length ps = len * 2 * length zs" and "bnd B xs" and "bnd B ys" and "bnd B ps"
    and "list_all2 qeq ps (prods (len * 2) cs xs ys)"
  shows "list_all2 qeq (pass ntt_chunk len zs ps)
    (prods len (halves zs) (pass ntt_chunk len zs xs) (pass ntt_chunk len zs ys))"
  using assms(3-)
proof (induction zs cs arbitrary: xs ys ps rule: list_all2_induct)
  case (Cons z zs c cs)
  let ?n = "len * 2"
  have l: "length (take ?n us) = ?n" "length (drop ?n us) = ?n * length zs" "?n \<le> length us"
    if "length us = ?n * length (z # zs)" for us :: "int list"
    using that by auto
  have "list_all2 qeq (take ?n ps @ drop ?n ps)
      (chunk_mul ?n c (take ?n xs) (take ?n ys) @ prods ?n cs (drop ?n xs) (drop ?n ys))"
    using Cons.prems(7) by simp
  moreover have "length (take ?n ps) = length (chunk_mul ?n c (take ?n xs) (take ?n ys))"
    using l(1) [OF Cons.prems(3)] by simp
  ultimately have sp: "list_all2 qeq (take ?n ps) (chunk_mul ?n c (take ?n xs) (take ?n ys))"
    "list_all2 qeq (drop ?n ps) (prods ?n cs (drop ?n xs) (drop ?n ys))"
    using list_all2_append by blast+
  note hd = chunk_mul_split [OF l(1) [OF Cons.prems(1)] l(1) [OF Cons.prems(2)] l(1) [OF Cons.prems(3)]
      bnd_take_drop(1) [OF Cons.prems(4)] bnd_take_drop(1) [OF Cons.prems(5)] bnd_take_drop(1) [OF Cons.prems(6)]
      assms(2) _ _ sp(1), of z]
  note tl = Cons.IH [OF l(2) [OF Cons.prems(1)] l(2) [OF Cons.prems(2)] l(2) [OF Cons.prems(3)]
      bnd_take_drop(2) [OF Cons.prems(4)] bnd_take_drop(2) [OF Cons.prems(5)] bnd_take_drop(2) [OF Cons.prems(6)] sp(2)]
  have P: "pass ntt_chunk len (z # zs) us = ntt_chunk len z (take ?n us) @ pass ntt_chunk len zs (drop ?n us)"
    if "length us = ?n * length (z # zs)" for us
    using pass_Cons [OF assms(1) l(3) [OF that]] .
  have lc: "length (ntt_chunk len z (take ?n us)) = ?n" if "length us = ?n * length (z # zs)" for us
    using l(1) [OF that] by simp
  have "prods len (halves (z # zs)) (pass ntt_chunk len (z # zs) xs) (pass ntt_chunk len (z # zs) ys) =
      (chunk_mul len (z * 169) (take len (ntt_chunk len z (take ?n xs))) (take len (ntt_chunk len z (take ?n ys))) @
       chunk_mul len (- (z * 169)) (drop len (ntt_chunk len z (take ?n xs))) (drop len (ntt_chunk len z (take ?n ys)))) @
      prods len (halves zs) (pass ntt_chunk len zs (drop ?n xs)) (pass ntt_chunk len zs (drop ?n ys))"
    unfolding P [OF Cons.prems(1)] P [OF Cons.prems(2)]
    using lc [OF Cons.prems(1)] lc [OF Cons.prems(2)] by (simp add: halves_def mult_2_right)
  then show ?case
    unfolding P [OF Cons.prems(3)] using hd tl Cons.hyps(1) by (simp only: list_all2_appendI)
qed (simp add: halves_def)

definition moduli :: "nat \<Rightarrow> int list" where
  "moduli k = (case k of 0 \<Rightarrow> [-1] | Suc j \<Rightarrow> halves (zetas_of j))"

lemma zetas_moduli:
  "list_all (\<lambda>k. list_all2 (\<lambda>z c. \<bar>z\<bar> \<le> 1664 \<and> qeq (z * 169 * (z * 169)) c) (zetas_of k) (moduli k))
     [0, 1, 2, 3, 4, 5, 6]"
  by code_simp

lemma ntt_layer_prods:
  assumes "k \<in> {0, 1, 2, 3, 4, 5, 6}" and "B \<le> 29439"
    and "length xs = 256" and "length ys = 256" and "length ps = 256" and "bnd B xs" and "bnd B ys" and "bnd B ps"
    and "list_all2 qeq ps (prods (2 ^ (7 - k) * 2) (moduli k) xs ys)"
  shows "list_all2 qeq (ntt_layer k ps) (prods (2 ^ (7 - k)) (moduli (Suc k)) (ntt_layer k xs) (ntt_layer k ys))"
proof -
  have "list_all2 (\<lambda>z c. \<bar>z\<bar> \<le> 1664 \<and> qeq (z * 169 * (z * 169)) c) (zetas_of k) (moduli k)"
    using zetas_moduli assms(1) by auto
  moreover have "(256 :: nat) = 2 ^ (7 - k) * 2 * length (zetas_of k)"
    using length_zetas_of [OF assms(1)] assms(1) by auto
  ultimately show ?thesis
    unfolding ntt_layer_def moduli_def nat.case
    by (intro pass_prods) (use assms in \<open>auto simp only: moduli_def zero_less_power zero_less_numeral\<close>)
qed

text \<open>After \<open>k\<close> passes: three lists of which the first is the product of the others.\<close>

definition level :: "nat \<Rightarrow> int \<Rightarrow> int list \<Rightarrow> int list \<Rightarrow> int list \<Rightarrow> bool" where
  "level k B ps xs ys \<longleftrightarrow>
     length xs = 256 \<and> length ys = 256 \<and> length ps = 256 \<and> bnd B xs \<and> bnd B ys \<and> bnd B ps \<and>
     list_all2 qeq ps (prods (2 ^ (8 - k)) (moduli k) xs ys)"

lemma level_step:
  assumes "level k B ps xs ys" and "k \<in> {0, 1, 2, 3, 4, 5, 6}" and "B \<le> 29439" and "j = Suc k"
  shows "level j (B + 3328) (ntt_layer k ps) (ntt_layer k xs) (ntt_layer k ys)"
proof -
  have "(2 :: nat) ^ (8 - k) = 2 ^ (7 - k) * 2" and "8 - Suc k = 7 - k" using assms(2) by auto
  then show ?thesis
    using assms ntt_layer_prods [OF assms(2,3), of xs ys ps]
    by (simp only: assms(4) level_def length_ntt_layer ntt_layer_bnd simp_thms)
qed

lemma ntt_prods:
  assumes "level 0 9471 ps xs ys"
  shows "list_all2 qeq (ntt ps) (prods 2 (moduli 7) (ntt xs) (ntt ys))"
proof -
  have len: "length ps = 256" "length xs = 256" "length ys = 256" using assms by (auto simp: level_def)
  have "level 7 (9471 + 3328 + 3328 + 3328 + 3328 + 3328 + 3328 + 3328) (ntt ps) (ntt xs) (ntt ys)"
    unfolding ntt_layers [OF len(1)] ntt_layers [OF len(2)] ntt_layers [OF len(3)]
    by (rule level_step [where k = 6], rule level_step [where k = 5], rule level_step [where k = 4],
        rule level_step [where k = 3], rule level_step [where k = 2], rule level_step [where k = 1],
        rule level_step [where k = 0], rule assms) simp_all
  then show ?thesis by (simp add: level_def)
qed

lemma prods_qeq:
  assumes "list_all2 qeq xs xs'" and "list_all2 qeq ys ys'" and "length xs = n * length cs" and "length ys = n * length cs"
  shows "list_all2 qeq (prods n cs xs ys) (prods n cs xs' ys')"
  using assms
proof (induction cs arbitrary: xs ys xs' ys')
  case (Cons c cs)
  have "list_all2 qeq (chunk_mul n c (take n xs) (take n ys)) (chunk_mul n c (take n xs') (take n ys'))"
    using Cons.prems by (auto simp: list_all2_conv_all_nth intro!: conv_qeq)
  moreover have "list_all2 qeq (prods n cs (drop n xs) (drop n ys)) (prods n cs (drop n xs') (drop n ys'))"
    using Cons.prems by (intro Cons.IH list_all2_dropI) simp_all
  ultimately show ?case by (simp add: list_all2_appendI)
qed simp

lemma fqmul_product:
  assumes "\<bar>a * b\<bar> \<le> 109084671"
  shows "\<bar>fqmul a b\<bar> \<le> 3328" and "qeq (fqmul a b) (a * b * 169)"
  using assms montgomery_reduce_bound [of "a * b"] qeq_montgomery by (auto simp: fqmul_def)

lemma basemul_eq:
  assumes "\<bar>a0\<bar> \<le> 4095" and "\<bar>a1\<bar> \<le> 4095" and "\<bar>b0\<bar> \<le> 4095" and "\<bar>b1\<bar> \<le> 4095" and "\<bar>z\<bar> \<le> 1664"
    and "basemul (a0, a1) (b0, b1) z = (r0, r1)"
  shows "qeq r0 (169 * (a0 * b0 + z * 169 * (a1 * b1)))" and "qeq r1 (169 * (a0 * b1 + a1 * b0))"
    and "\<bar>r0\<bar> \<le> 6656" and "\<bar>r1\<bar> \<le> 6656"
proof -
  note p = fqmul_product [OF order_trans [OF abs_mult_le]]
  note f11 = p [OF assms(2,4), simplified] and f00 = p [OF assms(1,3), simplified]
    and f01 = p [OF assms(1,4), simplified] and f10 = p [OF assms(2,3), simplified]
    and fz = p [OF f11(1) assms(5), simplified]
  have r: "r0 = fqmul (fqmul a1 b1) z + fqmul a0 b0" "r1 = fqmul a0 b1 + fqmul a1 b0"
    using assms(6) f11(1) f00(1) f01(1) f10(1) fz(1) by (auto simp: basemul_def as_i16_id)
  show "\<bar>r0\<bar> \<le> 6656" "\<bar>r1\<bar> \<le> 6656" unfolding r using f00(1) f01(1) f10(1) fz(1) by linarith+
  have "qeq (fqmul (fqmul a1 b1) z) (a1 * b1 * 169 * z * 169)"
    by (rule qeq_trans [OF fz(2)]) (intro qeq_intros f11(2))
  from qeq_add [OF this f00(2)] show "qeq r0 (169 * (a0 * b0 + z * 169 * (a1 * b1)))"
    by (simp add: r algebra_simps)
  show "qeq r1 (169 * (a0 * b1 + a1 * b0))"
    using qeq_add [OF f01(2) f10(2)] by (simp add: r algebra_simps)
qed

lemma chunk_mul_2:
  "chunk_mul 2 c [a0, a1] [b0, b1] = [a0 * b0 + c * (a1 * b1), a0 * b1 + a1 * b0]"
  by (simp add: chunk_mul_def conv_def numeral_2_eq_2 algebra_simps)

lemma basemul_group_eq:
  assumes "length a = 4" and "length b = 4" and "bnd 4095 a" and "bnd 4095 b" and "\<bar>z\<bar> \<le> 1664"
  shows "list_all2 qeq (basemul_group z a b) (map ((*) 169) (prods 2 [z * 169, - (z * 169)] a b))"
    and "bnd 6656 (basemul_group z a b)"
proof -
  from assms(1,2) obtain a0 a1 a2 a3 b0 b1 b2 b3 where ab: "a = [a0, a1, a2, a3]" "b = [b0, b1, b2, b3]"
    by (auto simp: length_Suc_conv eval_nat_numeral)
  obtain r0 r1 r2 r3 where r: "basemul (a0, a1) (b0, b1) z = (r0, r1)" "basemul (a2, a3) (b2, b3) (- z) = (r2, r3)"
    by (metis surj_pair)
  have g: "basemul_group z a b = [r0, r1, r2, r3]" using r by (simp add: basemul_group_def ab)
  have B: "\<bar>a0\<bar> \<le> 4095" "\<bar>a1\<bar> \<le> 4095" "\<bar>a2\<bar> \<le> 4095" "\<bar>a3\<bar> \<le> 4095"
    "\<bar>b0\<bar> \<le> 4095" "\<bar>b1\<bar> \<le> 4095" "\<bar>b2\<bar> \<le> 4095" "\<bar>b3\<bar> \<le> 4095" "\<bar>- z\<bar> \<le> 1664"
    using assms(3,4,5) by (auto simp: bnd_def ab)
  note lo = basemul_eq [OF B(1,2,5,6) assms(5) r(1)] and hi = basemul_eq [OF B(3,4,7,8,9) r(2)]
  show "list_all2 qeq (basemul_group z a b) (map ((*) 169) (prods 2 [z * 169, - (z * 169)] a b))"
    unfolding g using lo(1,2) hi(1,2) by (simp add: ab chunk_mul_2)
  show "bnd 6656 (basemul_group z a b)"
    unfolding g using lo(3,4) hi(3,4) by (simp add: bnd_def)
qed

lemma basemul_montgomery_eq:
  assumes "length a = 256" and "length b = 256" and "bnd 4095 a" and "bnd 4095 b"
  shows "list_all2 qeq (basemul_montgomery a b) (map ((*) 169) (prods 2 (moduli 7) a b))"
    and "bnd 6656 (basemul_montgomery a b)"
proof -
  let ?go = "\<lambda>zs a b. concat (map (\<lambda>((ca, cb), zeta). basemul_group zeta ca cb)
       (zip (zip (chunks_exact 4 a) (chunks_exact 4 b)) zs))"
  have go: "list_all2 qeq (?go zs a b) (map ((*) 169) (prods 2 (halves zs) a b)) \<and> bnd 6656 (?go zs a b)"
    if "length a = 4 * length zs" "length b = 4 * length zs" "bnd 4095 a" "bnd 4095 b" "bnd 1664 zs" for zs a b
    using that
  proof (induction zs arbitrary: a b)
    case (Cons z zs)
    have eq: "?go (z # zs) a b = basemul_group z (take 4 a) (take 4 b) @ ?go zs (drop 4 a) (drop 4 b)"
      using Cons.prems(1,2) by (simp add: chunks_exact.simps [of 4 a] chunks_exact.simps [of 4 b])
    have pr: "prods 2 (halves (z # zs)) a b =
        prods 2 [z * 169, - (z * 169)] (take 4 a) (take 4 b) @ prods 2 (halves zs) (drop 4 a) (drop 4 b)"
      by (simp add: halves_def min_def drop_take)
    have "list_all2 qeq (basemul_group z (take 4 a) (take 4 b))
        (map ((*) 169) (prods 2 [z * 169, - (z * 169)] (take 4 a) (take 4 b)))"
      and "bnd 6656 (basemul_group z (take 4 a) (take 4 b))"
      using Cons.prems by (intro basemul_group_eq bnd_take_drop; simp add: bnd_def)+
    moreover have "list_all2 qeq (?go zs (drop 4 a) (drop 4 b)) (map ((*) 169) (prods 2 (halves zs) (drop 4 a) (drop 4 b))) \<and>
        bnd 6656 (?go zs (drop 4 a) (drop 4 b))"
      using Cons.prems by (intro Cons.IH bnd_take_drop) (auto simp: bnd_def)
    ultimately show ?case
      unfolding eq pr map_append bnd_append using list_all2_appendI by blast
  qed (simp add: halves_def bnd_def)
  have z: "drop 64 ZETAS = zetas_of 6" by code_simp
  have "moduli 7 = halves (zetas_of 6)" by (simp add: moduli_def numeral_eq_Suc)
  moreover have "length (zetas_of 6) = 64" "bnd 1664 (zetas_of 6)"
    using length_zetas_of [of 6] zeta_bnd bnd_take_drop(2) [of 1664 ZETAS 64] by (simp_all add: z)
  ultimately show "list_all2 qeq (basemul_montgomery a b) (map ((*) 169) (prods 2 (moduli 7) a b))"
    and "bnd 6656 (basemul_montgomery a b)"
    using go [of a "zetas_of 6" b] assms unfolding basemul_montgomery_def z by simp_all
qed

lemma list_all2_qeq_trans: "list_all2 qeq xs ys \<Longrightarrow> list_all2 qeq ys zs \<Longrightarrow> list_all2 qeq xs zs"
  by (rule list_all2_trans [of qeq qeq qeq, OF qeq_trans])

lemma list_all2_qeq_sym: "list_all2 qeq xs ys \<Longrightarrow> list_all2 qeq ys xs"
  by (auto simp: list_all2_conv_all_nth intro: qeq_sym)

lemma list_all2_qeq_refl [simp]: "list_all2 qeq xs xs"
  by (simp add: list_all2_conv_all_nth)

lemma list_all2_qeq_scale: "list_all2 qeq xs ys \<Longrightarrow> list_all2 qeq (map ((*) m) xs) (map ((*) m) ys)"
  by (auto simp: list_all2_conv_all_nth intro: qeq_mult)

lemma poly_reduce_eq:
  assumes "bnd 32767 p"
  shows "list_all2 qeq (poly_reduce p) p" and "bnd 1664 (poly_reduce p)"
proof -
  have b: "-32768 \<le> x" "x < 32768" if "x \<in> set p" for x
    using assms that by (force simp: bnd_def)+
  show "list_all2 qeq (poly_reduce p) p"
    using b by (auto simp: poly_reduce_def list_all2_conv_all_nth intro: qeq_barrett)
  show "bnd 1664 (poly_reduce p)"
    using b by (auto simp: poly_reduce_def bnd_def intro: barrett_reduce_bound)
qed

lemma poly_ntt_eq:
  assumes "length p = 256" and "bnd 9471 p"
  shows "list_all2 qeq (poly_ntt p) (ntt p)" and "bnd 1664 (poly_ntt p)" and "length (poly_ntt p) = 256"
  using poly_reduce_eq [OF ntt_bnd [OF assms]] length_ntt [OF assms(1)]
  by (auto simp: poly_ntt_def poly_reduce_def)

text \<open>C2: Multiplication through the transform is schoolbook multiplication in the ring of the scheme: for
  polynomials whose coefficients are at most 9471 in size, \<open>invntt_tomont\<close> of \<open>basemul_montgomery\<close>
  of the two transforms is congruent, coefficient by coefficient, to their product modulo \<open>X ^ 256 + 1\<close>.\<close>
theorem ntt_multiplies:
  assumes "length f = 256" and "length g = 256" and "bnd 9471 f" and "bnd 9471 g"
  shows "list_all2 qeq (poly_invntt_tomont (basemul_montgomery (poly_ntt f) (poly_ntt g))) (negacyclic f g)"
proof -
  define p where "p = map (\<lambda>x. x mod 3329) (negacyclic f g)"
  have len: "length p = 256" by (simp add: p_def negacyclic_def)
  have bp: "bnd 9471 p"
    using pos_mod_bound [of 3329] pos_mod_sign [of 3329] unfolding p_def bnd_def by (auto intro: order_trans less_imp_le simp: abs_if)
  have pq: "list_all2 qeq p (negacyclic f g)" by (simp add: p_def list_all2_conv_all_nth qeq_def)
  then have lev: "level 0 9471 p f g"
    using assms len bp by (simp add: level_def moduli_def negacyclic_def)
  note F = poly_ntt_eq [OF assms(1,3)] and G = poly_ntt_eq [OF assms(2,4)]
  note bm = basemul_montgomery_eq [OF F(3) G(3) bnd_mono [OF F(2)] bnd_mono [OF G(2)], simplified]
  have "length (moduli 7) = 128" by code_simp
  then have "list_all2 qeq (prods 2 (moduli 7) (poly_ntt f) (poly_ntt g)) (ntt p)"
    using list_all2_qeq_trans [OF prods_qeq [OF F(1) G(1)] list_all2_qeq_sym [OF ntt_prods [OF lev]]] F(3) G(3) by simp
  then have "list_all2 qeq (basemul_montgomery (poly_ntt f) (poly_ntt g)) (map ((*) 169) (ntt p))"
    using list_all2_qeq_trans [OF bm(1) list_all2_qeq_scale] by blast
  then have "list_all2 qeq (invntt (basemul_montgomery (poly_ntt f) (poly_ntt g))) (map ((*) (65536 * 169)) p)"
    by (rule invntt_ntt [OF len bp]) (rule bnd_mono [OF bm(2)], simp)
  moreover have "list_all2 qeq (map ((*) (65536 * 169)) p) p"
    using qeq_mult [of "65536 * 169" 1] by (simp add: list_all2_conv_all_nth qeq_def)
  ultimately show ?thesis
    using pq list_all2_qeq_trans unfolding poly_invntt_tomont_def by blast
qed

theorem ntt_multiplies_witness:
  "list_all2 qeq (poly_invntt_tomont (basemul_montgomery (poly_ntt (replicate 256 3)) (poly_ntt (replicate 256 (-7)))))
     (negacyclic (replicate 256 3) (replicate 256 (-7)))"
  by (rule ntt_multiplies) (simp_all add: bnd_def)

end
