(* ===== verification/Kyber_Kem.thy ===== *)
theory Kyber_Kem
  imports Kyber_Mul
begin

section \<open>Kyber: encryption and key encapsulation (\<open>indcpa.rs\<close>, \<open>kem.rs\<close>, \<open>lib.rs\<close>)\<close>

text \<open>
  The hash functions come from the crate \<open>sha3\<close>: the record \<open>sha3_lib\<close> has the digests
  and, for the two extendable output functions, the infinite output stream of an input, of which the
  readers take the next bytes. The refill loop of \<open>gen_matrix\<close> has no bound, so whatever calls
  it has an option type, \<open>None\<close> for not returning.

  The code builds and splits its byte arrays by \<open>transmute\<close> of tuples of arrays; the model is the
  concatenation in the order of the tuple (\<open>publickey\<close> reads the key at exactly that place).
\<close>

record sha3_lib =
  sha3_256 :: "bytes \<Rightarrow> bytes"
  sha3_512 :: "bytes \<Rightarrow> bytes"
  shake128 :: "bytes \<Rightarrow> nat \<Rightarrow> u8"
  shake256 :: "bytes \<Rightarrow> nat \<Rightarrow> u8"

definition SYMBYTES :: nat where
  "SYMBYTES = 32"

definition POLYVECBYTES :: nat where
  "POLYVECBYTES = KYBER_K * 384"

definition POLYVECCOMPRESSEDBYTES :: nat where
  "POLYVECCOMPRESSEDBYTES = KYBER_K * 320"

definition INDCPA_PUBLICKEYBYTES :: nat where
  "INDCPA_PUBLICKEYBYTES = POLYVECBYTES + SYMBYTES"

definition INDCPA_SECRETKEYBYTES :: nat where
  "INDCPA_SECRETKEYBYTES = POLYVECBYTES"

subsection \<open>Hashing and sampling\<close>

definition xof_read :: "(nat \<Rightarrow> u8) \<Rightarrow> nat \<Rightarrow> nat \<Rightarrow> bytes" where
  "xof_read s pos n = map (\<lambda>i. s (pos + i)) [0..<n]"

definition hash_h :: "sha3_lib \<Rightarrow> bytes \<Rightarrow> bytes" where
  "hash_h L input = sha3_256 L input"

definition hash_g :: "sha3_lib \<Rightarrow> bytes \<Rightarrow> bytes" where
  "hash_g L input = sha3_512 L input"

definition xof_absorb :: "sha3_lib \<Rightarrow> bytes \<Rightarrow> u8 \<Rightarrow> u8 \<Rightarrow> nat \<Rightarrow> u8" where
  "xof_absorb L seed x y = shake128 L (seed @ [x, y])"

definition kyber_prf :: "sha3_lib \<Rightarrow> nat \<Rightarrow> bytes \<Rightarrow> u8 \<Rightarrow> bytes" where
  "kyber_prf L n key nonce = xof_read (shake256 L (key @ [nonce])) 0 n"

definition getnoise_eta1 :: "sha3_lib \<Rightarrow> bytes \<Rightarrow> u8 \<Rightarrow> kpoly" where
  "getnoise_eta1 L seed nonce = cbd2 (kyber_prf L (2 * KYBER_N div 4) seed nonce)"

definition getnoise_eta2 :: "sha3_lib \<Rightarrow> bytes \<Rightarrow> u8 \<Rightarrow> kpoly" where
  "getnoise_eta2 L seed nonce = cbd2 (kyber_prf L (2 * KYBER_N div 4) seed nonce)"

subsection \<open>Rejection sampling of the matrix\<close>

text \<open>
  The values written to the slice so far are \<open>ws\<close>, its capacity is \<open>n\<close>; a value that finds
  the slice full ends the loop.
\<close>

fun rej_loop :: "nat \<Rightarrow> int list \<Rightarrow> bytes list \<Rightarrow> int list" where
  "rej_loop n ws [] = ws"
| "rej_loop n ws (ch # chs) =
     (let a = uint (ch ! 0); b = uint (ch ! 1); c = uint (ch ! 2);
          val0 = (a OR push_bit 8 b) AND 0xfff;
          val1 = (drop_bit 4 b OR push_bit 4 c) AND 0xfff in
      if val0 < KYBER_Q \<and> length ws = n then ws
      else let ws1 = if val0 < KYBER_Q then ws @ [val0] else ws in
           if val1 < KYBER_Q \<and> length ws1 = n then ws1
           else rej_loop n (if val1 < KYBER_Q then ws1 @ [val1] else ws1) chs)"

definition rej_uniform :: "int list \<Rightarrow> bytes \<Rightarrow> int list \<times> nat" where
  "rej_uniform r buf =
     (let ws = rej_loop (length r) [] (chunks_exact 3 buf) in
      (ws @ drop (length ws) r, length ws))"

definition XOF_BLOCKBYTES :: nat where
  "XOF_BLOCKBYTES = 168"

definition GEN_MATRIX_NBLOCKS :: nat where
  "GEN_MATRIX_NBLOCKS = (12 * KYBER_N div 8 * 2 ^ 12 div 3329 + XOF_BLOCKBYTES) div XOF_BLOCKBYTES"

partial_function (option) gen_refill ::
  "(nat \<Rightarrow> u8) \<Rightarrow> nat \<Rightarrow> bytes \<Rightarrow> nat \<Rightarrow> int list \<Rightarrow> nat \<Rightarrow> int list option" where
  "gen_refill s pos buf buflen a ctr =
     (if ctr < KYBER_N then
        let off = buflen mod 3;
            buf1 = fold (\<lambda>k b. b[k := b ! (buflen - off + k)]) [0..<off] buf;
            buf2 = buf1[off := s pos];
            buflen2 = off + XOF_BLOCKBYTES;
            res = rej_uniform (drop ctr a) (take buflen2 buf2) in
        gen_refill s (pos + 1) buf2 buflen2 (take ctr a @ fst res) (ctr + snd res)
      else Some a)"

definition gen_poly :: "(nat \<Rightarrow> u8) \<Rightarrow> kpoly option" where
  "gen_poly s =
     (let buflen = GEN_MATRIX_NBLOCKS * XOF_BLOCKBYTES;
          buf = xof_read s 0 buflen @ [0, 0];
          res = rej_uniform (replicate KYBER_N 0) (take buflen buf) in
      gen_refill s buflen buf buflen (fst res) (snd res))"

definition gen_matrix :: "sha3_lib \<Rightarrow> bytes \<Rightarrow> bool \<Rightarrow> kpolyvec list option" where
  "gen_matrix L seed transposed =
     those (map (\<lambda>i. those (map (\<lambda>j.
       gen_poly (if transposed then xof_absorb L seed (of_nat i) (of_nat j)
                 else xof_absorb L seed (of_nat j) (of_nat i))) [0..<KYBER_K])) [0..<KYBER_K])"

subsection \<open>The encryption scheme\<close>

definition pack_pk :: "kpolyvec \<Rightarrow> bytes \<Rightarrow> bytes" where
  "pack_pk v seed = polyvec_to_bytes v @ seed"

definition unpack_pk :: "bytes \<Rightarrow> kpolyvec \<times> bytes" where
  "unpack_pk p = (polyvec_from_bytes (take POLYVECBYTES p), drop POLYVECBYTES p)"

definition pack_sk :: "kpolyvec \<Rightarrow> bytes" where
  "pack_sk v = polyvec_to_bytes v"

definition unpack_sk :: "bytes \<Rightarrow> kpolyvec" where
  "unpack_sk sk = polyvec_from_bytes sk"

definition pack_ciphertext :: "kpolyvec \<Rightarrow> kpoly \<Rightarrow> bytes" where
  "pack_ciphertext b v = polyvec_compress b @ poly_compress v"

definition unpack_ciphertext :: "bytes \<Rightarrow> kpolyvec \<times> kpoly" where
  "unpack_ciphertext c =
     (polyvec_decompress (take POLYVECCOMPRESSEDBYTES c), poly_decompress (drop POLYVECCOMPRESSEDBYTES c))"

definition indcpa_keypair :: "sha3_lib \<Rightarrow> bytes \<Rightarrow> (bytes \<times> bytes) option" where
  "indcpa_keypair L coins =
     (let buf = hash_g L coins;
          publicseed = take SYMBYTES buf;
          noiseseed = drop SYMBYTES buf in
      case gen_matrix L publicseed False of
        None \<Rightarrow> None
      | Some a \<Rightarrow>
          let skpv = polyvec_ntt (map (\<lambda>i. getnoise_eta1 L noiseseed (of_nat i)) [0..<KYBER_K]);
              e = polyvec_ntt (map (\<lambda>i. getnoise_eta1 L noiseseed (of_nat (i + KYBER_K))) [0..<KYBER_K]);
              pkpv = map poly_tomont (map (\<lambda>r. basemul_acc_montgomery r skpv) a);
              pkpv' = polyvec_reduce (polyvec_add pkpv e) in
          Some (pack_pk pkpv' publicseed, pack_sk skpv))"

definition indcpa_enc :: "sha3_lib \<Rightarrow> bytes \<Rightarrow> bytes \<Rightarrow> bytes \<Rightarrow> bytes option" where
  "indcpa_enc L m p coins =
     (let (pkpv, seed) = unpack_pk p;
          k = poly_from_msg m in
      case gen_matrix L seed True of
        None \<Rightarrow> None
      | Some at \<Rightarrow>
          let sp = polyvec_ntt (map (\<lambda>i. getnoise_eta1 L coins (of_nat i)) [0..<KYBER_K]);
              ep = map (\<lambda>i. getnoise_eta2 L coins (of_nat (i + KYBER_K))) [0..<KYBER_K];
              epp = getnoise_eta2 L coins (of_nat (KYBER_K + KYBER_K));
              b = polyvec_invntt_tomont (map (\<lambda>r. basemul_acc_montgomery r sp) at);
              v = poly_invntt_tomont (basemul_acc_montgomery pkpv sp);
              b' = polyvec_reduce (polyvec_add b ep);
              v' = poly_reduce (poly_add (poly_add v epp) k) in
          Some (pack_ciphertext b' v'))"

definition indcpa_dec :: "bytes \<Rightarrow> bytes \<Rightarrow> bytes" where
  "indcpa_dec ct sk =
     (let skpv = unpack_sk sk;
          (b, v) = unpack_ciphertext ct;
          mp = poly_invntt_tomont (basemul_acc_montgomery skpv (polyvec_ntt b)) in
      poly_to_msg (poly_reduce (poly_sub v mp)))"

subsection \<open>Key encapsulation\<close>

definition kyber_verify :: "bytes \<Rightarrow> bytes \<Rightarrow> bool" where
  "kyber_verify a b = (fold (\<lambda>(x, y) acc. acc OR (x XOR y)) (zip a b) 0 = 0)"

definition kem_keypair :: "sha3_lib \<Rightarrow> bytes \<Rightarrow> bytes option" where
  "kem_keypair L coins =
     (case indcpa_keypair L (take SYMBYTES coins) of
        None \<Rightarrow> None
      | Some (p, sk) \<Rightarrow> Some (sk @ p @ hash_h L p @ drop SYMBYTES coins))"

definition kem_enc :: "sha3_lib \<Rightarrow> bytes \<Rightarrow> bytes \<Rightarrow> (bytes \<times> bytes) option" where
  "kem_enc L p coins =
     (let kr = hash_g L (coins @ hash_h L p) in
      case indcpa_enc L coins p (drop SYMBYTES kr) of
        None \<Rightarrow> None
      | Some ct \<Rightarrow> Some (ct, take SYMBYTES kr))"

definition kem_dec :: "sha3_lib \<Rightarrow> bytes \<Rightarrow> bytes \<Rightarrow> bytes option option" where
  "kem_dec L ct keys =
     (let sk = take INDCPA_SECRETKEYBYTES keys;
          p = take INDCPA_PUBLICKEYBYTES (drop INDCPA_SECRETKEYBYTES keys);
          pk_hash = take SYMBYTES (drop (INDCPA_SECRETKEYBYTES + INDCPA_PUBLICKEYBYTES) keys);
          msg = indcpa_dec ct sk;
          kr = hash_g L (msg @ pk_hash) in
      case indcpa_enc L msg p (drop SYMBYTES kr) of
        None \<Rightarrow> None
      | Some ct' \<Rightarrow> Some (if kyber_verify ct ct' then Some (take SYMBYTES kr) else None))"

text \<open>The public types of \<open>lib.rs\<close>: a key pair and a public key are their bytes.\<close>

definition kyber_publickey :: "bytes \<Rightarrow> bytes" where
  "kyber_publickey keys = take INDCPA_PUBLICKEYBYTES (drop INDCPA_SECRETKEYBYTES keys)"

lemmas kyber_sizes = SYMBYTES_def POLYVECBYTES_def POLYVECCOMPRESSEDBYTES_def INDCPA_PUBLICKEYBYTES_def
  INDCPA_SECRETKEYBYTES_def KYBER_K_def KYBER_N_def XOF_BLOCKBYTES_def GEN_MATRIX_NBLOCKS_def

subsection \<open>Rejection sampling: the reference\<close>

definition candidates :: "bytes \<Rightarrow> int list" where
  "candidates ch =
     [(uint (ch ! 0) OR push_bit 8 (uint (ch ! 1))) AND 0xfff,
      (drop_bit 4 (uint (ch ! 1)) OR push_bit 4 (uint (ch ! 2))) AND 0xfff]"

definition accepted :: "bytes \<Rightarrow> int list" where
  "accepted buf = filter (\<lambda>v. v < 3329) (concat (map candidates (chunks_exact 3 buf)))"

lemma rej_loop_eq:
  "length ws \<le> n \<Longrightarrow>
   rej_loop n ws chs = take n (ws @ filter (\<lambda>v. v < 3329) (concat (map candidates chs)))"
proof (induction chs arbitrary: ws)
  case (Cons ch chs)
  obtain v0 v1 where v: "candidates ch = [v0, v1]" by (simp add: candidates_def)
  then have step: "rej_loop n ws (ch # chs) =
      (if v0 < 3329 \<and> length ws = n then ws
       else let ws1 = if v0 < 3329 then ws @ [v0] else ws in
            if v1 < 3329 \<and> length ws1 = n then ws1
            else rej_loop n (if v1 < 3329 then ws1 @ [v1] else ws1) chs)"
    unfolding candidates_def rej_loop.simps KYBER_Q_def Let_def by simp
  have IH: "length us \<le> n \<Longrightarrow>
      rej_loop n us chs = us @ take (n - length us) (filter (\<lambda>v. v < 3329) (concat (map candidates chs)))" for us
    using Cons.IH [of us] by simp
  show ?case
    unfolding step using Cons.prems
    by (auto simp: v IH Let_def take_Cons' le_Suc_eq)
qed simp

lemma rej_uniform_eq:
  "rej_uniform r buf =
    (take (length r) (accepted buf) @ drop (length (accepted buf)) r, min (length r) (length (accepted buf)))"
proof -
  have "drop (min (length r) (length (accepted buf))) r = drop (length (accepted buf)) r"
    by (simp add: min_def)
  then show ?thesis by (simp add: rej_uniform_def rej_loop_eq accepted_def [symmetric] Let_def min.commute)
qed

lemma accepted_range: "v \<in> set (accepted buf) \<Longrightarrow> 0 \<le> v \<and> v < 3329"
  by (auto simp: accepted_def candidates_def)

lemma gen_refill_range:
  assumes "gen_refill s pos buf buflen a ctr = Some p"
  shows "length a = 256 \<longrightarrow> set (take ctr a) \<subseteq> {0..<3329} \<longrightarrow> length p = 256 \<and> set p \<subseteq> {0..<3329}"
proof (rule gen_refill.raw_induct [OF _ assms, of "\<lambda>s pos buf buflen a ctr p. length a = 256 \<longrightarrow>
    set (take ctr a) \<subseteq> {0..<3329} \<longrightarrow> length p = 256 \<and> set p \<subseteq> {0..<3329}"])
  fix gen s pos buf buflen a ctr p
  assume IH: "\<And>s pos buf buflen a ctr p. gen s pos buf buflen a ctr = Some p \<Longrightarrow> length a = 256 \<longrightarrow>
    set (take ctr a) \<subseteq> {0..<3329} \<longrightarrow> length p = 256 \<and> set p \<subseteq> {0..<3329}"
    and run: "(if ctr < KYBER_N then
        let off = buflen mod 3; buf1 = fold (\<lambda>k b. b[k := b ! (buflen - off + k)]) [0..<off] buf;
            buf2 = buf1[off := s pos]; buflen2 = off + XOF_BLOCKBYTES;
            res = rej_uniform (drop ctr a) (take buflen2 buf2) in
        gen s (pos + 1) buf2 buflen2 (take ctr a @ fst res) (ctr + snd res)
      else Some a) = Some p"
  show "length a = 256 \<longrightarrow> set (take ctr a) \<subseteq> {0..<3329} \<longrightarrow> length p = 256 \<and> set p \<subseteq> {0..<3329}"
  proof (intro impI)
  assume a: "length a = 256" "set (take ctr a) \<subseteq> {0..<3329}"
  show "length p = 256 \<and> set p \<subseteq> {0..<3329}"
  proof (cases "ctr < KYBER_N")
    case True
    define acc where "acc = accepted (take (buflen mod 3 + XOF_BLOCKBYTES)
      ((fold (\<lambda>k b. b[k := b ! (buflen - buflen mod 3 + k)]) [0..<buflen mod 3] buf)[buflen mod 3 := s pos]))"
    let ?a = "take ctr a @ take (256 - ctr) acc @ drop (ctr + length acc) a"
    from run True obtain pos' buf' len' where
      run': "gen s pos' buf' len' ?a (ctr + min (256 - ctr) (length acc)) = Some p"
      by (auto simp: rej_uniform_eq Let_def a(1) acc_def add.commute)
    have c: "ctr < 256" using True by (simp add: KYBER_N_def)
    have "take (ctr + min (256 - ctr) (length acc)) ?a = take ctr a @ take (256 - ctr) acc"
      using c a(1) by (simp add: min_def)
    moreover have "set (take (256 - ctr) acc) \<subseteq> {0..<3329}"
      unfolding acc_def using accepted_range by (meson atLeastLessThan_iff in_set_takeD subsetI)
    ultimately have "set (take (ctr + min (256 - ctr) (length acc)) ?a) \<subseteq> {0..<3329}"
      using a(2) by (simp only: set_append Un_least)
    moreover have "length ?a = 256" using c a(1) by simp
    ultimately show ?thesis using IH [OF run'] by blast
  next
    case False
    then show ?thesis using run a by (simp add: KYBER_N_def)
  qed
  qed
qed

lemma gen_poly_range: "gen_poly s = Some p \<Longrightarrow> length p = 256 \<and> set p \<subseteq> {0..<3329}"
  unfolding gen_poly_def Let_def
  by (rule gen_refill_range [rule_format], assumption)
    (auto simp: rej_uniform_eq KYBER_N_def min_def dest!: in_set_takeD accepted_range)

text \<open>A first squeeze with 256 acceptable values determines the polynomial.\<close>

lemma gen_poly_first:
  assumes "256 \<le> length (accepted (xof_read s 0 504))"
  shows "gen_poly s = Some (take 256 (accepted (xof_read s 0 504)))"
  using assms
  by (simp add: gen_poly_def kyber_sizes rej_uniform_eq gen_refill.simps [of _ _ _ _ _ 256] xof_read_def)

text \<open>
  \<open>xof_reader.read(&mut buf[off..=off])\<close> reads a single byte, so a refill examines one new byte
  and 167 bytes of the first block again.
\<close>

lemma candidate_ge:
  assumes "hi = 255"
  shows "\<not> (uint (lo :: u8) OR push_bit 8 (uint (hi :: u8))) AND 0xfff < 3329"
proof -
  have "(uint lo OR push_bit 8 255) AND 0xfff = (push_bit 8 255 AND 0xfff) OR (uint lo AND 0xfff)"
    by (simp only: bit.conj_disj_distrib2 or.commute)
  also have "push_bit 8 255 AND 0xfff = (3840 :: int)" by simp
  finally have "3840 \<le> (uint lo OR push_bit 8 255) AND 0xfff"
    by (simp add: or_greater_eq)
  then show ?thesis using assms by simp
qed

lemma accepted_stale:
  assumes "length buf = 168" and "\<And>i. 1 \<le> i \<Longrightarrow> i < 168 \<Longrightarrow> buf ! i = 255"
  shows "accepted buf = []"
proof -
  have "candidates ch = c \<Longrightarrow> \<forall>v\<in>set c. \<not> v < 3329" if "ch \<in> set (chunks_exact 3 buf)" for ch c
  proof -
    from that obtain k where k: "k < 56" "ch = chunks_exact 3 buf ! k"
      using assms(1) by (auto simp: in_set_conv_nth length_chunks_exact)
    then have "ch ! 1 = 255" "ch ! 2 = 255"
      using chunks_exact_nth [of 3 buf 56 k] assms by simp_all
    then show "candidates ch = c \<Longrightarrow> \<forall>v\<in>set c. \<not> v < 3329"
      using candidate_ge [of "ch ! 1" "ch ! 0"] by (auto simp: candidates_def)
  qed
  then show ?thesis by (auto simp: accepted_def filter_empty_conv)
qed

lemma gen_refill_stale:
  assumes "gen_refill s pos buf buflen a ctr = Some p"
  shows "\<not> (ctr = 0 \<and> length a = 256 \<and> buflen mod 3 = 0 \<and> length buf = 506 \<and>
    (\<forall>i. 1 \<le> i \<and> i < 168 \<longrightarrow> buf ! i = 255))"
proof (rule gen_refill.raw_induct [OF _ assms, of "\<lambda>s pos buf buflen a ctr p. \<not> (ctr = 0 \<and> length a = 256 \<and>
    buflen mod 3 = 0 \<and> length buf = 506 \<and> (\<forall>i. 1 \<le> i \<and> i < 168 \<longrightarrow> buf ! i = 255))"])
  fix gen s pos buf buflen a ctr p
  assume IH: "\<And>s pos buf buflen a ctr p. gen s pos buf buflen a ctr = Some p \<Longrightarrow> \<not> (ctr = 0 \<and> length a = 256 \<and>
    buflen mod 3 = 0 \<and> length buf = 506 \<and> (\<forall>i. 1 \<le> i \<and> i < 168 \<longrightarrow> buf ! i = 255))"
    and run: "(if ctr < KYBER_N then
        let off = buflen mod 3; buf1 = fold (\<lambda>k b. b[k := b ! (buflen - off + k)]) [0..<off] buf;
            buf2 = buf1[off := s pos]; buflen2 = off + XOF_BLOCKBYTES;
            res = rej_uniform (drop ctr a) (take buflen2 buf2) in
        gen s (pos + 1) buf2 buflen2 (take ctr a @ fst res) (ctr + snd res)
      else Some a) = Some p"
  show "\<not> (ctr = 0 \<and> length a = 256 \<and> buflen mod 3 = 0 \<and> length buf = 506 \<and>
    (\<forall>i. 1 \<le> i \<and> i < 168 \<longrightarrow> buf ! i = 255))"
  proof
    assume inv: "ctr = 0 \<and> length a = 256 \<and> buflen mod 3 = 0 \<and> length buf = 506 \<and>
      (\<forall>i. 1 \<le> i \<and> i < 168 \<longrightarrow> buf ! i = 255)"
    then have "accepted (take 168 (buf[0 := s pos])) = []" by (intro accepted_stale) auto
    then have "gen s (pos + 1) (buf[0 := s pos]) 168 a 0 = Some p"
      using run inv by (simp add: kyber_sizes rej_uniform_eq)
    from IH [OF this] show False using inv by auto
  qed
qed

lemma accepted_replicate: "accepted (replicate (3 * n) 255) = []"
proof -
  have "candidates c = [4095, 4095]" if "c \<in> set (chunks_exact 3 (replicate (3 * n) 255))" for c
  proof -
    from that obtain k where "k < n" "c = chunks_exact 3 (replicate (3 * n) 255) ! k"
      by (auto simp: in_set_conv_nth length_chunks_exact)
    then have "c ! 0 = 255" "c ! 1 = 255" "c ! 2 = 255"
      using chunks_exact_nth [of 3 "replicate (3 * n) 255 :: bytes" n k] by simp_all
    then show ?thesis by (simp add: candidates_def)
  qed
  then show ?thesis by (auto simp: accepted_def filter_empty_conv)
qed

lemma gen_poly_never_returns:
  assumes "\<And>i. i < 504 \<Longrightarrow> s i = 255"
  shows "gen_poly s = None"
proof (rule ccontr)
  have buf: "xof_read s 0 504 = replicate 504 255" using assms by (auto simp: xof_read_def intro: nth_equalityI)
  have "accepted (replicate 504 255) = []"
    using accepted_replicate [of 168] by simp
  assume "gen_poly s \<noteq> None"
  then obtain p where "gen_poly s = Some p" by auto
  then have "gen_refill s 504 (replicate 504 255 @ [0, 0]) 504 (replicate 256 0) 0 = Some p"
    using \<open>accepted _ = []\<close> by (simp add: gen_poly_def kyber_sizes rej_uniform_eq buf)
  from gen_refill_stale [OF this] show False by (auto simp: nth_append)
qed

subsection \<open>Verification and sizes\<close>

lemma fold_or_zero:
  "fold (\<lambda>(x, y) acc. acc OR (x XOR y)) ps (acc :: u8) = 0 \<longleftrightarrow> acc = 0 \<and> (\<forall>(x, y)\<in>set ps. x = y)"
proof (induction ps arbitrary: acc)
  case (Cons q ps)
  obtain x y where q: "q = (x, y)" by force
  have "x XOR y = 0 \<longleftrightarrow> x = y"
    by (simp add: bit_eq_iff bit_xor_iff)
  then show ?case using Cons.IH by (auto simp: q or_eq_0_iff)
qed simp

lemma kyber_verify_eq: "length a = length b \<Longrightarrow> kyber_verify a b \<longleftrightarrow> a = b"
  by (auto simp: kyber_verify_def fold_or_zero list_eq_iff_zip_eq)

lemma length_polyvec_to_bytes:
  "\<forall>p\<in>set v. length p = 256 \<Longrightarrow> length (polyvec_to_bytes v) = 384 * length v"
  by (simp add: polyvec_to_bytes_def length_concat comp_def length_poly_to_bytes sum_list_triv cong: map_cong)

lemma length_poly_compress: "length p = 256 \<Longrightarrow> length (poly_compress p) = 128"
proof -
  assume "length p = 256"
  then have "length (chunks_exact 8 p) = 32" by (simp add: length_chunks_exact)
  moreover have "length (chunks_exact 2 (map compress_coeff ch)) = 4" if "ch \<in> set (chunks_exact 8 p)" for ch
    using chunks_exact_length [OF that] by (simp add: length_chunks_exact)
  ultimately show ?thesis
    by (simp add: poly_compress_def length_concat comp_def sum_list_triv cong: map_cong)
qed

lemma length_polyvec_compress:
  "\<forall>p\<in>set v. length p = 256 \<Longrightarrow> length (polyvec_compress v) = 320 * length v"
  by (simp add: polyvec_compress_def length_concat comp_def sum_list_triv length_chunks_exact cong: map_cong)

lemma length_poly_add [simp]: "length (poly_add a b) = 256" "length (poly_sub a b) = 256"
  by (simp_all add: poly_add_def poly_sub_def KYBER_N_def)

lemma length_poly_reduce [simp]: "length (poly_reduce p) = length p"
  by (simp add: poly_reduce_def)

lemma length_ciphertext: "indcpa_enc L m p coins = Some ct \<Longrightarrow> length ct = 1088"
  by (auto simp: indcpa_enc_def pack_ciphertext_def Let_def polyvec_reduce_def polyvec_add_def kyber_sizes
      length_poly_compress length_polyvec_compress split: option.splits prod.splits)

lemma length_cbd2: "length (cbd2 buf) = 8 * (length buf div 4)"
  by (simp add: cbd2_def length_concat comp_def cbd2_group_def Let_def sum_list_triv length_chunks_exact)

lemma length_getnoise [simp]: "length (getnoise_eta1 L seed n) = 256" "length (getnoise_eta2 L seed n) = 256"
  by (simp_all add: getnoise_eta1_def getnoise_eta2_def length_cbd2 kyber_prf_def xof_read_def KYBER_N_def)

lemma length_poly_ntt: "length p = 256 \<Longrightarrow> length (poly_ntt p) = 256"
  by (simp add: poly_ntt_def length_ntt)

lemma length_keypair:
  assumes "indcpa_keypair L coins = Some (p, sk)"
  shows "length sk = 1152" and "length p = 1152 + min 32 (length (sha3_512 L coins))"
  using assms
  by (auto simp: indcpa_keypair_def pack_pk_def pack_sk_def Let_def hash_g_def polyvec_ntt_def polyvec_reduce_def
      polyvec_add_def kyber_sizes length_polyvec_to_bytes length_poly_ntt split: option.splits)

lemma kem_keys_parts:
  assumes "kem_keypair L coins = Some keys" and "length (sha3_512 L (take 32 coins)) = 64" and "\<And>x. length (sha3_256 L x) = 32"
  obtains p sk where "indcpa_keypair L (take 32 coins) = Some (p, sk)" and "kyber_publickey keys = p"
    and "take 1152 keys = sk" and "take 32 (drop (1152 + 1184) keys) = hash_h L p"
    and "length keys = 2368 + length (drop 32 coins)"
proof -
  from assms(1) obtain p sk where ps: "indcpa_keypair L (take 32 coins) = Some (p, sk)"
    and keys: "keys = sk @ p @ hash_h L p @ drop 32 coins"
    by (auto simp: kem_keypair_def SYMBYTES_def split: option.splits)
  have "length sk = 1152" "length p = 1184" using length_keypair [OF ps] assms(2) by simp_all
  then show thesis
    using that [OF ps] assms(3) by (simp add: keys kyber_publickey_def kyber_sizes hash_h_def)
qed

subsection \<open>A library for examples\<close>

text \<open>A hash library whose outputs are all zero bytes: a key pair without noise.\<close>

definition zero_sha :: sha3_lib where
  "zero_sha = \<lparr>sha3_256 = (\<lambda>_. replicate 32 0), sha3_512 = (\<lambda>_. replicate 64 0),
     shake128 = (\<lambda>_ _. 0), shake256 = (\<lambda>_ _. 0)\<rparr>"

lemma accepted_zero: "accepted (replicate (3 * n) 0) = replicate (2 * n) 0"
proof (induction n)
  case 0
  show ?case by (simp add: accepted_def chunks_exact.simps)
next
  case (Suc n)
  have r: "replicate (3 * Suc n) (0 :: u8) = [0, 0, 0] @ replicate (3 * n) 0" by (simp add: numeral_3_eq_3)
  have "chunks_exact 3 ([0, 0, 0] @ replicate (3 * n) (0 :: u8)) = [0, 0, 0] # chunks_exact 3 (replicate (3 * n) 0)"
    by (rule chunks_exact_append) simp_all
  then show ?case
    using Suc unfolding accepted_def r by (simp only:) (simp add: candidates_def)
qed

lemma gen_matrix_zero: "\<exists>a. gen_matrix zero_sha seed tr = Some a"
proof -
  have xa: "xof_absorb zero_sha seed x y = (\<lambda>_. 0)" for x y by (simp add: xof_absorb_def zero_sha_def fun_eq_iff)
  have "xof_read (\<lambda>_. 0) 0 504 = replicate 504 (0 :: u8)" by (simp add: xof_read_def map_replicate_trivial)
  then have "gen_poly (\<lambda>_. 0) = Some (replicate 256 0)"
    using gen_poly_first [of "\<lambda>_. 0"] accepted_zero [of 168] by simp
  then have "gen_poly (xof_absorb zero_sha seed x y) = Some (replicate 256 0)" for x y
    unfolding xa .
  then have "gen_matrix zero_sha seed tr = those (map (\<lambda>i. those (map (\<lambda>j. Some (replicate 256 0)) [0..<3])) [0..<3])"
    by (cases tr) (simp_all add: gen_matrix_def KYBER_K_def)
  then show ?thesis by (simp add: numeral_3_eq_3)
qed

lemma zero_keypair: "\<exists>keys. kem_keypair zero_sha seed = Some keys"
proof -
  obtain a where "gen_matrix zero_sha (take SYMBYTES (hash_g zero_sha (take SYMBYTES seed))) False = Some a"
    using gen_matrix_zero by blast
  then show ?thesis by (simp add: kem_keypair_def indcpa_keypair_def Let_def)
qed

lemma zero_indcpa_enc: "\<exists>ct. indcpa_enc zero_sha m p rc = Some ct"
proof -
  obtain at where "gen_matrix zero_sha (snd (unpack_pk p)) True = Some at"
    using gen_matrix_zero by blast
  then show ?thesis by (simp add: indcpa_enc_def Let_def case_prod_beta)
qed

lemma zero_enc: "\<exists>ct ss. kem_enc zero_sha p coins = Some (ct, ss)"
proof -
  obtain ct where "indcpa_enc zero_sha coins p (drop SYMBYTES (hash_g zero_sha (coins @ hash_h zero_sha p))) = Some ct"
    using zero_indcpa_enc by blast
  then show ?thesis by (simp add: kem_enc_def Let_def)
qed

subsection \<open>Properties\<close>



text \<open>\<open>gen_matrix\<close> refills from stale bytes: if the first three blocks of the extendable output are
  all rejected (every byte 0xff), the sampling loop never returns, whatever the blocks after them are; the
  refill reads one new byte and examines the bytes of the first block again.\<close>
theorem gen_matrix_stuck:
  assumes "\<forall>i<504. s i = 255"
  shows "gen_poly s = None"
  using assms by (intro gen_poly_never_returns) simp

theorem gen_matrix_stuck_witness: "gen_poly (\<lambda>i. if i < 504 then 255 else 0) = None"
  by (rule gen_matrix_stuck) simp

end
