(* ===== verification/Kyber_Correct.thy ===== *)
theory Kyber_Correct
  imports Kyber_Kem
begin

section \<open>Kyber: decryption inverts encryption\<close>

text \<open>
  Polynomials as functions from the index to the coefficient, up to congruence modulo \<open>Q\<close> on the
  256 indices. In the transform domain multiplication is \<open>pmul\<close>, 128 products of linear polynomials,
  for which the ring laws are integer identities; the matrix cancels there, and what is left of a
  decryption is the message and the noise.
\<close>

definition feq :: "(nat \<Rightarrow> int) \<Rightarrow> (nat \<Rightarrow> int) \<Rightarrow> bool" where
  "feq x y \<longleftrightarrow> (\<forall>n<256. qeq (x n) (y n))"

definition pmul :: "(nat \<Rightarrow> int) \<Rightarrow> (nat \<Rightarrow> int) \<Rightarrow> nat \<Rightarrow> int" where
  "pmul x y n =
     (if even n then x n * y n + moduli 7 ! (n div 2) * (x (n + 1) * y (n + 1))
      else x (n - 1) * y n + x n * y (n - 1))"

definition fadd :: "(nat \<Rightarrow> int) \<Rightarrow> (nat \<Rightarrow> int) \<Rightarrow> nat \<Rightarrow> int" where
  "fadd x y n = x n + y n"

definition fsub :: "(nat \<Rightarrow> int) \<Rightarrow> (nat \<Rightarrow> int) \<Rightarrow> nat \<Rightarrow> int" where
  "fsub x y n = x n - y n"

lemma feq_refl [simp]: "feq x x"
  by (simp add: feq_def)

lemma feq_sym: "feq x y \<Longrightarrow> feq y x"
  by (simp add: feq_def qeq_sym)

lemma feq_trans [trans]: "feq x y \<Longrightarrow> feq y z \<Longrightarrow> feq x z"
  unfolding feq_def using qeq_trans by blast

lemma feq_fadd: "feq x x' \<Longrightarrow> feq y y' \<Longrightarrow> feq (fadd x y) (fadd x' y')"
  by (simp add: feq_def fadd_def qeq_add)

lemma feq_fsub: "feq x x' \<Longrightarrow> feq y y' \<Longrightarrow> feq (fsub x y) (fsub x' y')"
  by (simp add: feq_def fsub_def qeq_diff)

lemma feq_pmul: "feq x x' \<Longrightarrow> feq y y' \<Longrightarrow> feq (pmul x y) (pmul x' y')"
  unfolding feq_def
proof (intro allI impI)
  fix n :: nat assume eqs: "\<forall>n<256. qeq (x n) (x' n)" "\<forall>n<256. qeq (y n) (y' n)" and n: "n < 256"
  show "qeq (pmul x y n) (pmul x' y' n)"
  proof (cases "even n")
    case True
    then have "n + 1 < 256" using n by (elim evenE) simp
    then show ?thesis using True eqs n by (auto simp: pmul_def intro!: qeq_intros)
  next
    case False
    then show ?thesis using eqs n by (auto simp: pmul_def intro!: qeq_intros)
  qed
qed

lemma feq_scale: "feq x y \<Longrightarrow> feq (\<lambda>n. m * x n) (\<lambda>n. m * y n)"
  by (simp add: feq_def qeq_mult)

lemmas feq_intros = feq_refl feq_fadd feq_fsub feq_pmul

lemma pmul_commute: "pmul x y = pmul y x"
  by (auto simp: pmul_def fun_eq_iff)

lemma pmul_assoc: "pmul (pmul x y) z = pmul x (pmul y z)"
  by (auto simp: pmul_def fun_eq_iff algebra_simps)

lemma pmul_fadd: "pmul x (fadd y z) = fadd (pmul x y) (pmul x z)" "pmul (fadd y z) x = fadd (pmul y x) (pmul z x)"
  by (auto simp: pmul_def fadd_def fun_eq_iff algebra_simps)

lemma list_all2_feq: "length xs = 256 \<Longrightarrow> length ys = 256 \<Longrightarrow> list_all2 qeq xs ys \<longleftrightarrow> feq ((!) xs) ((!) ys)"
  by (auto simp: list_all2_conv_all_nth feq_def)

text \<open>The products of the 128 factors, coefficient by coefficient.\<close>

lemma prods_2_nth:
  assumes "length xs = 2 * length cs" and "length ys = 2 * length cs" and "n < 2 * length cs"
  shows "prods 2 cs xs ys ! n =
    (if even n then xs ! n * ys ! n + cs ! (n div 2) * (xs ! (n + 1) * ys ! (n + 1))
     else xs ! (n - 1) * ys ! n + xs ! n * ys ! (n - 1))"
  using assms
proof (induction cs arbitrary: xs ys n)
  case (Cons c cs)
  from Cons.prems(1,2) obtain a0 a1 xs' b0 b1 ys' where xs: "xs = a0 # a1 # xs'" and ys: "ys = b0 # b1 # ys'"
    by (auto simp: length_Suc_conv)
  have eq: "prods 2 (c # cs) xs ys = (a0 * b0 + c * (a1 * b1)) # (a0 * b1 + a1 * b0) # prods 2 cs xs' ys'"
    using chunk_mul_2 [of c a0 a1 b0 b1] by (simp add: xs ys numeral_2_eq_2)
  consider "n = 0" | "n = 1" | k where "n = k + 2" by (metis add_2_eq_Suc' not0_implies_Suc One_nat_def)
  then show ?case
  proof cases
    case (3 k)
    then have "prods 2 (c # cs) xs ys ! n = prods 2 cs xs' ys' ! k" by (simp only: eq add_2_eq_Suc' nth_Cons_Suc)
    also have "\<dots> = (if even k then xs' ! k * ys' ! k + cs ! (k div 2) * (xs' ! (k + 1) * ys' ! (k + 1))
       else xs' ! (k - 1) * ys' ! k + xs' ! k * ys' ! (k - 1))"
      using Cons.prems 3 by (intro Cons.IH) (simp_all add: xs ys)
    finally show ?thesis using 3 by (cases "even k") (auto simp: xs ys elim!: oddE)
  qed (simp_all only: eq, simp_all add: xs ys)
qed simp

lemma length_moduli7: "length (moduli 7) = 128"
  by code_simp

lemma prods_feq:
  "length xs = 256 \<Longrightarrow> length ys = 256 \<Longrightarrow> feq ((!) (prods 2 (moduli 7) xs ys)) (pmul ((!) xs) ((!) ys))"
  by (simp add: feq_def pmul_def prods_2_nth length_moduli7)

subsection \<open>The transform is linear\<close>

lemma chunk_add:
  assumes "length xs = m * 2" "length ys = m * 2" "length ps = m * 2" and "bnd B xs" "bnd B ys" "bnd B ps"
    and "B \<le> 29439" and "\<bar>z\<bar> \<le> 1664" and "list_all2 qeq ps (map2 (+) xs ys)"
  shows "list_all2 qeq (ntt_chunk m z ps) (map2 (+) (ntt_chunk m z xs) (ntt_chunk m z ys))"
proof -
  have p: "qeq (ps ! k) (xs ! k + ys ! k)" if "k < m * 2" for k
    using list_all2_nthD2 [OF assms(9), of k] that assms(1,2) by simp
  note X = ntt_chunk_nth [OF assms(1,4,7,8)] and Y = ntt_chunk_nth [OF assms(2,5,7,8)]
    and P = ntt_chunk_nth [OF assms(3,6,7,8)]
  have "qeq (ntt_chunk m z ps ! k) (ntt_chunk m z xs ! k + ntt_chunk m z ys ! k)" if k: "k < m * 2" for k
  proof (cases "k < m")
    case True
    have "qeq (ntt_chunk m z ps ! k) (ps ! k + z * ps ! (m + k) * 169)" using P(2) [OF k True] .
    also have "qeq \<dots> (xs ! k + ys ! k + z * (xs ! (m + k) + ys ! (m + k)) * 169)"
      using True by (intro qeq_intros p) simp_all
    also have "\<dots> = (xs ! k + z * xs ! (m + k) * 169) + (ys ! k + z * ys ! (m + k) * 169)" by (simp add: algebra_simps)
    also have "qeq \<dots> (ntt_chunk m z xs ! k + ntt_chunk m z ys ! k)"
      by (rule qeq_sym [OF qeq_add [OF X(2) [OF k True] Y(2) [OF k True]]])
    finally show ?thesis .
  next
    case False
    then have le: "m \<le> k" by simp
    have "qeq (ntt_chunk m z ps ! k) (ps ! (k - m) - z * ps ! k * 169)" using P(3) [OF k le] .
    also have "qeq \<dots> (xs ! (k - m) + ys ! (k - m) - z * (xs ! k + ys ! k) * 169)"
      using k by (intro qeq_intros p) simp_all
    also have "\<dots> = (xs ! (k - m) - z * xs ! k * 169) + (ys ! (k - m) - z * ys ! k * 169)" by (simp add: algebra_simps)
    also have "qeq \<dots> (ntt_chunk m z xs ! k + ntt_chunk m z ys ! k)"
      by (rule qeq_sym [OF qeq_add [OF X(3) [OF k le] Y(3) [OF k le]]])
    finally show ?thesis .
  qed
  then show ?thesis using assms(1-3) by (simp add: list_all2_conv_all_nth)
qed

lemma pass_add:
  assumes "0 < len" and "B \<le> 29439" and "bnd 1664 zs"
    and "length xs = len * 2 * length zs" and "length ys = len * 2 * length zs"
    and "length ps = len * 2 * length zs" and "bnd B xs" and "bnd B ys" and "bnd B ps"
    and "list_all2 qeq ps (map2 (+) xs ys)"
  shows "list_all2 qeq (pass ntt_chunk len zs ps) (map2 (+) (pass ntt_chunk len zs xs) (pass ntt_chunk len zs ys))"
  using assms(3-)
proof (induction zs arbitrary: xs ys ps)
  case (Cons z zs)
  let ?n = "len * 2"
  have l: "length (take ?n us) = ?n" "length (drop ?n us) = ?n * length zs" "?n \<le> length us"
    if "length us = ?n * length (z # zs)" for us :: "int list"
    using that by auto
  note ls = l [OF Cons.prems(2)] l [OF Cons.prems(3)] l [OF Cons.prems(4)]
  have sp: "list_all2 qeq (take ?n ps) (map2 (+) (take ?n xs) (take ?n ys))"
    "list_all2 qeq (drop ?n ps) (map2 (+) (drop ?n xs) (drop ?n ys))"
    using Cons.prems(8) list_all2_takeI list_all2_dropI
    by (simp_all flip: take_map take_zip drop_map drop_zip)
  note bt = bnd_take_drop(1) [OF Cons.prems(5), of ?n] bnd_take_drop(1) [OF Cons.prems(6), of ?n]
    bnd_take_drop(1) [OF Cons.prems(7), of ?n]
  note bd = bnd_take_drop(2) [OF Cons.prems(5), of ?n] bnd_take_drop(2) [OF Cons.prems(6), of ?n]
    bnd_take_drop(2) [OF Cons.prems(7), of ?n]
  have z: "\<bar>z\<bar> \<le> 1664" "bnd 1664 zs" using Cons.prems(1) by (auto simp: bnd_def)
  have hd: "list_all2 qeq (ntt_chunk len z (take ?n ps))
      (map2 (+) (ntt_chunk len z (take ?n xs)) (ntt_chunk len z (take ?n ys)))"
    by (rule chunk_add [OF ls(1,4,7) bt assms(2) z(1) sp(1)])
  have tl: "list_all2 qeq (pass ntt_chunk len zs (drop ?n ps))
      (map2 (+) (pass ntt_chunk len zs (drop ?n xs)) (pass ntt_chunk len zs (drop ?n ys)))"
    by (rule Cons.IH [OF z(2) ls(2,5,8) bd sp(2)])
  have "length (ntt_chunk len z (take ?n xs)) = length (ntt_chunk len z (take ?n ys))"
    using ls(1,4) by simp
  then show ?case
    using list_all2_appendI [OF hd tl] ls(3,6,9) assms(1) by (simp add: pass_Cons)
qed simp

lemma ntt_layer_add:
  assumes "k \<in> {0, 1, 2, 3, 4, 5, 6}" and "B \<le> 29439"
    and "length xs = 256" and "length ys = 256" and "length ps = 256" and "bnd B xs" and "bnd B ys" and "bnd B ps"
    and "list_all2 qeq ps (map2 (+) xs ys)"
  shows "list_all2 qeq (ntt_layer k ps) (map2 (+) (ntt_layer k xs) (ntt_layer k ys))"
proof -
  have "(256 :: nat) = 2 ^ (7 - k) * 2 * length (zetas_of k)"
    using length_zetas_of [OF assms(1)] assms(1) by auto
  moreover have "bnd 1664 (zetas_of k)"
    unfolding zetas_of_def by (intro bnd_take_drop zeta_bnd)
  ultimately show ?thesis
    unfolding ntt_layer_def by (intro pass_add) (use assms in \<open>auto simp only: zero_less_power zero_less_numeral\<close>)
qed

definition sum_level :: "int \<Rightarrow> int list \<Rightarrow> int list \<Rightarrow> int list \<Rightarrow> bool" where
  "sum_level B ps xs ys \<longleftrightarrow>
     length xs = 256 \<and> length ys = 256 \<and> length ps = 256 \<and> bnd B xs \<and> bnd B ys \<and> bnd B ps \<and>
     list_all2 qeq ps (map2 (+) xs ys)"

lemma sum_level_step:
  assumes "sum_level B ps xs ys" and "k \<in> {0, 1, 2, 3, 4, 5, 6}" and "B \<le> 29439"
  shows "sum_level (B + 3328) (ntt_layer k ps) (ntt_layer k xs) (ntt_layer k ys)"
  using assms ntt_layer_add [OF assms(2,3), of xs ys ps]
  by (simp only: sum_level_def length_ntt_layer ntt_layer_bnd simp_thms)

lemma ntt_add:
  assumes "sum_level 9471 ps xs ys"
  shows "feq ((!) (ntt ps)) (fadd ((!) (ntt xs)) ((!) (ntt ys)))"
proof -
  have len: "length ps = 256" "length xs = 256" "length ys = 256" using assms by (auto simp: sum_level_def)
  have "sum_level (9471 + 3328 + 3328 + 3328 + 3328 + 3328 + 3328 + 3328) (ntt ps) (ntt xs) (ntt ys)"
    unfolding ntt_layers [OF len(1)] ntt_layers [OF len(2)] ntt_layers [OF len(3)]
    by (intro sum_level_step assms) simp_all
  then show ?thesis
    by (auto simp: sum_level_def feq_def fadd_def list_all2_conv_all_nth)
qed

subsection \<open>The transform as a ring isomorphism\<close>

definition kp :: "int list \<Rightarrow> bool" where
  "kp p \<longleftrightarrow> length p = 256 \<and> bnd 9471 p"

definition hat :: "int list \<Rightarrow> nat \<Rightarrow> int" where
  "hat p n = ntt p ! n"

definition canon :: "(nat \<Rightarrow> int) \<Rightarrow> int list" where
  "canon x = map (\<lambda>n. x n mod 3329) [0..<256]"

lemma canon_props: "length (canon x) = 256" "set (canon x) \<subseteq> {0..<3329}" "feq ((!) (canon x)) x" "bnd 3328 (canon x)"
  using pos_mod_bound [of 3329] by (auto simp: canon_def feq_def qeq_def bnd_def)

lemma kp_canon: "kp (canon x)"
  using canon_props bnd_mono [OF canon_props(4), of 9471 x] by (simp add: kp_def)

lemma hat_add:
  assumes "kp p" and "kp x" and "kp y" and "feq ((!) p) (fadd ((!) x) ((!) y))"
  shows "feq (hat p) (fadd (hat x) (hat y))"
proof -
  have "sum_level 9471 p x y"
    using assms by (auto simp: sum_level_def kp_def list_all2_conv_all_nth feq_def fadd_def)
  from ntt_add [OF this] show ?thesis by (simp add: hat_def [abs_def])
qed

lemma hat_zero: "feq (hat (replicate 256 0)) (\<lambda>_. 0)"
proof -
  have "kp (replicate 256 0)" by (simp add: kp_def bnd_def)
  then have "feq (hat (replicate 256 0)) (fadd (hat (replicate 256 0)) (hat (replicate 256 0)))"
    by (rule hat_add) (simp_all add: feq_def fadd_def kp_def bnd_def)
  from feq_fsub [OF this feq_refl [of "hat (replicate 256 0)"]] show ?thesis
    by (simp add: feq_def fsub_def fadd_def qeq_sym)
qed

lemma hat_cong:
  assumes "kp p" and "kp x" and "feq ((!) p) ((!) x)"
  shows "feq (hat p) (hat x)"
proof -
  have "feq (hat p) (fadd (hat x) (hat (replicate 256 0)))"
    using assms by (intro hat_add) (auto simp: kp_def bnd_def feq_def fadd_def)
  also have "feq \<dots> (fadd (hat x) (\<lambda>_. 0))" by (intro feq_fadd hat_zero feq_refl)
  finally show ?thesis by (simp add: fadd_def [abs_def])
qed

lemma hat_sub:
  assumes "kp p" and "kp x" and "kp y" and "feq ((!) p) (fsub ((!) x) ((!) y))"
  shows "feq (hat p) (fsub (hat x) (hat y))"
proof -
  have "feq (fadd ((!) p) ((!) y)) (fadd (fsub ((!) x) ((!) y)) ((!) y))" by (intro feq_fadd assms feq_refl)
  then have "feq ((!) x) (fadd ((!) p) ((!) y))"
    by (auto simp: fadd_def [abs_def] fsub_def [abs_def] intro: feq_sym)
  from feq_fsub [OF hat_add [OF assms(2,1,3) this] feq_refl [of "hat y"]]
  show ?thesis by (auto simp: fsub_def [abs_def] fadd_def [abs_def] intro: feq_sym)
qed

lemma hat_mul:
  assumes "kp p" and "kp x" and "kp y" and "feq ((!) p) ((!) (negacyclic x y))"
  shows "feq (hat p) (pmul (hat x) (hat y))"
proof -
  have len: "length x = 256" "length y = 256" "length p = 256" using assms by (auto simp: kp_def)
  have "level 0 9471 p x y"
    using assms len by (simp add: level_def kp_def moduli_def negacyclic_def list_all2_feq)
  from ntt_prods [OF this] have "feq ((!) (ntt p)) ((!) (prods 2 (moduli 7) (ntt x) (ntt y)))"
    using len by (simp add: list_all2_feq length_ntt length_prods length_moduli7)
  also have "feq \<dots> (pmul ((!) (ntt x)) ((!) (ntt y)))"
    using len by (intro prods_feq length_ntt)
  finally show ?thesis by (simp add: hat_def [abs_def])
qed

lemma invntt_hat:
  assumes "kp p" and "length X = 256" and "bnd 16383 X" and "feq ((!) X) (\<lambda>n. m * hat p n)"
  shows "feq ((!) (invntt X)) (\<lambda>n. 65536 * m * p ! n)" and "bnd 3328 (invntt X)"
proof -
  have "list_all2 qeq X (map ((*) m) (ntt p))"
    using assms by (auto simp: kp_def list_all2_conv_all_nth feq_def hat_def length_ntt)
  note inv = invntt_ntt [OF _ _ this assms(3)]
  show "bnd 3328 (invntt X)" using inv assms(1) by (simp add: kp_def)
  show "feq ((!) (invntt X)) (\<lambda>n. 65536 * m * p ! n)"
    using inv(1) assms(1,2) length_invntt [OF assms(2)] by (simp add: kp_def list_all2_conv_all_nth feq_def)
qed

lemma scale_169: "feq x (\<lambda>n. 65536 * 169 * y n) \<Longrightarrow> feq x y"
  using qeq_mult [of "65536 * 169" 1] by (auto simp: feq_def qeq_def)

lemma hat_inj:
  assumes "kp x" and "kp y" and "feq (hat x) (hat y)"
  shows "feq ((!) x) ((!) y)"
proof -
  let ?X = "canon (\<lambda>n. 169 * hat x n)"
  have X: "length ?X = 256" "bnd 16383 ?X" and e: "feq ((!) ?X) (\<lambda>n. 169 * hat x n)"
    using canon_props bnd_mono [OF canon_props(4)] by simp_all
  have "feq (\<lambda>n. 169 * hat x n) (\<lambda>n. 169 * hat y n)" using assms(3) by (simp add: feq_def qeq_mult)
  from feq_trans [OF e this] have e': "feq ((!) ?X) (\<lambda>n. 169 * hat y n)" .
  show ?thesis
    using scale_169 [OF invntt_hat(1) [OF assms(1) X e]] scale_169 [OF invntt_hat(1) [OF assms(2) X e']]
    by (blast intro: feq_trans feq_sym)
qed

lemma hat_surj: "\<exists>p. kp p \<and> feq (hat p) Y"
proof -
  define S where "S = {xs :: int list. set xs \<subseteq> {0..<3329} \<and> length xs = 256}"
  have kpS: "kp x" if "x \<in> S" for x using that by (auto simp: S_def kp_def bnd_def)
  have fin: "finite S" unfolding S_def by (rule finite_lists_length_eq) simp
  have into: "(\<lambda>x. canon (hat x)) ` S \<subseteq> S" using canon_props by (auto simp: S_def)
  have "inj_on (\<lambda>x. canon (hat x)) S"
  proof (rule inj_onI)
    fix x y assume xy: "x \<in> S" "y \<in> S" "canon (hat x) = canon (hat y)"
    then have "feq (hat x) (hat y)" using canon_props(3) feq_trans feq_sym by metis
    from hat_inj [OF kpS [OF xy(1)] kpS [OF xy(2)] this] have "x ! n mod 3329 = y ! n mod 3329" if "n < 256" for n
      using that by (simp add: feq_def qeq_def)
    moreover have "z ! n mod 3329 = z ! n" if "z \<in> S" "n < 256" for z n
      using that by (force simp: S_def intro!: mod_pos_pos_trivial dest: nth_mem)
    ultimately show "x = y" using xy by (intro nth_equalityI) (auto simp: S_def)
  qed
  then have "(\<lambda>x. canon (hat x)) ` S = S" by (rule endo_inj_surj [OF fin into])
  moreover have "canon Y \<in> S" using canon_props by (simp add: S_def)
  ultimately obtain p where "p \<in> S" "canon (hat p) = canon Y" by force
  then show ?thesis using kpS canon_props(3) feq_trans feq_sym by metis
qed

lemma hat_invntt:
  assumes "length X = 256" and "bnd 16383 X" and "feq ((!) X) (\<lambda>n. 169 * Y n)"
  shows "kp (invntt X)" and "bnd 3328 (invntt X)" and "feq (hat (invntt X)) Y"
proof -
  obtain p where p: "kp p" "feq (hat p) Y" using hat_surj by blast
  have "feq ((!) X) (\<lambda>n. 169 * hat p n)"
    by (rule feq_trans [OF assms(3) feq_scale [OF feq_sym [OF p(2)]]])
  note inv = invntt_hat [OF p(1) assms(1,2) this]
  show b: "bnd 3328 (invntt X)" by (rule inv(2))
  show k: "kp (invntt X)" using b bnd_mono [OF b] length_invntt [OF assms(1)] by (simp add: kp_def)
  show "feq (hat (invntt X)) Y"
    by (rule feq_trans [OF hat_cong [OF k p(1) scale_169 [OF inv(1)]] p(2)])
qed

subsection \<open>The operations of the scheme in the transform domain\<close>

definition sum3 :: "(nat \<Rightarrow> nat \<Rightarrow> int) \<Rightarrow> nat \<Rightarrow> int" where
  "sum3 f = fadd (fadd (f 0) (f 1)) (f 2)"

lemma feq_sum3: "(\<And>i. i < 3 \<Longrightarrow> feq (f i) (g i)) \<Longrightarrow> feq (sum3 f) (sum3 g)"
  unfolding sum3_def by (intro feq_fadd) simp_all

lemma poly_add_feq:
  assumes "bnd A a" and "bnd B b" and "length a = 256" and "length b = 256" and "A + B \<le> 32767"
  shows "feq ((!) (poly_add a b)) (fadd ((!) a) ((!) b))"
    and "bnd (A + B) (poly_add a b)" and "feq ((!) (poly_sub a b)) (fsub ((!) a) ((!) b))" and "bnd (A + B) (poly_sub a b)"
proof -
  have ab: "\<bar>a ! n\<bar> \<le> A" "\<bar>b ! n\<bar> \<le> B" if "n < 256" for n
    using that assms bnd_nth by auto
  have "as_i16 (a ! n + b ! n) = a ! n + b ! n \<and> as_i16 (a ! n - b ! n) = a ! n - b ! n \<and>
      \<bar>a ! n + b ! n\<bar> \<le> A + B \<and> \<bar>a ! n - b ! n\<bar> \<le> A + B" if "n < 256" for n
    using ab [OF that] assms(5) by (auto intro!: as_i16_id)
  then show "feq ((!) (poly_add a b)) (fadd ((!) a) ((!) b))" "bnd (A + B) (poly_add a b)"
    "feq ((!) (poly_sub a b)) (fsub ((!) a) ((!) b))" "bnd (A + B) (poly_sub a b)"
    by (simp_all add: feq_def fadd_def fsub_def poly_add_def poly_sub_def KYBER_N_def bnd_def)
qed

lemma poly_reduce_feq:
  assumes "bnd 32767 p" and "length p = 256"
  shows "feq ((!) (poly_reduce p)) ((!) p)" and "bnd 1664 (poly_reduce p)"
  using poly_reduce_eq [OF assms(1)] assms(2) by (simp_all add: list_all2_feq)

lemma poly_ntt_feq:
  assumes "kp p"
  shows "feq ((!) (poly_ntt p)) (hat p)" and "bnd 1664 (poly_ntt p)" and "length (poly_ntt p) = 256"
proof -
  note e = poly_ntt_eq [of p]
  show "bnd 1664 (poly_ntt p)" "length (poly_ntt p) = 256" using e assms by (auto simp: kp_def)
  show "feq ((!) (poly_ntt p)) (hat p)"
    using e(1,3) assms length_ntt list_all2_feq [of "poly_ntt p" "ntt p"] by (simp add: kp_def hat_def [abs_def])
qed

lemma basemul_feq:
  assumes "length a = 256" and "length b = 256" and "bnd 4095 a" and "bnd 4095 b"
  shows "feq ((!) (basemul_montgomery a b)) (\<lambda>n. 169 * pmul ((!) a) ((!) b) n)"
    and "bnd 6656 (basemul_montgomery a b)" and "length (basemul_montgomery a b) = 256"
proof -
  note e = basemul_montgomery_eq [OF assms]
  have len: "length (prods 2 (moduli 7) a b) = 256" by (simp add: length_prods length_moduli7)
  show l: "length (basemul_montgomery a b) = 256" using e(1) len by (simp add: list_all2_lengthD)
  show "bnd 6656 (basemul_montgomery a b)" by (rule e(2))
  have "feq ((!) (basemul_montgomery a b)) (\<lambda>n. 169 * prods 2 (moduli 7) a b ! n)"
    using e(1) len l by (simp add: list_all2_conv_all_nth feq_def)
  also have "feq \<dots> (\<lambda>n. 169 * pmul ((!) a) ((!) b) n)"
    by (rule feq_scale [OF prods_feq [OF assms(1,2)]])
  finally show "feq ((!) (basemul_montgomery a b)) (\<lambda>n. 169 * pmul ((!) a) ((!) b) n)" .
qed

lemma basemul_acc_feq:
  assumes "length a = 3" and "length b = 3"
    and "\<And>i. i < 3 \<Longrightarrow> length (a ! i) = 256 \<and> bnd 4095 (a ! i)" and "\<And>i. i < 3 \<Longrightarrow> length (b ! i) = 256 \<and> bnd 4095 (b ! i)"
  shows "feq ((!) (basemul_acc_montgomery a b)) (\<lambda>n. 169 * sum3 (\<lambda>i. pmul ((!) (a ! i)) ((!) (b ! i))) n)"
    and "bnd 1664 (basemul_acc_montgomery a b)" and "length (basemul_acc_montgomery a b) = 256"
proof -
  from assms(1,2) obtain a0 a1 a2 b0 b1 b2 where ab: "a = [a0, a1, a2]" "b = [b0, b1, b2]"
    by (auto simp: length_Suc_conv eval_nat_numeral)
  have len: "length a0 = 256" "length a1 = 256" "length a2 = 256" "length b0 = 256" "length b1 = 256" "length b2 = 256"
    and B: "bnd 4095 a0" "bnd 4095 a1" "bnd 4095 a2" "bnd 4095 b0" "bnd 4095 b1" "bnd 4095 b2"
    using assms(3) [of 0] assms(3) [of 1] assms(3) [of 2] assms(4) [of 0] assms(4) [of 1] assms(4) [of 2]
    by (simp_all add: ab)
  let ?m0 = "basemul_montgomery a0 b0" and ?m1 = "basemul_montgomery a1 b1" and ?m2 = "basemul_montgomery a2 b2"
  note m0 = basemul_feq [OF len(1,4) B(1,4)] and m1 = basemul_feq [OF len(2,5) B(2,5)] and m2 = basemul_feq [OF len(3,6) B(3,6)]
  note s1 = poly_add_feq [OF m0(2) m1(2) m0(3) m1(3)]
  note s2 = poly_add_feq [OF s1(2) m2(2) _ m2(3)]
  have eq: "basemul_acc_montgomery a b = poly_reduce (poly_add (poly_add ?m0 ?m1) ?m2)"
    by (simp add: basemul_acc_montgomery_def ab)
  have big: "bnd 32767 (poly_add (poly_add ?m0 ?m1) ?m2)" using bnd_mono [OF s2(2)] by simp
  show "bnd 1664 (basemul_acc_montgomery a b)" "length (basemul_acc_montgomery a b) = 256"
    unfolding eq using poly_reduce_feq [OF big] by simp_all
  have "feq ((!) (basemul_acc_montgomery a b)) ((!) (poly_add (poly_add ?m0 ?m1) ?m2))"
    unfolding eq by (rule poly_reduce_feq [OF big]) simp
  also have "feq \<dots> (fadd ((!) (poly_add ?m0 ?m1)) ((!) ?m2))" by (rule s2(1)) simp_all
  also have "feq \<dots> (fadd (fadd ((!) ?m0) ((!) ?m1)) ((!) ?m2))" by (intro feq_fadd s1(1) feq_refl) simp
  also have "feq \<dots> (fadd (fadd (\<lambda>n. 169 * pmul ((!) a0) ((!) b0) n) (\<lambda>n. 169 * pmul ((!) a1) ((!) b1) n))
      (\<lambda>n. 169 * pmul ((!) a2) ((!) b2) n))"
    by (intro feq_fadd m0(1) m1(1) m2(1))
  finally show "feq ((!) (basemul_acc_montgomery a b)) (\<lambda>n. 169 * sum3 (\<lambda>i. pmul ((!) (a ! i)) ((!) (b ! i))) n)"
    by (simp add: sum3_def fadd_def [abs_def] ab algebra_simps)
qed

lemma poly_tomont_feq:
  assumes "length p = 256" and "bnd 1664 p"
  shows "feq ((!) (poly_tomont p)) (\<lambda>n. 65536 * p ! n)" and "bnd 3328 (poly_tomont p)" and "length (poly_tomont p) = 256"
proof -
  have b: "\<bar>r * 1353\<bar> \<le> 2251392" if "r \<in> set p" for r
    using abs_mult_le [of r 1664 1353 1353] that assms(2) by (simp add: bnd_def)
  have m: "as_i32 (r * (2 ^ 32 mod KYBER_Q)) = r * 1353" if "r \<in> set p" for r
    using b [OF that] by (simp add: KYBER_Q_def) (rule as_i32_id; linarith)
  have q: "qeq (montgomery_reduce (r * 1353)) (65536 * r)" "\<bar>montgomery_reduce (r * 1353)\<bar> \<le> 3328" if "r \<in> set p" for r
  proof -
    have "\<bar>r * 1353\<bar> \<le> 109084671" using b [OF that] by simp
    from qeq_montgomery [OF this] montgomery_reduce_bound [OF this]
    have q1: "qeq (montgomery_reduce (r * 1353)) (r * 228657)" and "\<bar>montgomery_reduce (r * 1353)\<bar> < 3329"
      by (simp_all add: mult.assoc)
    moreover have "qeq (r * 228657) (r * 65536)" by (rule qeq_mult) (simp_all add: qeq_def)
    ultimately show "qeq (montgomery_reduce (r * 1353)) (65536 * r)" "\<bar>montgomery_reduce (r * 1353)\<bar> \<le> 3328"
      using qeq_trans by (auto simp: mult.commute)
  qed
  have eq: "poly_tomont p = map (\<lambda>r. montgomery_reduce (r * 1353)) p"
    unfolding poly_tomont_def by (intro map_cong refl arg_cong [of _ _ montgomery_reduce] m)
  show "feq ((!) (poly_tomont p)) (\<lambda>n. 65536 * p ! n)"
    using assms(1) q(1) by (simp add: feq_def eq)
  show "bnd 3328 (poly_tomont p)" using q(2) by (auto simp: bnd_def eq)
  show "length (poly_tomont p) = 256" using assms(1) by (simp add: poly_tomont_def)
qed

lemma invntt_acc:
  assumes "length a = 3" and "length b = 3"
    and "\<And>i. i < 3 \<Longrightarrow> length (a ! i) = 256 \<and> bnd 4095 (a ! i)" and "\<And>i. i < 3 \<Longrightarrow> length (b ! i) = 256 \<and> bnd 4095 (b ! i)"
  shows "kp (poly_invntt_tomont (basemul_acc_montgomery a b))"
    and "bnd 3328 (poly_invntt_tomont (basemul_acc_montgomery a b))"
    and "feq (hat (poly_invntt_tomont (basemul_acc_montgomery a b))) (sum3 (\<lambda>i. pmul ((!) (a ! i)) ((!) (b ! i))))"
  unfolding poly_invntt_tomont_def
  using hat_invntt [OF basemul_acc_feq(3) _ basemul_acc_feq(1)] bnd_mono [OF basemul_acc_feq(2)] assms by auto

lemma pmul_left_commute: "pmul x (pmul y z) = pmul y (pmul x z)"
  by (metis pmul_assoc pmul_commute)

text \<open>The matrix cancels.\<close>

lemma matrix_cancels:
  "fsub (sum3 (\<lambda>i. pmul (fadd (sum3 (\<lambda>j. pmul (A i j) (s j))) (e i)) (r i)))
        (sum3 (\<lambda>i. pmul (s i) (fadd (sum3 (\<lambda>j. pmul (A j i) (r j))) (w i)))) =
   fsub (sum3 (\<lambda>i. pmul (e i) (r i))) (sum3 (\<lambda>i. pmul (s i) (w i)))"
  unfolding sum3_def pmul_fadd pmul_assoc
  by (simp add: fun_eq_iff fsub_def fadd_def pmul_commute pmul_left_commute)

lemma hat_canon:
  "kp x \<Longrightarrow> feq (hat (canon ((!) x))) (hat x)"
  "feq (hat (canon (fadd f g))) (fadd (hat (canon f)) (hat (canon g)))"
  "feq (hat (canon (fsub f g))) (fsub (hat (canon f)) (hat (canon g)))"
  "kp x \<Longrightarrow> kp y \<Longrightarrow> feq (hat (canon ((!) (negacyclic x y)))) (pmul (hat x) (hat y))"
proof -
  note c = canon_props(3)
  show "kp x \<Longrightarrow> feq (hat (canon ((!) x))) (hat x)" by (rule hat_cong [OF kp_canon _ c])
  show "feq (hat (canon (fadd f g))) (fadd (hat (canon f)) (hat (canon g)))"
    by (intro hat_add kp_canon feq_trans [OF c] feq_fadd feq_sym [OF c])
  show "feq (hat (canon (fsub f g))) (fsub (hat (canon f)) (hat (canon g)))"
    by (intro hat_sub kp_canon feq_trans [OF c] feq_fsub feq_sym [OF c])
  show "kp x \<Longrightarrow> kp y \<Longrightarrow> feq (hat (canon ((!) (negacyclic x y)))) (pmul (hat x) (hat y))"
    by (intro hat_mul kp_canon c)
qed

lemma hat_canon_sum3:
  "(\<And>i. i < 3 \<Longrightarrow> feq (hat (canon (f i))) (g i)) \<Longrightarrow> feq (hat (canon (sum3 f))) (sum3 g)"
  unfolding sum3_def
  by (rule feq_trans [OF hat_canon(2) feq_fadd [OF feq_trans [OF hat_canon(2) feq_fadd]]]) simp_all

lemma decrypt_value:
  fixes A :: "nat \<Rightarrow> nat \<Rightarrow> int list" and s e r t S u w :: "nat \<Rightarrow> int list"
  defines "R \<equiv> map (\<lambda>i. poly_ntt (r i)) [0..<3]"
  assumes A: "\<And>i j. i < 3 \<Longrightarrow> j < 3 \<Longrightarrow> length (A i j) = 256 \<and> bnd 4095 (A i j)"
    and small: "\<And>i. i < 3 \<Longrightarrow> kp (s i) \<and> kp (e i) \<and> kp (r i)"
    and t: "\<And>i. i < 3 \<Longrightarrow> length (t i) = 256 \<and> bnd 4095 (t i) \<and>
      feq ((!) (t i)) (fadd (sum3 (\<lambda>j. pmul ((!) (A i j)) (hat (s j)))) (hat (e i)))"
    and S: "\<And>i. i < 3 \<Longrightarrow> length (S i) = 256 \<and> bnd 4095 (S i) \<and> feq ((!) (S i)) (hat (s i))"
    and u: "\<And>i. i < 3 \<Longrightarrow> kp (u i) \<and> kp (w i) \<and> feq ((!) (u i))
      (fadd ((!) (poly_invntt_tomont (basemul_acc_montgomery (map (\<lambda>j. A j i) [0..<3]) R))) ((!) (w i)))"
    and v: "kp v" "kp x" "feq ((!) v) (fadd ((!) (poly_invntt_tomont (basemul_acc_montgomery (map t [0..<3]) R))) ((!) x))"
  defines "M \<equiv> poly_invntt_tomont (basemul_acc_montgomery (map S [0..<3]) (map (\<lambda>i. poly_ntt (u i)) [0..<3]))"
  shows "feq (fsub ((!) v) ((!) M))
    (fadd (fsub (sum3 (\<lambda>i. (!) (negacyclic (e i) (r i)))) (sum3 (\<lambda>i. (!) (negacyclic (s i) (w i))))) ((!) x))"
    and "bnd 3328 M" and "length M = 256"
proof -
  let ?V = "poly_invntt_tomont (basemul_acc_montgomery (map t [0..<3]) R)"
  let ?U = "\<lambda>i. poly_invntt_tomont (basemul_acc_montgomery (map (\<lambda>j. A j i) [0..<3]) R)"
  have R: "length R = 3" "\<And>i. i < 3 \<Longrightarrow> R ! i = poly_ntt (r i)" by (simp_all add: R_def)
  have Rp: "length (R ! i) = 256 \<and> bnd 4095 (R ! i)" "feq ((!) (R ! i)) (hat (r i))" if "i < 3" for i
    using poly_ntt_feq [of "r i"] small [OF that] bnd_mono [of 1664 "poly_ntt (r i)" 4095] R(2) [OF that] by auto
  have V: "kp ?V" "feq (hat ?V) (sum3 (\<lambda>i. pmul ((!) (map t [0..<3] ! i)) ((!) (R ! i))))"
    by (rule invntt_acc; use R Rp t in simp)+
  note V(2)
  also have "feq (sum3 (\<lambda>i. pmul ((!) (map t [0..<3] ! i)) ((!) (R ! i))))
      (sum3 (\<lambda>i. pmul (fadd (sum3 (\<lambda>j. pmul ((!) (A i j)) (hat (s j)))) (hat (e i))) (hat (r i))))"
    by (intro feq_sum3 feq_pmul Rp(2)) (use t in auto)
  finally have hV: "feq (hat ?V) (sum3 (\<lambda>i. pmul (fadd (sum3 (\<lambda>j. pmul ((!) (A i j)) (hat (s j)))) (hat (e i))) (hat (r i))))" .
  have hU: "kp (?U i) \<and> feq (hat (?U i)) (sum3 (\<lambda>j. pmul ((!) (A j i)) (hat (r j))))" if i: "i < 3" for i
  proof -
    have U: "kp (?U i)" "feq (hat (?U i)) (sum3 (\<lambda>j. pmul ((!) (map (\<lambda>j. A j i) [0..<3] ! j)) ((!) (R ! j))))"
      by (rule invntt_acc; use R Rp A i in simp)+
    note U(2)
    also have "feq (sum3 (\<lambda>j. pmul ((!) (map (\<lambda>j. A j i) [0..<3] ! j)) ((!) (R ! j)))) (sum3 (\<lambda>j. pmul ((!) (A j i)) (hat (r j))))"
      by (intro feq_sum3 feq_pmul Rp(2)) auto
    finally show ?thesis using U(1) by blast
  qed
  have hu: "feq (hat (u i)) (fadd (sum3 (\<lambda>j. pmul ((!) (A j i)) (hat (r j)))) (hat (w i)))" if "i < 3" for i
    using feq_trans [OF hat_add feq_fadd [OF _ feq_refl]] u [OF that] hU [OF that] by blast
  have up: "length (poly_ntt (u i)) = 256 \<and> bnd 4095 (poly_ntt (u i))" "feq ((!) (poly_ntt (u i))) (hat (u i))" if "i < 3" for i
    using poly_ntt_feq [of "u i"] u [OF that] bnd_mono [of 1664 "poly_ntt (u i)" 4095] by auto
  have M: "kp M" "bnd 3328 M"
    "feq (hat M) (sum3 (\<lambda>i. pmul ((!) (map S [0..<3] ! i)) ((!) (map (\<lambda>i. poly_ntt (u i)) [0..<3] ! i))))"
    unfolding M_def by (rule invntt_acc; use S up in simp)+
  then show "bnd 3328 M" "length M = 256" by (simp_all add: kp_def)
  note M(3)
  also have "feq (sum3 (\<lambda>i. pmul ((!) (map S [0..<3] ! i)) ((!) (map (\<lambda>i. poly_ntt (u i)) [0..<3] ! i))))
      (sum3 (\<lambda>i. pmul (hat (s i)) (fadd (sum3 (\<lambda>j. pmul ((!) (A j i)) (hat (r j)))) (hat (w i)))))"
    by (intro feq_sum3 feq_pmul) (use S feq_trans [OF up(2) hu] in auto)
  finally have hM: "feq (hat M) (sum3 (\<lambda>i. pmul (hat (s i)) (fadd (sum3 (\<lambda>j. pmul ((!) (A j i)) (hat (r j)))) (hat (w i)))))" .
  let ?D = "canon (fsub ((!) v) ((!) M))"
  let ?noise = "fsub (sum3 (\<lambda>i. (!) (negacyclic (e i) (r i)))) (sum3 (\<lambda>i. (!) (negacyclic (s i) (w i))))"
  let ?N = "canon (fadd ?noise ((!) x))"
  have "feq (hat ?D) (fsub (hat v) (hat M))"
    by (rule feq_trans [OF hat_canon(3) feq_fsub [OF hat_canon(1) hat_canon(1)]]) (rule v M)+
  also have "feq \<dots> (fsub (fadd (hat ?V) (hat x)) (hat M))"
    by (intro feq_fsub hat_add V(1) v feq_refl)
  also have "\<dots> = fadd (fsub (hat ?V) (hat M)) (hat x)" by (simp add: fun_eq_iff fadd_def fsub_def)
  also have "feq \<dots> (fadd (fsub (sum3 (\<lambda>i. pmul (hat (e i)) (hat (r i)))) (sum3 (\<lambda>i. pmul (hat (s i)) (hat (w i))))) (hat x))"
    unfolding matrix_cancels [of "\<lambda>i j. (!) (A i j)" "\<lambda>i. hat (s i)" "\<lambda>i. hat (e i)" "\<lambda>i. hat (r i)" "\<lambda>i. hat (w i)", symmetric]
    by (intro feq_fadd feq_fsub hV hM feq_refl)
  finally have hD: "feq (hat ?D) \<dots>" .
  have er: "feq (hat (canon (sum3 (\<lambda>i. (!) (negacyclic (e i) (r i)))))) (sum3 (\<lambda>i. pmul (hat (e i)) (hat (r i))))"
    by (intro hat_canon_sum3 hat_canon(4)) (use small in blast)+
  have sw: "feq (hat (canon (sum3 (\<lambda>i. (!) (negacyclic (s i) (w i)))))) (sum3 (\<lambda>i. pmul (hat (s i)) (hat (w i))))"
    by (intro hat_canon_sum3 hat_canon(4)) (use small u in blast)+
  have "feq (hat ?N) (fadd (fsub (sum3 (\<lambda>i. pmul (hat (e i)) (hat (r i)))) (sum3 (\<lambda>i. pmul (hat (s i)) (hat (w i))))) (hat x))"
    by (rule feq_trans [OF hat_canon(2) feq_fadd [OF feq_trans [OF hat_canon(3) feq_fsub [OF er sw]] hat_canon(1) [OF v(2)]]])
  then have "feq (hat ?D) (hat ?N)" using hD feq_trans feq_sym by blast
  then have "feq ((!) ?D) ((!) ?N)" by (rule hat_inj [OF kp_canon kp_canon])
  then show "feq (fsub ((!) v) ((!) M)) (fadd ?noise ((!) x))"
    by (rule feq_trans [OF feq_sym [OF canon_props(3)] feq_trans [OF _ canon_props(3)]])
qed

subsection \<open>Decryption\<close>

lemma those_Some_iff: "those xs = Some ys \<longleftrightarrow> xs = map Some ys"
  by (induction xs arbitrary: ys) (auto split: option.splits simp: Cons_eq_map_conv)

lemma gen_matrix_entries:
  assumes "gen_matrix L seed tr = Some a" and "i < 3" and "j < 3"
  shows "length a = 3" and "length (a ! i) = 3"
    and "gen_poly (xof_absorb L seed (of_nat (if tr then i else j)) (of_nat (if tr then j else i))) = Some (a ! i ! j)"
proof -
  from assms(1) have a: "map (\<lambda>i. those (map (\<lambda>j. gen_poly (if tr then xof_absorb L seed (of_nat i) (of_nat j)
      else xof_absorb L seed (of_nat j) (of_nat i))) [0..<3])) [0..<3] = map Some a"
    by (simp add: gen_matrix_def those_Some_iff KYBER_K_def)
  from arg_cong [OF this, of length] show la: "length a = 3" by simp
  from a assms(2) la have "those (map (\<lambda>j. gen_poly (if tr then xof_absorb L seed (of_nat i) (of_nat j)
      else xof_absorb L seed (of_nat j) (of_nat i))) [0..<3]) = Some (a ! i)"
    by (metis (no_types, lifting) add_0 diff_zero length_upt nth_map nth_upt)
  then have r: "map (\<lambda>j. gen_poly (if tr then xof_absorb L seed (of_nat i) (of_nat j)
      else xof_absorb L seed (of_nat j) (of_nat i))) [0..<3] = map Some (a ! i)"
    by (simp only: those_Some_iff)
  from arg_cong [OF r, of length] show li: "length (a ! i) = 3" by simp
  from arg_cong [OF r, of "\<lambda>xs. xs ! j"] assms(3) li
  show "gen_poly (xof_absorb L seed (of_nat (if tr then i else j)) (of_nat (if tr then j else i))) = Some (a ! i ! j)"
    by (simp split: if_splits)
qed

lemma gen_matrix_transpose:
  assumes "gen_matrix L seed False = Some a" and "gen_matrix L seed True = Some at" and "i < 3" and "j < 3"
  shows "at ! i ! j = a ! j ! i" and "length (a ! i ! j) = 256 \<and> bnd 4095 (a ! i ! j)"
proof -
  show "at ! i ! j = a ! j ! i"
    using gen_matrix_entries(3) [OF assms(1,4,3)] gen_matrix_entries(3) [OF assms(2-4)] by simp
  show "length (a ! i ! j) = 256 \<and> bnd 4095 (a ! i ! j)"
    using gen_poly_range [OF gen_matrix_entries(3) [OF assms(1,3,4)]] by (force simp: bnd_def)
qed

lemma cbd2_bnd: "bnd 3 (cbd2 buf)"
proof -
  have r: "0 \<le> x AND 3" "x AND 3 \<le> 3" for x :: int by simp_all
  have "\<bar>(x AND 3) - (y AND 3)\<bar> \<le> 3" for x y :: int using r [of x] r [of y] by linarith
  then show ?thesis by (auto simp: bnd_def cbd2_def cbd2_group_def Let_def)
qed

lemma getnoise_bnd: "bnd 3 (getnoise_eta1 L seed n)" "bnd 3 (getnoise_eta2 L seed n)"
  by (simp_all add: getnoise_eta1_def getnoise_eta2_def cbd2_bnd)

lemma kp_getnoise: "kp (getnoise_eta1 L seed n)" "kp (getnoise_eta2 L seed n)"
  using bnd_mono [OF getnoise_bnd(1)] bnd_mono [OF getnoise_bnd(2)] by (simp_all add: kp_def)

text \<open>The uncompressed ciphertext, and the noise of a ciphertext: the terms decryption does not cancel.\<close>

definition enc_uv :: "sha3_lib \<Rightarrow> bytes \<Rightarrow> bytes \<Rightarrow> bytes \<Rightarrow> (kpolyvec \<times> kpoly) option" where
  "enc_uv L m p coins =
     (let (pkpv, seed) = unpack_pk p in
      case gen_matrix L seed True of
        None \<Rightarrow> None
      | Some at \<Rightarrow>
          let sp = map (\<lambda>i. poly_ntt (getnoise_eta1 L coins (of_nat i))) [0..<3] in
          Some (map (\<lambda>i. poly_reduce (poly_add (poly_invntt_tomont (basemul_acc_montgomery (at ! i) sp))
                           (getnoise_eta2 L coins (of_nat (i + 3))))) [0..<3],
                poly_reduce (poly_add (poly_add (poly_invntt_tomont (basemul_acc_montgomery pkpv sp))
                  (getnoise_eta2 L coins 6)) (poly_from_msg m))))"

definition u_error :: "kpoly \<Rightarrow> kpoly \<Rightarrow> kpoly" where
  "u_error e1 b = map (\<lambda>n. e1 ! n + (decompress_coeff10 (compress_coeff10 (b ! n)) - b ! n)) [0..<256]"

definition indcpa_noise :: "sha3_lib \<Rightarrow> bytes \<Rightarrow> bytes \<Rightarrow> kpolyvec \<times> kpoly \<Rightarrow> nat \<Rightarrow> int" where
  "indcpa_noise L coins rc bv n =
     (let ns = drop SYMBYTES (hash_g L coins);
          s = \<lambda>i. getnoise_eta1 L ns (of_nat i);
          e = \<lambda>i. getnoise_eta1 L ns (of_nat (i + 3));
          r = \<lambda>i. getnoise_eta1 L rc (of_nat i);
          e1 = \<lambda>i. getnoise_eta2 L rc (of_nat (i + 3)) in
      sum3 (\<lambda>i. (!) (negacyclic (e i) (r i))) n
      - sum3 (\<lambda>i. (!) (negacyclic (s i) (u_error (e1 i) (fst bv ! i)))) n
      + getnoise_eta2 L rc 6 ! n
      + (decompress_coeff (compress_coeff (snd bv ! n)) - snd bv ! n))"

lemma indcpa_enc_uv:
  "indcpa_enc L m p coins = map_option (\<lambda>(b, v). pack_ciphertext b v) (enc_uv L m p coins)"
proof (cases "gen_matrix L (snd (unpack_pk p)) True")
  case None
  then show ?thesis by (auto simp: indcpa_enc_def enc_uv_def Let_def split: prod.splits)
next
  case (Some at)
  from gen_matrix_entries(1) [OF Some, of 0 0] have "length at = 3" by simp
  then obtain a0 a1 a2 where at: "at = [a0, a1, a2]"
    by (auto simp: length_Suc_conv eval_nat_numeral)
  have "[0..<3] = [0, 1, 2 :: nat]" by code_simp
  then show ?thesis using Some at
    by (auto simp: indcpa_enc_def enc_uv_def Let_def polyvec_reduce_def polyvec_add_def polyvec_invntt_tomont_def
        polyvec_ntt_def kyber_sizes split: prod.splits)
qed

lemma decompress_range:
  "-3329 \<le> x \<Longrightarrow> x < 3329 \<Longrightarrow> 0 \<le> decompress_coeff (compress_coeff x) \<and> decompress_coeff (compress_coeff x) \<le> 3328"
  "-3329 \<le> x \<Longrightarrow> x < 3329 \<Longrightarrow> 0 \<le> decompress_coeff10 (compress_coeff10 x) \<and> decompress_coeff10 (compress_coeff10 x) \<le> 3328"
  using compress_range [of x] decompress_coeff_eq [of "compress_coeff x"] decompress_coeff10_eq [of "compress_coeff10 x"]
  by (simp_all, linarith+)

lemma bnd_mod: "bnd 4095 (map (\<lambda>u. u mod 3329) p)"
proof -
  have "0 \<le> (u :: int) mod 3329" "u mod 3329 < 3329" for u by simp_all
  then show ?thesis by (force simp: bnd_def)
qed

lemma mod_feq: "length p = 256 \<Longrightarrow> feq ((!) (map (\<lambda>u. u mod 3329) p)) ((!) p)"
  by (simp add: feq_def qeq_def)

lemma bnd_subset: "bnd B p \<Longrightarrow> B < 3329 \<Longrightarrow> set p \<subseteq> {-3329..<3329}"
  by (force simp: bnd_def)

text \<open>The key: \<open>t = A s + e\<close> and \<open>s\<close>, in the transform domain and as unpacked.\<close>

lemma keypair_parts:
  assumes "indcpa_keypair L coins = Some (p, sk)"
  obtains a t where "gen_matrix L (drop POLYVECBYTES p) False = Some a"
    and "fst (unpack_pk p) = map t [0..<3]"
    and "\<And>i. i < 3 \<Longrightarrow> length (t i) = 256 \<and> bnd 4095 (t i) \<and> feq ((!) (t i))
      (fadd (sum3 (\<lambda>j. pmul ((!) (a ! i ! j)) (hat (getnoise_eta1 L (drop SYMBYTES (hash_g L coins)) (of_nat j)))))
        (hat (getnoise_eta1 L (drop SYMBYTES (hash_g L coins)) (of_nat (i + 3)))))"
    and "unpack_sk sk = map (\<lambda>i. map (\<lambda>u. u mod 3329) (poly_ntt (getnoise_eta1 L (drop SYMBYTES (hash_g L coins)) (of_nat i)))) [0..<3]"
proof -
  define ns where "ns = drop SYMBYTES (hash_g L coins)"
  define s where "s = (\<lambda>i. getnoise_eta1 L ns (of_nat i))"
  define e where "e = (\<lambda>i. getnoise_eta1 L ns (of_nat (i + 3)))"
  define S where "S = map (\<lambda>i. poly_ntt (s i)) [0..<3]"
  from assms obtain a where a: "gen_matrix L (take SYMBYTES (hash_g L coins)) False = Some a"
    and p: "p = pack_pk (polyvec_reduce (polyvec_add (map poly_tomont (map (\<lambda>r. basemul_acc_montgomery r S) a))
        (map (\<lambda>i. poly_ntt (e i)) [0..<3]))) (take SYMBYTES (hash_g L coins))"
    and sk: "sk = pack_sk S"
    by (auto simp: indcpa_keypair_def Let_def polyvec_ntt_def KYBER_K_def S_def s_def e_def ns_def comp_def split: option.splits)
  have la: "length a = 3" using gen_matrix_entries(1) [OF a, of 0 0] by simp
  define T where "T = (\<lambda>i. poly_reduce (poly_add (poly_tomont (basemul_acc_montgomery (a ! i) S)) (poly_ntt (e i))))"
  have p': "p = polyvec_to_bytes (map T [0..<3]) @ take SYMBYTES (hash_g L coins)"
    using la by (simp add: p pack_pk_def polyvec_reduce_def polyvec_add_def KYBER_K_def T_def comp_def)
      (rule arg_cong [of _ _ polyvec_to_bytes], simp)
  have S: "length (S ! j) = 256 \<and> bnd 4095 (S ! j)" "feq ((!) (S ! j)) (hat (s j))" if "j < 3" for j
    using poly_ntt_feq [of "s j"] kp_getnoise bnd_mono [of 1664 "poly_ntt (s j)" 4095] that by (auto simp: S_def s_def)
  have T: "length (T i) = 256 \<and> bnd 1664 (T i) \<and> feq ((!) (T i)) (fadd (sum3 (\<lambda>j. pmul ((!) (a ! i ! j)) (hat (s j)))) (hat (e i)))"
    if i: "i < 3" for i
  proof -
    have ai: "length (a ! i ! j) = 256 \<and> bnd 4095 (a ! i ! j)" if "j < 3" for j
      using gen_poly_range [OF gen_matrix_entries(3) [OF a i that]] by (force simp: bnd_def)
    have lS: "length S = 3" by (simp add: S_def)
    let ?m = "basemul_acc_montgomery (a ! i) S"
    note m = basemul_acc_feq [OF gen_matrix_entries(2) [OF a i i] lS ai S(1)]
    note tm = poly_tomont_feq [OF m(3) m(2)]
    have ek: "kp (e i)" by (simp add: e_def kp_getnoise)
    note en = poly_ntt_feq [OF ek]
    note ad = poly_add_feq [OF tm(2) en(2) tm(3) en(3)]
    have "bnd 32767 (poly_add (poly_tomont ?m) (poly_ntt (e i)))" using bnd_mono [OF ad(2)] by simp
    moreover have "T i = poly_reduce (poly_add (poly_tomont ?m) (poly_ntt (e i)))" by (simp add: T_def)
    ultimately have rd: "feq ((!) (T i)) ((!) (poly_add (poly_tomont ?m) (poly_ntt (e i))))" "bnd 1664 (T i)"
      using poly_reduce_feq by simp_all
    have "feq ((!) (T i)) (fadd ((!) (poly_tomont ?m)) ((!) (poly_ntt (e i))))"
      using feq_trans [OF rd(1) ad(1)] by simp
    also have "feq \<dots> (fadd (\<lambda>n. 65536 * ?m ! n) (hat (e i)))" by (intro feq_fadd tm(1) en(1))
    also have "feq \<dots> (fadd (\<lambda>n. 65536 * (169 * sum3 (\<lambda>j. pmul ((!) (a ! i ! j)) ((!) (S ! j))) n)) (hat (e i)))"
      by (intro feq_fadd feq_scale m(1) feq_refl)
    also have "feq \<dots> (fadd (sum3 (\<lambda>j. pmul ((!) (a ! i ! j)) ((!) (S ! j)))) (hat (e i)))"
      by (rule feq_fadd [OF scale_169 feq_refl]) (simp add: mult.assoc)
    also have "feq \<dots> (fadd (sum3 (\<lambda>j. pmul ((!) (a ! i ! j)) (hat (s j)))) (hat (e i)))"
      by (intro feq_fadd feq_refl feq_sum3 feq_pmul S(2))
    finally show ?thesis using rd(2) by (simp add: T_def)
  qed
  have Ts: "set (T i) \<subseteq> {-3329..<3329}" if "i < 3" for i
    using T [OF that] by (intro bnd_subset [of 1664]) simp_all
  have Ss: "set (poly_ntt (s i)) \<subseteq> {-3329..<3329}" for i
    by (rule bnd_subset [OF poly_ntt_feq(2)]) (simp_all add: s_def kp_getnoise)
  have len: "length (polyvec_to_bytes (map T [0..<3])) = POLYVECBYTES"
    using T by (subst length_polyvec_to_bytes) (auto simp: kyber_sizes)
  show thesis
  proof (rule that)
    show "gen_matrix L (drop POLYVECBYTES p) False = Some a" using a len by (simp add: p')
    have "polyvec_from_bytes (polyvec_to_bytes (map T [0..<3])) = map (map (\<lambda>u. u mod 3329)) (map T [0..<3])"
      using T Ts by (intro polyvec_bytes_round_trip) auto
    then show "fst (unpack_pk p) = map (\<lambda>i. map (\<lambda>u. u mod 3329) (T i)) [0..<3]"
      using len by (simp add: unpack_pk_def p' comp_def)
    show "length (map (\<lambda>u. u mod 3329) (T i)) = 256 \<and> bnd 4095 (map (\<lambda>u. u mod 3329) (T i)) \<and>
        feq ((!) (map (\<lambda>u. u mod 3329) (T i)))
          (fadd (sum3 (\<lambda>j. pmul ((!) (a ! i ! j)) (hat (getnoise_eta1 L (drop SYMBYTES (hash_g L coins)) (of_nat j)))))
            (hat (getnoise_eta1 L (drop SYMBYTES (hash_g L coins)) (of_nat (i + 3)))))" if "i < 3" for i
      using T [OF that] mod_feq [of "T i"] bnd_mod feq_trans unfolding s_def e_def ns_def by auto
    show "unpack_sk sk = map (\<lambda>i. map (\<lambda>u. u mod 3329) (poly_ntt (getnoise_eta1 L (drop SYMBYTES (hash_g L coins)) (of_nat i)))) [0..<3]"
      unfolding unpack_sk_def sk pack_sk_def
      using Ss by (subst polyvec_bytes_round_trip) (auto simp: S_def s_def ns_def poly_ntt_feq(3) [OF kp_getnoise(1)] comp_def)
  qed
qed

lemma poly_from_msg_props:
  assumes "length m = 32"
  shows "length (poly_from_msg m) = 256" and "bnd 1665 (poly_from_msg m)"
proof -
  show l: "length (poly_from_msg m) = 256"
    using assms by (simp add: poly_from_msg_def length_concat comp_def sum_list_triv)
  show "bnd 1665 (poly_from_msg m)"
    by (rule bnd_nthI) (use assms l in \<open>simp add: poly_from_msg_nth\<close>)
qed

text \<open>A polynomial of the ciphertext, sent compressed to ten bits.\<close>

lemma compressed_part:
  assumes "length U = 256" and "bnd 3328 U" and "length e1 = 256" and "bnd 3 e1"
  defines "b \<equiv> poly_reduce (poly_add U e1)"
  defines "u \<equiv> map (decompress_coeff10 \<circ> compress_coeff10) b"
  shows "length b = 256" and "bnd 1664 b" and "kp u" and "kp (u_error e1 b)" and "feq ((!) u) (fadd ((!) U) ((!) (u_error e1 b)))"
proof -
  note ad = poly_add_feq [OF assms(2,4,1,3)]
  have "bnd 32767 (poly_add U e1)" using bnd_mono [OF ad(2)] by simp
  note rd = poly_reduce_feq [OF this]
  show lb: "length b = 256" by (simp add: b_def)
  show bb: "bnd 1664 b" using rd by (simp add: b_def)
  have be: "feq ((!) b) (fadd ((!) U) ((!) e1))" unfolding b_def using feq_trans [OF rd(1) ad(1)] by simp
  have bn: "\<bar>b ! n\<bar> \<le> 1664" "\<bar>e1 ! n\<bar> \<le> 3" if "n < 256" for n
    using bnd_nth [OF bb] bnd_nth [OF assms(4)] lb assms(3) that by simp_all
  have dr: "0 \<le> u ! n" "u ! n \<le> 3328" if "n < 256" for n
    using decompress_range(2) [of "b ! n"] bn(1) [OF that] lb that by (auto simp: u_def)
  have lu: "length u = 256" by (simp add: u_def lb)
  show "kp u" unfolding kp_def using dr lu by (force intro!: bnd_nthI)
  have w: "u_error e1 b ! n = e1 ! n + (u ! n - b ! n)" if "n < 256" for n
    using that lb by (simp add: u_error_def u_def)
  have lw: "length (u_error e1 b) = 256" by (simp add: u_error_def)
  have "\<bar>u_error e1 b ! n\<bar> \<le> 9471" if "n < 256" for n
    using dr [OF that] bn [OF that] unfolding w [OF that] by linarith
  then show "kp (u_error e1 b)" unfolding kp_def using lw by (auto intro!: bnd_nthI)
  show "feq ((!) u) (fadd ((!) U) ((!) (u_error e1 b)))"
    unfolding feq_def
  proof (intro allI impI)
    fix n :: nat assume n: "n < 256"
    have "qeq (b ! n + (u ! n - b ! n)) (fadd ((!) U) ((!) e1) n + (u ! n - b ! n))"
      using be n by (intro qeq_add) (simp_all add: feq_def)
    then show "qeq (u ! n) (fadd ((!) U) ((!) (u_error e1 b)) n)"
      by (simp add: w [OF n] fadd_def algebra_simps)
  qed
qed

text \<open>The polynomial that carries the message, sent compressed to four bits.\<close>

definition v_error :: "kpoly \<Rightarrow> kpoly \<Rightarrow> kpoly \<Rightarrow> kpoly" where
  "v_error e2 k v = map (\<lambda>n. e2 ! n + k ! n + (decompress_coeff (compress_coeff (v ! n)) - v ! n)) [0..<256]"

lemma message_part:
  assumes "length V = 256" and "bnd 3328 V" and "length e2 = 256" and "bnd 3 e2" and "length k = 256" and "bnd 1665 k"
  defines "v \<equiv> poly_reduce (poly_add (poly_add V e2) k)"
  defines "x \<equiv> map (decompress_coeff \<circ> compress_coeff) v"
  shows "length v = 256" and "bnd 1664 v" and "kp x" and "bnd 3328 x" and "kp (v_error e2 k v)"
    and "feq ((!) x) (fadd ((!) V) ((!) (v_error e2 k v)))"
proof -
  note ad1 = poly_add_feq [OF assms(2,4,1,3)]
  note ad = poly_add_feq [OF ad1(2) assms(6) length_poly_add(1) assms(5)]
  have "bnd 32767 (poly_add (poly_add V e2) k)" using bnd_mono [OF ad(2)] by simp
  note rd = poly_reduce_feq [OF this]
  show lv: "length v = 256" by (simp add: v_def)
  show bv: "bnd 1664 v" using rd by (simp add: v_def)
  have "feq ((!) v) (fadd ((!) (poly_add V e2)) ((!) k))" unfolding v_def using feq_trans [OF rd(1) ad(1)] by simp
  also have "feq \<dots> (fadd (fadd ((!) V) ((!) e2)) ((!) k))" by (intro feq_fadd feq_refl ad1(1)) simp
  finally have ve: "feq ((!) v) (fadd (fadd ((!) V) ((!) e2)) ((!) k))" .
  have vn: "\<bar>v ! n\<bar> \<le> 1664" "\<bar>e2 ! n\<bar> \<le> 3" "\<bar>k ! n\<bar> \<le> 1665" if "n < 256" for n
    using bnd_nth [OF bv] bnd_nth [OF assms(4)] bnd_nth [OF assms(6)] lv assms(3,5) that by simp_all
  have dr: "0 \<le> x ! n" "x ! n \<le> 3328" if "n < 256" for n
    using decompress_range(1) [of "v ! n"] vn(1) [OF that] lv that by (auto simp: x_def)
  have lx: "length x = 256" by (simp add: x_def lv)
  show "kp x" unfolding kp_def using dr lx by (force intro!: bnd_nthI)
  show "bnd 3328 x" using dr lx by (force intro!: bnd_nthI)
  have w: "v_error e2 k v ! n = e2 ! n + k ! n + (x ! n - v ! n)" if "n < 256" for n
    using that lv by (simp add: v_error_def x_def)
  have "\<bar>v_error e2 k v ! n\<bar> \<le> 9471" if "n < 256" for n
    using dr [OF that] vn [OF that] unfolding w [OF that] by linarith
  then show "kp (v_error e2 k v)" unfolding kp_def by (force intro!: bnd_nthI simp: v_error_def)
  show "feq ((!) x) (fadd ((!) V) ((!) (v_error e2 k v)))"
    unfolding feq_def
  proof (intro allI impI)
    fix n :: nat assume n: "n < 256"
    have "qeq (v ! n + (x ! n - v ! n)) (fadd (fadd ((!) V) ((!) e2)) ((!) k) n + (x ! n - v ! n))"
      using ve n by (intro qeq_add) (simp_all add: feq_def)
    then show "qeq (x ! n) (fadd ((!) V) ((!) (v_error e2 k v)) n)"
      by (simp add: w [OF n] fadd_def algebra_simps)
  qed
qed

lemma indcpa_decrypts:
  assumes keys: "indcpa_keypair L coins = Some (p, sk)" and enc: "enc_uv L m p rc = Some bv" and m: "length m = 32"
    and noise: "\<And>n. n < 256 \<Longrightarrow> qdist 831 0 (indcpa_noise L coins rc bv n)"
  shows "indcpa_dec (pack_ciphertext (fst bv) (snd bv)) sk = m"
proof -
  from keys obtain a t where a: "gen_matrix L (drop POLYVECBYTES p) False = Some a"
    and pk: "fst (unpack_pk p) = map t [0..<3]"
    and t: "\<And>i. i < 3 \<Longrightarrow> length (t i) = 256 \<and> bnd 4095 (t i) \<and> feq ((!) (t i))
      (fadd (sum3 (\<lambda>j. pmul ((!) (a ! i ! j)) (hat (getnoise_eta1 L (drop SYMBYTES (hash_g L coins)) (of_nat j)))))
        (hat (getnoise_eta1 L (drop SYMBYTES (hash_g L coins)) (of_nat (i + 3)))))"
    and sk: "unpack_sk sk = map (\<lambda>i. map (\<lambda>u. u mod 3329) (poly_ntt (getnoise_eta1 L (drop SYMBYTES (hash_g L coins)) (of_nat i)))) [0..<3]"
    by (rule keypair_parts) blast
  define ns where "ns = drop SYMBYTES (hash_g L coins)"
  define s e r e1 where "s i = getnoise_eta1 L ns (of_nat i)" and "e i = getnoise_eta1 L ns (of_nat (i + 3))"
    and "r i = getnoise_eta1 L rc (of_nat i)" and "e1 i = getnoise_eta2 L rc (of_nat (i + 3))" for i :: nat
  define e2 where "e2 = getnoise_eta2 L rc 6"
  define R where "R = map (\<lambda>i. poly_ntt (r i)) [0..<3]"
  define k where "k = poly_from_msg m"
  define V where "V = poly_invntt_tomont (basemul_acc_montgomery (map t [0..<3]) R)"
  define U where "U i = poly_invntt_tomont (basemul_acc_montgomery (map (\<lambda>j. a ! j ! i) [0..<3]) R)" for i
  define b where "b i = poly_reduce (poly_add (U i) (e1 i))" for i
  define v where "v = poly_reduce (poly_add (poly_add V e2) k)"
  note gn = kp_getnoise getnoise_bnd length_getnoise
  have unp: "snd (unpack_pk p) = drop POLYVECBYTES p" by (simp add: unpack_pk_def)
  have bv: "bv = (map b [0..<3], v)"
  proof -
    from enc obtain at where at: "gen_matrix L (drop POLYVECBYTES p) True = Some at"
      and bv: "bv = (map (\<lambda>i. poly_reduce (poly_add (poly_invntt_tomont (basemul_acc_montgomery (at ! i) R)) (e1 i))) [0..<3], v)"
      using pk unp by (auto simp: enc_uv_def Let_def R_def r_def e1_def v_def V_def e2_def k_def split: option.splits prod.splits)
    have "at ! i = map (\<lambda>j. a ! j ! i) [0..<3]" if "i < 3" for i
      using gen_matrix_transpose(1) [OF a at that] gen_matrix_entries(2) [OF at that that]
      by (intro nth_equalityI) auto
    then show ?thesis by (simp add: bv b_def U_def)
  qed
  have lR: "length R = 3" by (simp add: R_def)
  have Rp: "length (R ! i) = 256 \<and> bnd 4095 (R ! i)" if "i < 3" for i
    using poly_ntt_feq [of "r i"] gn bnd_mono [of 1664 "poly_ntt (r i)" 4095] that by (auto simp: R_def r_def)
  have A: "length (a ! i ! j) = 256 \<and> bnd 4095 (a ! i ! j)" if "i < 3" "j < 3" for i j
    using gen_poly_range [OF gen_matrix_entries(3) [OF a that]] by (force simp: bnd_def)
  have V: "kp V" "bnd 3328 V" unfolding V_def by (rule invntt_acc; use lR Rp t in simp)+
  have U: "kp (U i)" "bnd 3328 (U i)" if "i < 3" for i unfolding U_def by (rule invntt_acc; use lR Rp A that in simp)+
  have lk: "length k = 256" "bnd 1665 k" using poly_from_msg_props [OF m] by (simp_all add: k_def)
  let ?u = "\<lambda>i. map (decompress_coeff10 \<circ> compress_coeff10) (b i)" and ?w = "\<lambda>i. u_error (e1 i) (b i)"
  let ?x = "map (decompress_coeff \<circ> compress_coeff) v" and ?y = "v_error e2 k v"
  have cp: "length (b i) = 256 \<and> bnd 1664 (b i) \<and> kp (?u i) \<and> kp (?w i) \<and> feq ((!) (?u i)) (fadd ((!) (U i)) ((!) (?w i)))"
    if "i < 3" for i
    unfolding b_def using compressed_part [of "U i" "e1 i"] U [OF that] gn by (simp add: kp_def e1_def)
  have mp: "length v = 256" "bnd 1664 v" "kp ?x" "bnd 3328 ?x" "kp ?y" "feq ((!) ?x) (fadd ((!) V) ((!) ?y))"
    unfolding v_def using message_part [of V e2 k] V gn lk by (simp_all add: kp_def e2_def)
  let ?S = "\<lambda>i. map (\<lambda>u. u mod 3329) (poly_ntt (s i))"
  let ?M = "poly_invntt_tomont (basemul_acc_montgomery (map ?S [0..<3]) (map (\<lambda>i. poly_ntt (?u i)) [0..<3]))"
  have S: "length (?S i) = 256 \<and> bnd 4095 (?S i) \<and> feq ((!) (?S i)) (hat (s i))" for i
  proof -
    have "kp (s i)" by (simp add: s_def gn)
    note ps = poly_ntt_feq [OF this]
    show ?thesis by (simp add: ps(3) bnd_mod feq_trans [OF mod_feq [OF ps(3)] ps(1)])
  qed
  note dv = decrypt_value [of "\<lambda>i j. a ! i ! j" s e r t ?S ?u ?w ?x ?y]
  have D: "feq (fsub ((!) ?x) ((!) ?M)) (fadd (fsub (sum3 (\<lambda>i. (!) (negacyclic (e i) (r i))))
      (sum3 (\<lambda>i. (!) (negacyclic (s i) (?w i))))) ((!) ?y))" "bnd 3328 ?M" "length ?M = 256"
    by (rule dv; use A gn t S cp mp in \<open>simp add: s_def e_def r_def ns_def U_def V_def R_def\<close>)+
  have bs: "set (b i) \<subseteq> {-3329..<3329}" if "i < 3" for i
    using cp [OF that] by (intro bnd_subset [of 1664]) simp_all
  have vs: "set v \<subseteq> {-3329..<3329}" using mp(2) by (rule bnd_subset) simp
  have "length (polyvec_compress (map b [0..<3])) = POLYVECCOMPRESSEDBYTES"
    using cp by (subst length_polyvec_compress) (auto simp: kyber_sizes)
  then have un: "unpack_ciphertext (pack_ciphertext (map b [0..<3]) v) = (map ?u [0..<3], ?x)"
    using cp bs mp(1) vs polyvec_compress_round_trip [of "map b [0..<3]"]
    by (simp add: unpack_ciphertext_def pack_ciphertext_def poly_compress_round_trip)
  let ?d = "poly_sub ?x ?M"
  have lx: "length ?x = 256" using mp(1) by simp
  note sb = poly_add_feq(3,4) [OF mp(4) D(2) lx D(3)]
  have "bnd 32767 ?d" using bnd_mono [OF sb(2)] by simp
  note rd = poly_reduce_feq [OF this]
  have eq: "feq ((!) (poly_reduce ?d)) (fadd (fsub (sum3 (\<lambda>i. (!) (negacyclic (e i) (r i))))
      (sum3 (\<lambda>i. (!) (negacyclic (s i) (?w i))))) ((!) ?y))"
    by (rule feq_trans [OF rd(1) feq_trans [OF sb(1) D(1)]]) simp_all
  have sum: "fadd (fsub (sum3 (\<lambda>i. (!) (negacyclic (e i) (r i)))) (sum3 (\<lambda>i. (!) (negacyclic (s i) (?w i))))) ((!) ?y) n =
      indcpa_noise L coins rc bv n + k ! n" if "n < 256" for n
  proof -
    have bi: "map b [0..<3] ! 0 = b 0" "map b [0..<3] ! 1 = b 1" "map b [0..<3] ! 2 = b 2" by (simp_all add: numeral_2_eq_2)
    show ?thesis
      using that unfolding indcpa_noise_def bv Let_def fst_conv snd_conv sum3_def bi
      by (simp add: v_error_def fadd_def fsub_def s_def e_def r_def e1_def e2_def ns_def)
  qed
  have "poly_to_msg (poly_reduce ?d) = m"
  proof (rule poly_msg_noise [OF m])
    show "set (poly_reduce ?d) \<subseteq> {-3329..<3329}" by (rule bnd_subset [OF rd(2)]) simp_all
    show "qdist 831 (poly_from_msg m ! n) (poly_reduce ?d ! n)" if n: "n < 256" for n
    proof -
      from noise [OF n] obtain d where d: "\<bar>d\<bar> \<le> 831" "qeq (indcpa_noise L coins rc bv n) d"
        by (auto simp: qdist_def)
      have "qeq (poly_reduce ?d ! n) (indcpa_noise L coins rc bv n + k ! n)"
        using eq n unfolding feq_def sum [OF n, symmetric] by blast
      also have "qeq \<dots> (d + k ! n)" by (intro qeq_add d(2) qeq_refl)
      finally show ?thesis using d(1) by (auto simp: qdist_def k_def add.commute)
    qed
  qed simp
  moreover have "indcpa_dec (pack_ciphertext (map b [0..<3]) v) sk = poly_to_msg (poly_reduce ?d)"
    by (simp add: indcpa_dec_def un sk Let_def polyvec_ntt_def s_def ns_def comp_def)
  ultimately show ?thesis by (simp add: bv)
qed

subsection \<open>Properties\<close>

text \<open>C1: Encapsulation and decapsulation agree: whenever the noise of the ciphertext is below a quarter of
  the modulus in every coefficient, \<open>Keypair::dec\<close> returns the secret that \<open>PublicKey::enc\<close>
  produced for that key pair.\<close>
theorem kyber_kem_correct:
  assumes "kem_keypair L seed = Some keys" and "kem_enc L (kyber_publickey keys) coins = Some (ct, ss)"
    and "length coins = 32" and "\<And>x. length (sha3_256 L x) = 32" and "\<And>x. length (sha3_512 L x) = 64"
    and "\<And>bv n. enc_uv L coins (kyber_publickey keys) (drop 32 (sha3_512 L (coins @ sha3_256 L (kyber_publickey keys)))) = Some bv \<Longrightarrow>
      n < 256 \<Longrightarrow> qdist 831 0 (indcpa_noise L (take 32 seed) (drop 32 (sha3_512 L (coins @ sha3_256 L (kyber_publickey keys)))) bv n)"
  shows "kem_dec L ct keys = Some (Some ss)"
proof -
  from kem_keys_parts [OF assms(1) assms(5) assms(4)] obtain p sk
    where ps: "indcpa_keypair L (take 32 seed) = Some (p, sk)" and pk: "kyber_publickey keys = p"
      and sk: "take 1152 keys = sk" and h: "take 32 (drop (1152 + 1184) keys) = hash_h L p" by metis
  let ?rc = "drop 32 (sha3_512 L (coins @ sha3_256 L p))"
  from assms(2) have ct: "indcpa_enc L coins p ?rc = Some ct" and ss: "ss = take 32 (sha3_512 L (coins @ sha3_256 L p))"
    by (auto simp: kem_enc_def pk Let_def SYMBYTES_def hash_g_def hash_h_def split: option.splits)
  from ct obtain bv where bv: "enc_uv L coins p ?rc = Some bv" and c: "ct = pack_ciphertext (fst bv) (snd bv)"
    by (auto simp: indcpa_enc_uv)
  have "indcpa_dec ct sk = coins"
    unfolding c using assms(6) bv by (intro indcpa_decrypts [OF ps bv assms(3)]) (simp add: pk)
  moreover have "take INDCPA_PUBLICKEYBYTES (drop INDCPA_SECRETKEYBYTES keys) = p"
    using pk by (simp add: kyber_publickey_def)
  ultimately show ?thesis
    using ct sk h ss by (simp add: kem_dec_def Let_def kyber_sizes hash_g_def hash_h_def kyber_verify_eq)
qed

lemma getnoise_zero: "getnoise_eta1 zero_sha s n = replicate 256 0" "getnoise_eta2 zero_sha s n = replicate 256 0"
proof -
  have "cbd2 (replicate 128 0) = replicate 256 0" by code_simp
  moreover have "map (\<lambda>i. 0) [0..<128] = replicate 128 (0 :: u8)" by (simp add: map_replicate_const)
  ultimately show "getnoise_eta1 zero_sha s n = replicate 256 0" "getnoise_eta2 zero_sha s n = replicate 256 0"
    by (simp_all add: getnoise_eta1_def getnoise_eta2_def kyber_prf_def xof_read_def zero_sha_def KYBER_N_def)
qed

lemma negacyclic_zero: "n < 256 \<Longrightarrow> negacyclic (replicate 256 0) y ! n = 0"
  by (simp add: negacyclic_def conv_def)

lemma noise_zero:
  assumes "enc_uv zero_sha m p rc = Some bv" and "n < 256"
  shows "qdist 831 0 (indcpa_noise zero_sha coins rc bv n)"
proof -
  from assms(1) obtain q where v: "snd bv = poly_reduce (poly_add q (poly_from_msg m))"
    by (auto simp: enc_uv_def Let_def split: prod.splits option.splits)
  have "\<bar>snd bv ! n\<bar> \<le> 1664"
    unfolding v using assms(2) as_i16_range
    by (simp add: poly_reduce_def poly_add_def KYBER_N_def barrett_reduce_bound)
  then have "qdist 104 (snd bv ! n) (decompress_coeff (compress_coeff (snd bv ! n)))"
    by (intro compress_error(1)) linarith+
  then obtain e where e: "\<bar>e\<bar> \<le> 104" "qeq (decompress_coeff (compress_coeff (snd bv ! n))) (snd bv ! n + e)"
    by (auto simp: qdist_def)
  from qeq_diff [OF e(2) qeq_refl [of "snd bv ! n"]]
  have "qeq (decompress_coeff (compress_coeff (snd bv ! n)) - snd bv ! n) e" by simp
  moreover have "indcpa_noise zero_sha coins rc bv n = decompress_coeff (compress_coeff (snd bv ! n)) - snd bv ! n"
    using assms(2) by (simp add: indcpa_noise_def getnoise_zero sum3_def fadd_def negacyclic_zero Let_def)
  ultimately show ?thesis using e(1) by (auto simp: qdist_def intro: exI [of _ e])
qed

theorem kyber_kem_correct_witness:
  "\<exists>keys ct ss. kem_keypair zero_sha (replicate 64 0) = Some keys \<and>
     kem_enc zero_sha (kyber_publickey keys) (replicate 32 7) = Some (ct, ss) \<and> kem_dec zero_sha ct keys = Some (Some ss)"
proof -
  obtain keys where k: "kem_keypair zero_sha (replicate 64 0) = Some keys" using zero_keypair by blast
  obtain ct ss where c: "kem_enc zero_sha (kyber_publickey keys) (replicate 32 7) = Some (ct, ss)"
    using zero_enc by blast
  have "kem_dec zero_sha ct keys = Some (Some ss)"
    by (rule kyber_kem_correct [OF k c]) (rule noise_zero | simp add: zero_sha_def)+
  with k c show ?thesis by blast
qed

text \<open>C3: Decapsulation accepts a ciphertext exactly when it is the encryption of the message it decrypts to,
  with the coins derived from that message; the secret is then the one of that message, and every other
  ciphertext is refused.\<close>
theorem kem_dec_accepts:
  assumes "length ct = 1088" and "kem_dec L ct keys = Some res"
  shows "res = Some ss \<longleftrightarrow>
    (let msg = indcpa_dec ct (take 1152 keys);
         kr = sha3_512 L (msg @ take 32 (drop 2336 keys)) in
     indcpa_enc L msg (kyber_publickey keys) (drop 32 kr) = Some ct \<and> ss = take 32 kr)"
  using assms length_ciphertext
  by (auto simp: kem_dec_def Let_def kyber_sizes hash_g_def kyber_publickey_def kyber_verify_eq split: option.splits if_splits)

theorem kem_dec_accepts_witness:
  "\<exists>res. kem_dec zero_sha (replicate 1088 0) (replicate 2400 0) = Some res \<and>
     (res = Some (replicate 32 0) \<longleftrightarrow>
       indcpa_enc zero_sha (indcpa_dec (replicate 1088 0) (take 1152 (replicate 2400 0)))
         (kyber_publickey (replicate 2400 0)) (drop 32 (replicate 64 0)) = Some (replicate 1088 0))"
proof -
  obtain res where r: "kem_dec zero_sha (replicate 1088 0) (replicate 2400 0) = Some res"
    unfolding kem_dec_def Let_def using zero_indcpa_enc by (metis (no_types, lifting) option.simps(5))
  show ?thesis
    using kem_dec_accepts [OF _ r, of "replicate 32 0"] r by (auto simp: zero_sha_def Let_def)
qed

end
