(* ===== verification/Streaming.thy ===== *)
theory Streaming
  imports Linear_Map
begin

section \<open>Stream negotiation (\<open>core/streaming/src/lib.rs\<close>)\<close>

text \<open>
  The behaviour that opens streams to peers: requests wait for a connection
  (\<open>dial_requests\<close>, with the number of additional streams) or for the connection's handler
  (\<open>stream_requests\<close>), and finished streams come back as events. Peers, connection ids, streams
  and errors are type parameters; the id that \<open>DialOpts\<close> draws for a dial is an argument.

  The lemmas follow the demand of a peer, the number of streams asked for and not yet requested from a
  handler: \<open>create_stream\<close> adds one, passing a request to a handler takes one away, every other
  operation keeps it.
\<close>

text \<open>\<open>FindAndRemove\<close> of \<open>component-utils/src/lib.rs\<close>.\<close>

definition find_and_remove :: "('a \<Rightarrow> bool) \<Rightarrow> 'a list \<Rightarrow> ('a \<times> 'a list) option" where
  "find_and_remove q xs =
     (case position q xs of None \<Rightarrow> None | Some i \<Rightarrow> Some (xs ! i, swap_remove i xs))"

datatype ('peer, 's, 'err) streaming_event =
  IncomingStream 'peer 's
| OutgoingStream 'peer "'err + 's"

record ('peer, 'conn, 's, 'err) streaming =
  stream_requests :: "('peer \<times> 'conn) list"
  dial_requests :: "('peer \<times> 'conn option \<times> nat) list"
  connected_peers :: "('peer, 'conn) linear_map"
  sg_events :: "('peer, 's, 'err) streaming_event list"

definition is_resolving_stream_for :: "('peer, 'conn, 's, 'err) streaming \<Rightarrow> 'peer \<Rightarrow> bool" where
  "is_resolving_stream_for b peer =
     (list_ex (\<lambda>(p, _). p = peer) (stream_requests b) \<or> list_ex (\<lambda>(p, _). p = peer) (dial_requests b))"

text \<open>The first dial request of a peer gets more streams to open, or there is a new one.\<close>

definition more_dials :: "'peer \<Rightarrow> nat \<Rightarrow> nat \<Rightarrow> ('peer \<times> 'conn option \<times> nat) list \<Rightarrow> ('peer \<times> 'conn option \<times> nat) list" where
  "more_dials peer found_add new ds =
     (case position (\<lambda>(p, _). p = peer) ds of
        Some i \<Rightarrow> (case ds ! i of (p, c, n) \<Rightarrow> ds[i := (p, c, n + found_add)])
      | None \<Rightarrow> ds @ [(peer, None, new)])"

definition create_stream :: "('peer, 'conn, 's, 'err) streaming \<Rightarrow> 'peer \<Rightarrow> ('peer, 'conn, 's, 'err) streaming" where
  "create_stream b with_peer =
     (case lm_get (connected_peers b) with_peer of
        Some conn \<Rightarrow> b\<lparr>stream_requests := stream_requests b @ [(with_peer, conn)]\<rparr>
      | None \<Rightarrow> b\<lparr>dial_requests := more_dials with_peer 1 0 (dial_requests b)\<rparr>)"

subsection \<open>Swarm events\<close>

text \<open>\<open>DialFailure\<close>; \<open>cond_false\<close> is the error \<open>DialPeerConditionFalse\<close>.\<close>

definition on_dial_failure ::
  "'err \<Rightarrow> bool \<Rightarrow> 'peer option \<Rightarrow> 'conn \<Rightarrow> ('peer, 'conn, 's, 'err) streaming \<Rightarrow> ('peer, 'conn, 's, 'err) streaming" where
  "on_dial_failure err cond_false peer_id conn b =
     (case List.find (\<lambda>(p, c, _). c = Some conn \<or> Some p = peer_id) (dial_requests b) of
        None \<Rightarrow> b
      | Some (peer, _, cnt) \<Rightarrow>
          if cond_false then b
          else b\<lparr>sg_events := sg_events b @ replicate (Suc cnt) (OutgoingStream peer (Inl err))\<rparr>)"

definition on_connection_closed :: "'peer \<Rightarrow> ('peer, 'conn, 's, 'err) streaming \<Rightarrow> ('peer, 'conn, 's, 'err) streaming" where
  "on_connection_closed peer b =
     (let cnt = length (filter (\<lambda>(p, _). p = peer) (stream_requests b));
          b' = b\<lparr>connected_peers := snd (lm_remove (connected_peers b) peer),
                 stream_requests := filter (\<lambda>(p, _). p \<noteq> peer) (stream_requests b)\<rparr> in
      if cnt = 0 then b'
      else b'\<lparr>dial_requests := more_dials peer (cnt - 1) (cnt - 1) (dial_requests b)\<rparr>)"

definition on_connection_established :: "'peer \<Rightarrow> 'conn \<Rightarrow> ('peer, 'conn, 's, 'err) streaming \<Rightarrow> ('peer, 'conn, 's, 'err) streaming" where
  "on_connection_established peer conn b =
     (let b' = (case find_and_remove (\<lambda>(p, _). p = peer) (dial_requests b) of
                  None \<Rightarrow> b
                | Some ((_, _, cnt), ds) \<Rightarrow>
                    b\<lparr>dial_requests := ds, stream_requests := stream_requests b @ replicate (cnt + 1) (peer, conn)\<rparr>) in
      b'\<lparr>connected_peers := snd (lm_insert (connected_peers b') peer conn)\<rparr>)"

definition on_handler_event :: "'peer \<Rightarrow> ('err + 's) + 's \<Rightarrow> ('peer, 'conn, 's, 'err) streaming \<Rightarrow> ('peer, 'conn, 's, 'err) streaming" where
  "on_handler_event peer ev b =
     b\<lparr>sg_events := sg_events b @ [case ev of Inr s \<Rightarrow> IncomingStream peer s | Inl e \<Rightarrow> OutgoingStream peer e]\<rparr>"

subsection \<open>Polling\<close>

datatype ('peer, 'conn, 's, 'err) to_swarm =
  Dial 'peer
| NotifyHandler 'peer 'conn
| GenerateEvent "('peer, 's, 'err) streaming_event"
| PollPending

text \<open>\<open>retain\<close> on the dial requests: those of connected peers become stream requests.\<close>

definition flush_dials :: "('peer, 'conn, 's, 'err) streaming \<Rightarrow> ('peer, 'conn, 's, 'err) streaming" where
  "flush_dials b =
     b\<lparr>dial_requests := filter (\<lambda>(p, _). lm_get (connected_peers b) p = None) (dial_requests b),
       stream_requests := stream_requests b @ concat (map (\<lambda>(p, _, cnt).
         case lm_get (connected_peers b) p of
           Some conn \<Rightarrow> replicate (Suc cnt) (p, conn)
         | None \<Rightarrow> []) (dial_requests b))\<rparr>"

definition streaming_poll ::
  "'conn \<Rightarrow> ('peer, 'conn, 's, 'err) streaming \<Rightarrow> ('peer, 'conn, 's, 'err) to_swarm \<times> ('peer, 'conn, 's, 'err) streaming" where
  "streaming_poll fresh b0 =
     (let b = flush_dials b0 in
      case position (\<lambda>(_, c, _). c = None) (dial_requests b) of
        Some i \<Rightarrow> (case dial_requests b ! i of (p, _, n) \<Rightarrow>
          (Dial p, b\<lparr>dial_requests := (dial_requests b)[i := (p, Some fresh, n)]\<rparr>))
      | None \<Rightarrow>
          if stream_requests b \<noteq> [] then
            (case last (stream_requests b) of (p, conn) \<Rightarrow>
              (NotifyHandler p conn, b\<lparr>stream_requests := butlast (stream_requests b)\<rparr>))
          else if sg_events b \<noteq> [] then
            (GenerateEvent (last (sg_events b)), b\<lparr>sg_events := butlast (sg_events b)\<rparr>)
          else (PollPending, b))"

subsection \<open>The connection handler\<close>

record ('s, 'err) stream_handler =
  requested :: nat
  sh_stream :: "(('err + 's) + 's) list"

definition handler_new :: "('s, 'err) stream_handler" where
  "handler_new = \<lparr>requested = 0, sh_stream = []\<rparr>"

datatype ('s, 'err) handler_output = NotifyBehaviour "('err + 's) + 's" | OutboundSubstreamRequest | HandlerPending

definition handler_poll :: "('s, 'err) stream_handler \<Rightarrow> ('s, 'err) handler_output \<times> ('s, 'err) stream_handler" where
  "handler_poll h =
     (if sh_stream h \<noteq> [] then (NotifyBehaviour (last (sh_stream h)), h\<lparr>sh_stream := butlast (sh_stream h)\<rparr>)
      else case requested h of
        Suc n \<Rightarrow> (OutboundSubstreamRequest, h\<lparr>requested := n\<rparr>)
      | 0 \<Rightarrow> (HandlerPending, h))"

definition on_behaviour_event :: "('s, 'err) stream_handler \<Rightarrow> ('s, 'err) stream_handler" where
  "on_behaviour_event h = h\<lparr>requested := requested h + 1\<rparr>"

datatype ('s, 'err) connection_event =
  FullyNegotiatedInbound 's | FullyNegotiatedOutbound 's | DialUpgradeError 'err | OtherConnectionEvent

definition on_connection_event :: "('s, 'err) connection_event \<Rightarrow> ('s, 'err) stream_handler \<Rightarrow> ('s, 'err) stream_handler" where
  "on_connection_event ev h =
     (case ev of
        FullyNegotiatedInbound s \<Rightarrow> h\<lparr>sh_stream := sh_stream h @ [Inr s]\<rparr>
      | FullyNegotiatedOutbound s \<Rightarrow> h\<lparr>sh_stream := sh_stream h @ [Inl (Inr s)]\<rparr>
      | DialUpgradeError e \<Rightarrow> h\<lparr>sh_stream := sh_stream h @ [Inl (Inl e)]\<rparr>
      | OtherConnectionEvent \<Rightarrow> h)"

subsection \<open>The demand of a peer\<close>

definition dial_demand :: "'peer \<Rightarrow> ('peer \<times> 'conn option \<times> nat) list \<Rightarrow> nat" where
  "dial_demand peer ds = sum_list (map (\<lambda>(p, _, n). if p = peer then Suc n else 0) ds)"

definition demand :: "'peer \<Rightarrow> ('peer, 'conn, 's, 'err) streaming \<Rightarrow> nat" where
  "demand peer b = length (filter (\<lambda>(p, _). p = peer) (stream_requests b)) + dial_demand peer (dial_requests b)"

lemma position_split:
  assumes "position q xs = Some i"
  obtains ys x zs where "xs = ys @ x # zs" and "length ys = i" and "q x"
proof -
  from assms have i: "i < length xs" "q (xs ! i)" by (auto simp: position_Some_iff)
  then show thesis by (intro that [of "take i xs" "xs ! i" "drop (Suc i) xs"]) (auto simp: id_take_nth_drop [symmetric])
qed

lemma dial_demand_more:
  "dial_demand peer (more_dials p add new ds) =
     dial_demand peer ds + (if p = peer then (if position (\<lambda>(p', _). p' = p) ds = None then Suc new else add) else 0)"
proof (cases "position (\<lambda>(p', _). p' = p) ds")
  case None
  then show ?thesis by (cases "p = peer") (simp_all add: more_dials_def dial_demand_def)
next
  case (Some i)
  then obtain ys x zs where ds: "ds = ys @ x # zs" "length ys = i" "case x of (p', _) \<Rightarrow> p' = p"
    by (rule position_split)
  then obtain c n where "x = (p, c, n)" by (cases x) auto
  then show ?thesis using Some ds
    by (cases "p = peer") (simp_all add: more_dials_def dial_demand_def list_update_append nth_append)
qed

lemma dial_demand_mset: "mset ds = mset ds' \<Longrightarrow> dial_demand peer ds = dial_demand peer ds'"
  unfolding dial_demand_def sum_mset_sum_list [symmetric] mset_map by simp

lemma dial_demand_find_and_remove:
  assumes "find_and_remove q ds = Some ((p, c, n), ds')"
  shows "dial_demand peer ds = dial_demand peer ds' + (if p = peer then Suc n else 0)"
proof -
  from assms obtain i where i: "i < length ds" "ds ! i = (p, c, n)" "ds' = swap_remove i ds"
    by (auto simp: find_and_remove_def position_Some_iff split: option.splits)
  have "mset ds = mset ((p, c, n) # ds')"
    using i mset_swap_remove [OF i(1)] nth_mem_mset [OF i(1)] by simp
  from dial_demand_mset [OF this] show ?thesis by (simp add: dial_demand_def)
qed

subsection \<open>Runs and the invariant\<close>

datatype ('peer, 'conn, 's, 'err) streaming_input =
  InCreate 'peer
| InDialFailure 'err bool "'peer option" 'conn
| InClosed 'peer
| InEstablished 'peer 'conn
| InHandler 'peer "('err + 's) + 's"
| InPoll 'conn

fun streaming_step ::
  "('peer, 'conn, 's, 'err) streaming_input \<Rightarrow> ('peer, 'conn, 's, 'err) streaming \<Rightarrow>
   ('peer, 'conn, 's, 'err) to_swarm \<times> ('peer, 'conn, 's, 'err) streaming" where
  "streaming_step (InCreate p) b = (PollPending, create_stream b p)"
| "streaming_step (InDialFailure err cf p conn) b = (PollPending, on_dial_failure err cf p conn b)"
| "streaming_step (InClosed p) b = (PollPending, on_connection_closed p b)"
| "streaming_step (InEstablished p conn) b = (PollPending, on_connection_established p conn b)"
| "streaming_step (InHandler p ev) b = (PollPending, on_handler_event p ev b)"
| "streaming_step (InPoll fresh) b = streaming_poll fresh b"

text \<open>Requests wait in exactly one of the two places, depending on whether the peer is connected.\<close>

definition streaming_ok :: "('peer, 'conn, 's, 'err) streaming \<Rightarrow> bool" where
  "streaming_ok b \<longleftrightarrow>
     lm_ok (connected_peers b) \<and> distinct (map fst (dial_requests b)) \<and>
     fst ` set (stream_requests b) \<subseteq> dom (lm_get (connected_peers b)) \<and>
     fst ` set (dial_requests b) \<inter> dom (lm_get (connected_peers b)) = {}"

definition streaming_init :: "('peer, 'conn, 's, 'err) streaming" where
  "streaming_init = \<lparr>stream_requests = [], dial_requests = [], connected_peers = [], sg_events = []\<rparr>"

lemma streaming_ok_init: "streaming_ok streaming_init"
  by (simp add: streaming_ok_def streaming_init_def lm_ok_def)

lemma flush_dials_ok:
  assumes "streaming_ok b"
  shows "flush_dials b = b"
proof -
  have none: "lm_get (connected_peers b) (fst d) = None" if "d \<in> set (dial_requests b)" for d
    using assms that unfolding streaming_ok_def by blast
  have "filter (\<lambda>(p, _). lm_get (connected_peers b) p = None) (dial_requests b) = dial_requests b"
    using none by (intro filter_True) (simp add: case_prod_beta)
  moreover have "concat (map (\<lambda>(p, _, cnt). case lm_get (connected_peers b) p of
      Some conn \<Rightarrow> replicate (Suc cnt) (p, conn) | None \<Rightarrow> []) (dial_requests b)) = []"
    using none by (simp add: case_prod_beta)
  ultimately show ?thesis by (simp add: flush_dials_def)
qed

lemma set_more_dials:
  "fst ` set (more_dials p add new ds) = insert p (fst ` set ds)"
  "distinct (map fst ds) \<Longrightarrow> distinct (map fst (more_dials p add new ds))"
proof -
  have "fst ` set (more_dials p add new ds) = insert p (fst ` set ds) \<and>
    (distinct (map fst ds) \<longrightarrow> distinct (map fst (more_dials p add new ds)))"
  proof (cases "position (\<lambda>(p', _). p' = p) ds")
    case None
    then have "p \<notin> fst ` set ds" by (auto simp: position_None_iff)
    then show ?thesis using None by (auto simp: more_dials_def)
  next
    case (Some i)
    then obtain ys x zs where ds: "ds = ys @ x # zs" "length ys = i" "case x of (p', _) \<Rightarrow> p' = p"
      by (rule position_split)
    then obtain c n where "x = (p, c, n)" by (cases x) auto
    then show ?thesis using Some ds by (auto simp: more_dials_def list_update_append nth_append)
  qed
  then show "fst ` set (more_dials p add new ds) = insert p (fst ` set ds)"
    "distinct (map fst ds) \<Longrightarrow> distinct (map fst (more_dials p add new ds))" by auto
qed

lemma find_and_remove_set:
  assumes "find_and_remove q xs = Some (x, xs')" and "distinct (map fst xs)"
  shows "x \<in> set xs" and "q x" and "set xs' = set xs - {x}" and "distinct (map fst xs')" and "fst ` set xs' = fst ` set xs - {fst x}"
proof -
  from assms(1) obtain i where i: "i < length xs" "xs ! i = x" "q x" "xs' = swap_remove i xs"
    by (auto simp: find_and_remove_def position_Some_iff split: option.splits)
  show "x \<in> set xs" "q x" using i by auto
  have "distinct xs" using assms(2) by (simp add: distinct_map)
  note sr = distinct_swap_remove [OF this i(1)]
  show s: "set xs' = set xs - {x}" using sr(2) i by simp
  show "distinct (map fst xs')" using map_of_swap_remove [OF assms(2) i(1)] i by simp
  have "inj_on fst (set xs)" using assms(2) by (simp add: distinct_map)
  from inj_on_image_set_diff [OF this, of "set xs" "{x}"] show "fst ` set xs' = fst ` set xs - {fst x}"
    unfolding s using nth_mem [OF i(1)] i(2) by simp
qed

lemma find_and_remove_None: "find_and_remove q xs = None \<longleftrightarrow> (\<forall>x\<in>set xs. \<not> q x)"
  by (simp add: find_and_remove_def split: option.splits) (metis option.distinct(1) position_None_iff)

lemma dom_lm_laws:
  assumes "lm_ok m"
  shows "dom (lm_get (snd (lm_insert m k v))) = insert k (dom (lm_get m))"
    and "dom (lm_get (snd (lm_remove m k))) = dom (lm_get m) - {k}"
  using assms by (simp_all add: lm_get_map_of lm_insert_laws lm_remove_laws)

lemma established_ok:
  assumes "streaming_ok b"
  shows "streaming_ok (on_connection_established p conn b)"
proof (cases "find_and_remove (\<lambda>(p', _). p' = p) (dial_requests b)")
  case None
  then have "p \<notin> fst ` set (dial_requests b)" by (auto simp: find_and_remove_None)
  then show ?thesis
    using None assms by (simp add: on_connection_established_def streaming_ok_def dom_lm_laws lm_insert_laws) blast
next
  case (Some r)
  then obtain p' c n ds where r: "find_and_remove (\<lambda>(p', _). p' = p) (dial_requests b) = Some ((p', c, n), ds)"
    by (metis prod.collapse)
  have "distinct (map fst (dial_requests b))" using assms by (simp add: streaming_ok_def)
  note fr = find_and_remove_set [OF r this]
  have "p' = p" using fr(2) by simp
  then show ?thesis
    using r fr(4,5) assms
    by (simp add: on_connection_established_def streaming_ok_def dom_lm_laws lm_insert_laws image_Un) blast
qed

lemma ok_events [simp]: "streaming_ok (b\<lparr>sg_events := es\<rparr>) = streaming_ok b"
  by (simp add: streaming_ok_def)

lemma ok_stream_requests:
  assumes "streaming_ok b" and "set rs \<subseteq> set (stream_requests b)"
  shows "streaming_ok (b\<lparr>stream_requests := rs\<rparr>)"
proof -
  have "fst ` set rs \<subseteq> dom (lm_get (connected_peers b))"
    using assms unfolding streaming_ok_def by (meson image_mono subset_trans)
  then show ?thesis using assms(1) by (simp add: streaming_ok_def)
qed

lemma poll_ok:
  assumes "streaming_ok b" and "streaming_poll fresh b = (out, b')"
  shows "streaming_ok b'"
proof -
  note fl = flush_dials_ok [OF assms(1)]
  show ?thesis
  proof (cases "position (\<lambda>(_, c, _). c = None) (dial_requests b)")
    case (Some i)
    then obtain ys x zs where ds: "dial_requests b = ys @ x # zs" "length ys = i" by (rule position_split)
    obtain p c n where x: "x = (p, c, n)" by (cases x)
    have "b' = b\<lparr>dial_requests := ys @ (p, Some fresh, n) # zs\<rparr>"
      using assms(2) Some ds x by (auto simp: streaming_poll_def fl Let_def list_update_append nth_append)
    then show ?thesis using assms(1) by (simp add: streaming_ok_def ds x)
  next
    case None
    have "b' = b \<or> b' = b\<lparr>stream_requests := butlast (stream_requests b)\<rparr> \<or> b' = b\<lparr>sg_events := butlast (sg_events b)\<rparr>"
      using assms(2) None by (auto simp: streaming_poll_def fl Let_def split: if_splits prod.splits)
    then show ?thesis
      using assms(1) ok_stream_requests [OF assms(1)] by (auto dest: in_set_butlastD)
  qed
qed

lemma streaming_ok_step:
  assumes ok: "streaming_ok b" and step: "streaming_step inp b = (out, b')"
  shows "streaming_ok b'"
proof (cases inp)
  case (InCreate p)
  show ?thesis
  proof (cases "lm_get (connected_peers b) p")
    case None
    then have "b' = b\<lparr>dial_requests := more_dials p 1 0 (dial_requests b)\<rparr>" and "p \<notin> dom (lm_get (connected_peers b))"
      using InCreate step by (auto simp: create_stream_def)
    then show ?thesis using ok by (simp add: streaming_ok_def set_more_dials)
  next
    case (Some conn)
    then have "b' = b\<lparr>stream_requests := stream_requests b @ [(p, conn)]\<rparr>" and "p \<in> dom (lm_get (connected_peers b))"
      using InCreate step by (auto simp: create_stream_def)
    then show ?thesis using ok by (simp add: streaming_ok_def)
  qed
next
  case (InDialFailure err cf p conn)
  then have "b' = b \<or> (\<exists>es. b' = b\<lparr>sg_events := es\<rparr>)"
    using step by (auto simp: on_dial_failure_def split: option.splits if_splits)
  then show ?thesis using ok by auto
next
  case (InClosed p)
  let ?S = "fst ` set (stream_requests b)" and ?T = "fst ` set (dial_requests b)" and ?D = "dom (lm_get (connected_peers b))"
  have S: "fst ` set (filter (\<lambda>(q, _). q \<noteq> p) (stream_requests b)) = ?S - {p}" by force
  from ok have o: "lm_ok (connected_peers b)" "distinct (map fst (dial_requests b))" "?S \<subseteq> ?D" "?T \<inter> ?D = {}"
    by (simp_all add: streaming_ok_def)
  have "?S - {p} \<subseteq> ?D - {p}" and "?T \<inter> (?D - {p}) = {}" and "insert p ?T \<inter> (?D - {p}) = {}"
    using o(3,4) by blast+
  note sets = this
  define n where "n = length (filter (\<lambda>(q, _). q = p) (stream_requests b))"
  define b1 where "b1 = b\<lparr>connected_peers := snd (lm_remove (connected_peers b) p),
    stream_requests := filter (\<lambda>(q, _). q \<noteq> p) (stream_requests b)\<rparr>"
  have b': "b' = (if n = 0 then b1 else b1\<lparr>dial_requests := more_dials p (n - 1) (n - 1) (dial_requests b)\<rparr>)"
    using step unfolding InClosed streaming_step.simps on_connection_closed_def Let_def n_def b1_def by (rule Pair_inject) simp
  have "streaming_ok b1" "streaming_ok (b1\<lparr>dial_requests := more_dials p (n - 1) (n - 1) (dial_requests b)\<rparr>)"
    using o(1,2) sets unfolding streaming_ok_def
    by (simp_all add: b1_def S dom_lm_laws lm_remove_laws set_more_dials del: set_filter)
  then show ?thesis unfolding b' by simp
next
  case (InEstablished p conn)
  then show ?thesis using assms established_ok by auto
next
  case (InHandler p ev)
  then show ?thesis using assms by (auto simp: on_handler_event_def)
next
  case (InPoll fresh)
  then show ?thesis using assms poll_ok by auto
qed

subsection \<open>The demand is served\<close>

lemma demand_step:
  assumes ok: "streaming_ok b" and step: "streaming_step inp b = (out, b')"
  shows "demand p b' + (case out of NotifyHandler q _ \<Rightarrow> of_bool (q = p) | _ \<Rightarrow> 0) =
    demand p b + (case inp of InCreate q \<Rightarrow> of_bool (q = p) | _ \<Rightarrow> 0)"
proof (cases inp)
  case (InCreate q)
  then show ?thesis
    using step by (cases "lm_get (connected_peers b) q") (auto simp: create_stream_def demand_def dial_demand_more)
next
  case (InDialFailure err cf q conn)
  then show ?thesis using step
    by (auto simp: on_dial_failure_def demand_def split: option.splits if_splits)
next
  case (InClosed q)
  let ?n = "length (filter (\<lambda>(p, _). p = q) (stream_requests b))"
  have none: "position (\<lambda>(p, _). p = q) (dial_requests b) = None" if "0 < ?n"
  proof -
    from that obtain c where "(q, c) \<in> set (stream_requests b)" by (auto simp: filter_empty_conv)
    then have "q \<in> dom (lm_get (connected_peers b))" using ok unfolding streaming_ok_def by force
    then have "q \<notin> fst ` set (dial_requests b)" using ok unfolding streaming_ok_def by blast
    then show ?thesis by (force simp: position_None_iff)
  qed
  have sub: "length (filter (\<lambda>(p', _). p' = p) (filter (\<lambda>(p', _). p' \<noteq> q) (stream_requests b))) =
      (if p = q then 0 else length (filter (\<lambda>(p', _). p' = p) (stream_requests b)))"
    by (auto simp: case_prod_beta intro!: arg_cong [of _ _ length] filter_cong)
  show ?thesis
    using step InClosed none
    by (cases "0 < ?n"; cases "p = q") (auto simp: on_connection_closed_def demand_def Let_def dial_demand_more sub simp del: filter_filter)
next
  case (InEstablished q conn)
  show ?thesis
  proof (cases "find_and_remove (\<lambda>(p', _). p' = q) (dial_requests b)")
    case None
    then show ?thesis using step InEstablished by (auto simp: on_connection_established_def demand_def)
  next
    case (Some r)
    then obtain q' c n ds where r: "find_and_remove (\<lambda>(p', _). p' = q) (dial_requests b) = Some ((q', c, n), ds)"
      by (metis prod.collapse)
    have "q' = q" using find_and_remove_set(2) [OF r] ok by (simp add: streaming_ok_def)
    then show ?thesis
      using step InEstablished r dial_demand_find_and_remove [OF r, of p]
      by (auto simp: on_connection_established_def demand_def)
  qed
next
  case (InHandler q ev)
  then show ?thesis using step by (auto simp: on_handler_event_def demand_def)
next
  case (InPoll fresh)
  note fl = flush_dials_ok [OF ok]
  show ?thesis
  proof (cases "position (\<lambda>(_, c, _). c = None) (dial_requests b)")
    case (Some i)
    then obtain ys x zs where ds: "dial_requests b = ys @ x # zs" "length ys = i" by (rule position_split)
    obtain q c n where x: "x = (q, c, n)" by (cases x)
    have "out = Dial q" "b' = b\<lparr>dial_requests := ys @ (q, Some fresh, n) # zs\<rparr>"
      using step InPoll Some ds x by (auto simp: streaming_poll_def fl Let_def list_update_append nth_append)
    then show ?thesis using InPoll by (simp add: demand_def dial_demand_def ds x)
  next
    case None
    show ?thesis
    proof (cases "stream_requests b" rule: rev_cases)
      case Nil
      then show ?thesis using step InPoll None by (auto simp: streaming_poll_def fl Let_def demand_def split: if_splits)
    next
      case (snoc rs r)
      then show ?thesis using step InPoll None
        by (cases r) (auto simp: streaming_poll_def fl Let_def demand_def)
    qed
  qed
qed

fun streaming_run ::
  "('peer, 'conn, 's, 'err) streaming_input list \<Rightarrow> ('peer, 'conn, 's, 'err) streaming \<Rightarrow>
   ('peer, 'conn, 's, 'err) to_swarm list \<times> ('peer, 'conn, 's, 'err) streaming" where
  "streaming_run [] b = ([], b)"
| "streaming_run (i # is) b =
     (case streaming_step i b of (out, b') \<Rightarrow>
      case streaming_run is b' of (outs, b'') \<Rightarrow> (out # outs, b''))"

lemma streaming_run_ok: "streaming_ok b \<Longrightarrow> streaming_run is b = (outs, b') \<Longrightarrow> streaming_ok b'"
  by (induction "is" arbitrary: b outs) (auto split: prod.splits dest: streaming_ok_step)

definition notified :: "'peer \<Rightarrow> ('peer, 'conn, 's, 'err) to_swarm list \<Rightarrow> nat" where
  "notified p outs = sum_list (map (\<lambda>out. case out of NotifyHandler q _ \<Rightarrow> of_bool (q = p) | _ \<Rightarrow> 0) outs)"

definition created :: "'peer \<Rightarrow> ('peer, 'conn, 's, 'err) streaming_input list \<Rightarrow> nat" where
  "created p is = sum_list (map (\<lambda>inp. case inp of InCreate q \<Rightarrow> of_bool (q = p) | _ \<Rightarrow> 0) is)"

lemma demand_run:
  "streaming_ok b \<Longrightarrow> streaming_run is b = (outs, b') \<Longrightarrow>
   demand p b' + notified p outs = demand p b + created p is"
proof (induction "is" arbitrary: b outs)
  case (Cons i "is")
  obtain out b1 where st: "streaming_step i b = (out, b1)" by force
  obtain outs1 where r: "streaming_run is b1 = (outs1, b')" and o: "outs = out # outs1"
    using Cons.prems(2) st by (auto split: prod.splits)
  have "demand p b' + notified p outs1 = demand p b1 + created p is"
    using Cons.IH [OF streaming_ok_step [OF Cons.prems(1) st] r] .
  then show ?case
    using demand_step [OF Cons.prems(1) st, of p] by (simp add: o notified_def created_def)
qed (simp add: notified_def created_def)

subsection \<open>A failed dial is not retried\<close>

text \<open>A dial request with a connection id: it was dialled. Only a connection of the peer removes it.\<close>

definition dialled :: "'peer \<Rightarrow> ('peer, 'conn, 's, 'err) streaming \<Rightarrow> bool" where
  "dialled p b \<longleftrightarrow> (\<exists>c n. (p, Some c, n) \<in> set (dial_requests b))"

lemma dialled_more_dials:
  assumes "(p, Some c, n) \<in> set ds"
  shows "\<exists>n'. (p, Some c, n') \<in> set (more_dials q add new ds)"
proof (cases "position (\<lambda>(p', _). p' = q) ds")
  case None
  then show ?thesis using assms by (auto simp: more_dials_def)
next
  case (Some i)
  then obtain ys x zs where ds: "ds = ys @ x # zs" "length ys = i" by (rule position_split)
  obtain q' c' m where x: "x = (q', c', m)" by (cases x)
  have "more_dials q add new ds = ys @ (q', c', m + add) # zs"
    using Some ds x by (auto simp: more_dials_def list_update_append nth_append)
  then show ?thesis using assms ds x by auto
qed

lemma dialled_step:
  assumes ok: "streaming_ok b" and d: "dialled p b" and step: "streaming_step inp b = (out, b')"
    and "\<And>conn. inp \<noteq> InEstablished p conn"
  shows "dialled p b' \<and> out \<noteq> Dial p \<and> (\<forall>conn. out \<noteq> NotifyHandler p conn)"
proof -
  from d obtain c n where cn: "(p, Some c, n) \<in> set (dial_requests b)" by (auto simp: dialled_def)
  then have "p \<in> fst ` set (dial_requests b)" by force
  then have np: "p \<notin> fst ` set (stream_requests b)" using ok unfolding streaming_ok_def by blast
  have uniq: "y = (Some c, n)" if "(p, y) \<in> set (dial_requests b)" for y
    using that cn ok by (auto simp: streaming_ok_def intro: eq_key_imp_eq_value [of "dial_requests b" p])
  show ?thesis
  proof (cases inp)
    case (InCreate q)
    then show ?thesis using step cn dialled_more_dials
      by (cases "lm_get (connected_peers b) q") (fastforce simp: create_stream_def dialled_def)+
  next
    case (InDialFailure err cf q conn)
    then have "dial_requests b' = dial_requests b \<and> out = PollPending"
      using step by (auto simp: on_dial_failure_def split: option.splits if_splits)
    then show ?thesis using d by (simp add: dialled_def)
  next
    case (InClosed q)
    have "\<exists>n'. (p, Some c, n') \<in> set (more_dials q add new (dial_requests b))" for add new
      using dialled_more_dials [OF cn] .
    then show ?thesis using step InClosed cn
      by (auto simp: on_connection_closed_def dialled_def Let_def split: if_splits) blast+
  next
    case (InEstablished q conn)
    then have q: "q \<noteq> p" using assms(4) by auto
    have "(p, Some c, n) \<in> set (dial_requests b')"
    proof (cases "find_and_remove (\<lambda>(p', _). p' = q) (dial_requests b)")
      case None
      then show ?thesis using step InEstablished cn by (auto simp: on_connection_established_def)
    next
      case (Some r)
      then obtain x ds where r: "find_and_remove (\<lambda>(p', _). p' = q) (dial_requests b) = Some (x, ds)" by (cases r) auto
      have dd: "distinct (map fst (dial_requests b))" using ok by (simp add: streaming_ok_def)
      have "dial_requests b' = ds" using step InEstablished r by (cases x) (auto simp: on_connection_established_def)
      then show ?thesis using find_and_remove_set(2,3) [OF r dd] cn q by (cases x) auto
    qed
    then show ?thesis using step InEstablished by (auto simp: dialled_def)
  next
    case (InHandler q ev)
    then have "dial_requests b' = dial_requests b \<and> out = PollPending"
      using step by (auto simp: on_handler_event_def)
    then show ?thesis using d by (simp add: dialled_def)
  next
    case (InPoll fresh)
    note fl = flush_dials_ok [OF ok]
    show ?thesis
    proof (cases "position (\<lambda>(_, c, _). c = None) (dial_requests b)")
      case (Some i)
      then obtain ys x zs where ds: "dial_requests b = ys @ x # zs" "length ys = i" and x0: "case x of (_, c, _) \<Rightarrow> c = None"
        by (rule position_split)
      obtain q m where x: "x = (q, None, m)" using x0 by (cases x) auto
      have "out = Dial q" "b' = b\<lparr>dial_requests := ys @ (q, Some fresh, m) # zs\<rparr>"
        using step InPoll Some ds x by (auto simp: streaming_poll_def fl Let_def list_update_append nth_append)
      moreover have "q \<noteq> p" using uniq [of "(None, m)"] ds x by auto
      ultimately show ?thesis using cn ds x by (auto simp: dialled_def)
    next
      case None
      have "q \<in> fst ` set (stream_requests b)" if "out = NotifyHandler q conn" for q conn
      proof -
        have "stream_requests b \<noteq> []" "last (stream_requests b) = (q, conn)"
          using step InPoll None that by (auto simp: streaming_poll_def fl Let_def split: if_splits prod.splits)
        then have "(q, conn) \<in> set (stream_requests b)" by (metis last_in_set)
        then show ?thesis by force
      qed
      moreover have "dial_requests b' = dial_requests b" "out \<noteq> Dial p"
        using step InPoll None by (auto simp: streaming_poll_def fl Let_def split: if_splits prod.splits)
      ultimately show ?thesis using np d by (auto simp: dialled_def)
    qed
  qed
qed

lemma dialled_run:
  "streaming_ok b \<Longrightarrow> dialled p b \<Longrightarrow> streaming_run is b = (outs, b') \<Longrightarrow>
   (\<And>conn. InEstablished p conn \<notin> set is) \<Longrightarrow>
   dialled p b' \<and> Dial p \<notin> set outs \<and> (\<forall>conn. NotifyHandler p conn \<notin> set outs)"
proof (induction "is" arbitrary: b outs)
  case (Cons i "is")
  obtain out b1 where st: "streaming_step i b = (out, b1)" by force
  obtain outs1 where r: "streaming_run is b1 = (outs1, b')" and o: "outs = out # outs1"
    using Cons.prems(3) st by (auto split: prod.splits)
  have "dialled p b1 \<and> out \<noteq> Dial p \<and> (\<forall>conn. out \<noteq> NotifyHandler p conn)"
    using Cons.prems by (intro dialled_step [OF Cons.prems(1,2) st]) auto
  then show ?case
    using Cons.IH [OF streaming_ok_step [OF Cons.prems(1) st] _ r] Cons.prems(4) by (auto simp: o)
qed simp

subsection \<open>Properties\<close>

text \<open>C17: The behaviour opens as many streams as it was asked for: along every run from the initial state, the
  streams created for a peer are those it has asked a connection handler to open plus those still
  waiting, a waiting request is either with a connected peer or with one it dials, and no peer is dialled twice
  at a time.\<close>
theorem streaming_accounts:
  assumes "streaming_run is streaming_init = (outs, b)"
  shows "streaming_ok b \<and> created p is = notified p outs + demand p b"
  using assms streaming_run_ok [OF streaming_ok_init] demand_run [OF streaming_ok_init, of "is" outs b p]
  by (simp add: demand_def streaming_init_def dial_demand_def)

theorem streaming_accounts_witness:
  "\<exists>b. streaming_run [InCreate (1 :: nat), InCreate 1, InPoll (7 :: nat), InEstablished 1 8, InPoll 9] streaming_init =
      ([PollPending, PollPending, Dial 1, PollPending, NotifyHandler 1 8 :: (nat, nat, unit, unit) to_swarm], b) \<and> streaming_ok b \<and>
    (2 :: nat) = 1 + demand 1 b"
proof -
  let ?is = "[InCreate (1 :: nat), InCreate 1, InPoll (7 :: nat), InEstablished 1 8, InPoll 9]"
  let ?outs = "[PollPending, PollPending, Dial 1, PollPending, NotifyHandler 1 8 :: (nat, nat, unit, unit) to_swarm]"
  obtain b where r: "streaming_run ?is streaming_init = (?outs, b)"
    by (simp add: streaming_init_def create_stream_def lm_get_def more_dials_def streaming_poll_def flush_dials_def
        on_connection_established_def find_and_remove_def swap_remove_def lm_insert_def lm_key_position_def)
  show ?thesis using streaming_accounts [OF r, of 1] r by (simp add: created_def notified_def)
qed

text \<open>A failed dial is never retried: once a peer was dialled, then unless a connection of that peer is
  established the behaviour keeps counting it as being resolved, neither dials it again nor asks a
  handler for its streams, whatever else happens, dial failures of it included.\<close>
theorem failed_dial_sticks:
  assumes "streaming_run before streaming_init = (outs0, b0)" and "(p, Some c, n) \<in> set (dial_requests b0)"
    and "streaming_run after b0 = (outs, b)" and "\<forall>conn. InEstablished p conn \<notin> set after"
  shows "is_resolving_stream_for b p \<and> Dial p \<notin> set outs \<and> (\<forall>conn. NotifyHandler p conn \<notin> set outs)"
proof -
  have "streaming_ok b0" using streaming_run_ok [OF streaming_ok_init assms(1)] .
  then have "dialled p b \<and> Dial p \<notin> set outs \<and> (\<forall>conn. NotifyHandler p conn \<notin> set outs)"
    using assms(2-4) by (intro dialled_run [of b0]) (auto simp: dialled_def)
  then show ?thesis by (auto simp: dialled_def is_resolving_stream_for_def list_ex_iff)
qed

definition demo_dialled :: "nat \<Rightarrow> (nat, nat, unit, unit) streaming" where
  "demo_dialled n = \<lparr>stream_requests = [], dial_requests = [(1, Some 7, n)], connected_peers = [], sg_events = []\<rparr>"

theorem failed_dial_sticks_witness:
  "streaming_run [InCreate 1, InPoll 7] streaming_init = ([PollPending, Dial 1], demo_dialled 0) \<and>
   streaming_run [InDialFailure () False (Some 1) 7, InPoll 8, InCreate 1, InPoll 9] (demo_dialled 0) =
     ([PollPending, GenerateEvent (OutgoingStream 1 (Inl ())), PollPending, PollPending], demo_dialled 1) \<and>
   is_resolving_stream_for (demo_dialled 1) 1"
proof -
  have b0: "streaming_run [InCreate 1, InPoll 7] streaming_init = ([PollPending, Dial 1], demo_dialled 0)"
    by (simp add: demo_dialled_def streaming_init_def create_stream_def lm_get_def more_dials_def streaming_poll_def flush_dials_def)
  have b1: "streaming_run [InDialFailure () False (Some 1) 7, InPoll 8, InCreate 1, InPoll 9] (demo_dialled 0) =
     ([PollPending, GenerateEvent (OutgoingStream 1 (Inl ())), PollPending, PollPending], demo_dialled 1)"
    by (simp add: demo_dialled_def on_dial_failure_def create_stream_def lm_get_def more_dials_def streaming_poll_def flush_dials_def)
  have "is_resolving_stream_for (demo_dialled 1) 1"
    using failed_dial_sticks [OF b0 _ b1, of 1 7 0] by (simp add: demo_dialled_def)
  with b0 b1 show ?thesis by blast
qed

end
