(* ===== verification/Rpc.thy ===== *)
theory Rpc
  imports Streaming
begin

section \<open>Remote calls (\<open>core/rpc/src/lib.rs\<close>)\<close>

text \<open>
  The behaviour that sends requests to peers and matches their responses: a request goes out on the
  stream of the peer, or waits until \<open>core/streaming\<close> has opened one. Peers, connection ids,
  streams and errors are type parameters. The capacity of a stream's \<open>PacketWriter\<close> is the
  argument \<open>fits\<close>: whether the writer takes one more packet; what it took is \<open>rs_out\<close>.
  \<open>CallId::new\<close> counts up from a static counter, the field \<open>next_call\<close>. The \<open>Instant\<close>s
  that are only reported with a response are left out.
\<close>

type_synonym call = nat

record 'peer rpc_stream =
  rs_peer :: 'peer
  rs_out :: "(call \<times> bool \<times> bytes) list"

datatype 'err rpc_error = Io_OutOfMemory | Io_InvalidData | Upgrade 'err

datatype ('peer, 'err) rpc_event =
  Response 'peer call "'err rpc_error + bytes"
| Request 'peer call bytes

record ('peer, 'conn, 's, 'err) rpc =
  rpc_streams :: "'peer rpc_stream list"
  pending_requests :: "('peer \<times> call \<times> bytes) list"
  ongoing_requests :: "(call \<times> 'peer) list"
  pending_repsonses :: "('peer \<times> call \<times> bytes) list"
  rpc_events :: "('peer, 'err) rpc_event list"
  rpc_streaming :: "('peer, 'conn, 's, 'err) streaming"
  next_call :: call

definition rpc_init :: "('peer, 'conn, 's, 'err) rpc" where
  "rpc_init = \<lparr>rpc_streams = [], pending_requests = [], ongoing_requests = [], pending_repsonses = [],
     rpc_events = [], rpc_streaming = streaming_init, next_call = 0\<rparr>"

type_synonym 'peer fits = "'peer rpc_stream \<Rightarrow> call \<times> bool \<times> bytes \<Rightarrow> bool"

text \<open>\<open>Stream::write\<close>: the packet is queued, or the writer is full.\<close>

definition rpc_write :: "'peer fits \<Rightarrow> call \<times> bool \<times> bytes \<Rightarrow> 'peer rpc_stream \<Rightarrow> ('err rpc_error + 'peer rpc_stream)" where
  "rpc_write fits packet st = (if fits st packet then Inr (st\<lparr>rs_out := rs_out st @ [packet]\<rparr>) else Inl Io_OutOfMemory)"

definition rpc_request ::
  "'peer fits \<Rightarrow> 'peer \<Rightarrow> bytes \<Rightarrow> ('peer, 'conn, 's, 'err) rpc \<Rightarrow>
   ('err rpc_error + call) \<times> ('peer, 'conn, 's, 'err) rpc" where
  "rpc_request fits peer packet b0 =
     (let call = next_call b0; b = b0\<lparr>next_call := Suc call\<rparr> in
      case position (\<lambda>s. rs_peer s = peer) (rpc_streams b) of
        Some i \<Rightarrow>
          let b' = b\<lparr>ongoing_requests := ongoing_requests b @ [(call, peer)]\<rparr> in
          (case rpc_write fits (call, True, packet) (rpc_streams b ! i) of
             Inr st \<Rightarrow> (Inr call, b'\<lparr>rpc_streams := (rpc_streams b)[i := st]\<rparr>)
           | Inl e \<Rightarrow> (Inl e, b'))
      | None \<Rightarrow>
          if \<not> is_resolving_stream_for (rpc_streaming b) peer then
            (Inr call, b\<lparr>rpc_streaming := create_stream (rpc_streaming b) peer,
                         pending_requests := pending_requests b @ [(peer, call, packet)]\<rparr>)
          else (Inr call, b))"

definition rpc_respond ::
  "'peer fits \<Rightarrow> 'peer \<Rightarrow> call \<Rightarrow> bytes \<Rightarrow> ('peer, 'conn, 's, 'err) rpc \<Rightarrow> ('peer, 'conn, 's, 'err) rpc" where
  "rpc_respond fits peer call payload b =
     (case position (\<lambda>s. rs_peer s = peer) (rpc_streams b) of
        Some i \<Rightarrow>
          (case rpc_write fits (call, False, payload) (rpc_streams b ! i) :: unit rpc_error + _ of
             Inr st \<Rightarrow> b\<lparr>rpc_streams := (rpc_streams b)[i := st]\<rparr>
           | Inl _ \<Rightarrow> b)
      | None \<Rightarrow>
          if \<not> is_resolving_stream_for (rpc_streaming b) peer then
            b\<lparr>rpc_streaming := create_stream (rpc_streaming b) peer,
              pending_repsonses := pending_repsonses b @ [(peer, call, payload)]\<rparr>
          else b)"

definition clean_failed_requests ::
  "'peer \<Rightarrow> 'err rpc_error \<Rightarrow> ('peer, 'conn, 's, 'err) rpc \<Rightarrow> ('peer, 'conn, 's, 'err) rpc" where
  "clean_failed_requests failed error b =
     (let dropped = map fst (filter (\<lambda>(_, p). p = failed) (ongoing_requests b)) @
                    map (\<lambda>(_, c, _). c) (filter (\<lambda>(p, _). p = failed) (pending_requests b)) in
      b\<lparr>pending_repsonses := filter (\<lambda>(p, _). p \<noteq> failed) (pending_repsonses b),
        ongoing_requests := filter (\<lambda>(_, p). p \<noteq> failed) (ongoing_requests b),
        pending_requests := filter (\<lambda>(p, _). p \<noteq> failed) (pending_requests b),
        rpc_events := rpc_events b @ map (\<lambda>c. Response failed c (Inl error)) dropped\<rparr>)"

subsection \<open>Polling\<close>

text \<open>
  \<open>Stream::poll_next\<close>: the bytes of a packet, decoded as a call id, the request flag and the payload
  (the codec is the argument \<open>dec\<close>), or an error of the writer or the reader; after an error, or a packet
  that does not decode, the stream is closed.
\<close>

definition stream_poll_next ::
  "(bytes \<Rightarrow> (call \<times> bool \<times> bytes) option) \<Rightarrow> 'err rpc_error + bytes \<Rightarrow> 'err rpc_error + (call \<times> bytes \<times> bool)" where
  "stream_poll_next dec input =
     (case input of
        Inl e \<Rightarrow> Inl e
      | Inr packet \<Rightarrow>
          (case dec packet of
             None \<Rightarrow> Inl Io_InvalidData
           | Some (call, is_request, payload) \<Rightarrow> Inr (call, payload, is_request)))"

text \<open>
  The body of the loop over the streams, for an item of the stream at index \<open>i\<close>. A closed stream yields
  nothing more and leaves the set of streams.
\<close>

definition on_stream_item ::
  "nat \<Rightarrow> 'err rpc_error + (call \<times> bytes \<times> bool) \<Rightarrow> ('peer, 'conn, 's, 'err) rpc \<Rightarrow>
   ('peer, 'err) rpc_event option \<times> ('peer, 'conn, 's, 'err) rpc" where
  "on_stream_item i res b =
     (let pid = rs_peer (rpc_streams b ! i) in
      case res of
        Inr (cid, content, False) \<Rightarrow>
          (case find_and_remove (\<lambda>(c, _). c = cid) (ongoing_requests b) of
             None \<Rightarrow> (None, b)
           | Some ((_, peer), rest) \<Rightarrow>
               let b' = b\<lparr>ongoing_requests := rest\<rparr> in
               if pid \<noteq> peer then (None, b') else (Some (Response pid cid (Inr content)), b'))
      | Inr (cid, content, True) \<Rightarrow> (Some (Request pid cid content), b)
      | Inl e \<Rightarrow> (None, (clean_failed_requests pid e b)\<lparr>rpc_streams := vec_remove i (rpc_streams b)\<rparr>))"

text \<open>A new stream takes the requests that waited for it; a request it has no room for fails.\<close>

fun send_pending ::
  "'peer fits \<Rightarrow> ('peer \<times> call \<times> bytes) list \<Rightarrow> 'peer rpc_stream \<Rightarrow>
   'peer rpc_stream \<times> (call \<times> 'peer) list \<times> ('peer, 'err) rpc_event list" where
  "send_pending fits [] st = (st, [], [])"
| "send_pending fits ((peer, call, payload) # rs) st =
     (case rpc_write fits (call, True, payload) st of
        Inl err \<Rightarrow> (case send_pending fits rs st of (st', on, evs) \<Rightarrow> (st', on, Response peer call (Inl err) # evs))
      | Inr st1 \<Rightarrow> (case send_pending fits rs st1 of (st', on, evs) \<Rightarrow> (st', (call, peer) # on, evs)))"

definition send_responses ::
  "'peer fits \<Rightarrow> ('peer \<times> call \<times> bytes) list \<Rightarrow> 'peer rpc_stream \<Rightarrow> 'peer rpc_stream" where
  "send_responses fits rs st =
     fold (\<lambda>(_, call, payload) st. case rpc_write fits (call, False, payload) st :: unit rpc_error + _ of
       Inr st' \<Rightarrow> st' | Inl _ \<Rightarrow> st) rs st"

definition on_new_stream :: "'peer fits \<Rightarrow> 'peer \<Rightarrow> ('peer, 'conn, 's, 'err) rpc \<Rightarrow> ('peer, 'conn, 's, 'err) rpc" where
  "on_new_stream fits p b =
     (let (st, on, evs) = send_pending fits (filter (\<lambda>(op, _). op = p) (pending_requests b)) \<lparr>rs_peer = p, rs_out = []\<rparr>;
          st' = send_responses fits (filter (\<lambda>(op, _). op = p) (pending_repsonses b)) st in
      b\<lparr>pending_requests := filter (\<lambda>(op, _). op \<noteq> p) (pending_requests b),
        pending_repsonses := filter (\<lambda>(op, _). op \<noteq> p) (pending_repsonses b),
        ongoing_requests := ongoing_requests b @ on,
        rpc_events := rpc_events b @ evs,
        rpc_streams := st' # rpc_streams b\<rparr>)"

definition on_streaming_event ::
  "'peer fits \<Rightarrow> ('peer, 's, 'err) streaming_event \<Rightarrow> ('peer, 'conn, 's, 'err) rpc \<Rightarrow> ('peer, 'conn, 's, 'err) rpc" where
  "on_streaming_event fits ev b =
     (case ev of
        IncomingStream p s \<Rightarrow> on_new_stream fits p b
      | OutgoingStream p (Inr s) \<Rightarrow> on_new_stream fits p b
      | OutgoingStream p (Inl err) \<Rightarrow>
          b\<lparr>pending_repsonses := filter (\<lambda>(op, _). op \<noteq> p) (pending_repsonses b),
            rpc_events := rpc_events b @ map (\<lambda>(peer, call, _). Response peer call (Inl (Upgrade err)))
              (filter (\<lambda>(op, _). op = p) (pending_repsonses b))\<rparr>)"

subsection \<open>Runs\<close>

text \<open>What drives the behaviour: its two calls, an item of a stream, an event of the swarm or of a
  connection handler (passed to \<open>streaming\<close>), and polling \<open>streaming\<close>.\<close>

datatype ('peer, 'conn, 's, 'err) rpc_input =
  RRequest 'peer bytes
| RRespond 'peer call bytes
| RItem nat "'err rpc_error + (call \<times> bytes \<times> bool)"
| RSwarm "('peer, 'conn, 's, 'err) streaming_input"
| RPoll 'conn

fun rpc_step ::
  "'peer fits \<Rightarrow> ('peer, 'conn, 's, 'err) rpc_input \<Rightarrow> ('peer, 'conn, 's, 'err) rpc \<Rightarrow>
   ('peer, 'err) rpc_event option \<times> ('peer, 'conn, 's, 'err) rpc" where
  "rpc_step fits (RRequest peer packet) b = (None, snd (rpc_request fits peer packet b))"
| "rpc_step fits (RRespond peer call payload) b = (None, rpc_respond fits peer call payload b)"
| "rpc_step fits (RItem i res) b = (if i < length (rpc_streams b) then on_stream_item i res b else (None, b))"
| "rpc_step fits (RSwarm inp) b =
     (case inp of
        InPoll _ \<Rightarrow> (None, b)
      | InCreate _ \<Rightarrow> (None, b)
      | _ \<Rightarrow> (None, b\<lparr>rpc_streaming := snd (streaming_step inp (rpc_streaming b))\<rparr>))"
| "rpc_step fits (RPoll fresh) b =
     (case streaming_poll fresh (rpc_streaming b) of
        (GenerateEvent ev, sg) \<Rightarrow> (None, on_streaming_event fits ev (b\<lparr>rpc_streaming := sg\<rparr>))
      | (_, sg) \<Rightarrow> (None, b\<lparr>rpc_streaming := sg\<rparr>))"

fun rpc_run ::
  "'peer fits \<Rightarrow> ('peer, 'conn, 's, 'err) rpc_input list \<Rightarrow> ('peer, 'conn, 's, 'err) rpc \<Rightarrow>
   ('peer, 'err) rpc_event list \<times> ('peer, 'conn, 's, 'err) rpc" where
  "rpc_run fits [] b = ([], b)"
| "rpc_run fits (i # is) b =
     (case rpc_step fits i b of (ev, b') \<Rightarrow>
      case rpc_run fits is b' of (evs, b'') \<Rightarrow> ((case ev of None \<Rightarrow> [] | Some e \<Rightarrow> [e]) @ evs, b''))"

subsection \<open>Calls that wait for a response\<close>

definition waits :: "('peer, 'conn, 's, 'err) rpc \<Rightarrow> (call \<times> 'peer) list" where
  "waits b = ongoing_requests b @ map (\<lambda>(p, c, _). (c, p)) (pending_requests b)"

text \<open>The peers of the requests made along a run: the call id is the position.\<close>

definition reqs_of :: "('peer, 'conn, 's, 'err) rpc_input list \<Rightarrow> 'peer list" where
  "reqs_of is = concat (map (\<lambda>i. case i of RRequest p _ \<Rightarrow> [p] | _ \<Rightarrow> []) is)"

definition rpc_ok :: "'peer list \<Rightarrow> ('peer, 'conn, 's, 'err) rpc \<Rightarrow> bool" where
  "rpc_ok reqs b \<longleftrightarrow>
     next_call b = length reqs \<and> distinct (map fst (waits b)) \<and>
     (\<forall>w\<in>set (waits b). fst w < length reqs \<and> reqs ! fst w = snd w)"

lemma distinct_sub_mset:
  assumes "mset xs \<subseteq># mset ys" and "distinct ys"
  shows "distinct xs"
proof -
  have "count (mset xs) a \<le> 1" for a
  proof -
    have "count (mset ys) a \<le> 1" using assms(2) by (simp add: distinct_count_atmost_1)
    then show ?thesis using mset_subset_eq_count [OF assms(1), of a] by simp
  qed
  moreover have "0 < count (mset xs) a \<longleftrightarrow> a \<in> set xs" for a by simp
  ultimately show ?thesis unfolding distinct_count_atmost_1 by (metis One_nat_def Suc_leI count_mset_0_iff le_antisym)
qed

lemma sub_add_mset: "A \<subseteq># B \<Longrightarrow> A \<subseteq># add_mset x B"
  by (metis add_mset_add_single mset_subset_eq_add_left subset_mset.order_trans)

lemma send_pending_on:
  fixes evs :: "('peer, 'err) rpc_event list"
  assumes "send_pending fits rs st = (st', on, evs)"
  shows "mset on \<subseteq># mset (map (\<lambda>(p, c, _). (c, p)) rs)"
  using assms
proof (induction rs arbitrary: st st' on evs)
  case (Cons r rs)
  obtain peer call payload where r: "r = (peer, call, payload)" by (metis prod_cases3)
  obtain st1 where st1: "send_pending fits (r # rs) st =
      (case send_pending fits rs st1 of (st', on, evs) \<Rightarrow> (st', on, Response peer call (Inl Io_OutOfMemory) # evs :: ('peer, 'err) rpc_event list)) \<or>
    send_pending fits (r # rs) st =
      (case send_pending fits rs st1 of (st', on, evs) \<Rightarrow> (st', (call, peer) # on, evs :: ('peer, 'err) rpc_event list))"
    by (cases "fits st (call, True, payload)") (auto simp: r rpc_write_def)
  obtain st2 on2 and ev2 :: "('peer, 'err) rpc_event list" where s2: "send_pending fits rs st1 = (st2, on2, ev2)"
    by (metis prod_cases3)
  from Cons.IH [OF s2] have "mset on2 \<subseteq># mset (map (\<lambda>(p, c, _). (c, p)) rs)" .
  moreover from st1 Cons.prems s2 have "on = on2 \<or> on = (call, peer) # on2" by (auto simp del: send_pending.simps)
  ultimately show ?case by (auto simp: r intro: sub_add_mset)
qed simp

lemma waits_new_stream:
  fixes b :: "('peer, 'conn, 's, 'err) rpc"
  shows "mset (waits (on_new_stream fits p b)) \<subseteq># mset (waits b)"
proof -
  let ?sw = "\<lambda>(p, c, _ :: bytes). (c :: call, p)"
  let ?rs = "filter (\<lambda>(op, _). op = p) (pending_requests b)"
  obtain st on and evs :: "('peer, 'err) rpc_event list" where r: "send_pending fits ?rs \<lparr>rs_peer = p, rs_out = []\<rparr> = (st, on, evs)" by (metis prod_cases3)
  have w: "waits (on_new_stream fits p b) = ongoing_requests b @ on @ map ?sw (filter (\<lambda>(op, _). op \<noteq> p) (pending_requests b))"
    using r by (simp add: on_new_stream_def waits_def)
  have "mset (pending_requests b) = mset ?rs + mset (filter (\<lambda>(op, _). op \<noteq> p) (pending_requests b))"
    using multiset_partition [of "mset (pending_requests b)" "\<lambda>(op, _). op = p"]
    by (simp add: case_prod_beta' mset_filter)
  then have "mset (map ?sw (pending_requests b)) =
      mset (map ?sw ?rs) + mset (map ?sw (filter (\<lambda>(op, _). op \<noteq> p) (pending_requests b)))"
    by (simp only: mset_map image_mset_union)
  then show ?thesis
    unfolding w unfolding waits_def mset_append
    by (simp only:) (intro subset_mset.add_mono subset_mset.order_refl send_pending_on [OF r])
qed

lemma waits_clean_failed:
  "mset (waits (clean_failed_requests p e b)) \<subseteq># mset (waits b)"
  "w \<in> set (waits (clean_failed_requests p e b)) \<Longrightarrow> snd w \<noteq> p"
proof -
  show "mset (waits (clean_failed_requests p e b)) \<subseteq># mset (waits b)"
    unfolding waits_def clean_failed_requests_def Let_def
    by (simp add: mset_filter) (intro subset_mset.add_mono image_mset_subseteq_mono multiset_filter_subset)
  show "w \<in> set (waits (clean_failed_requests p e b)) \<Longrightarrow> snd w \<noteq> p"
    unfolding waits_def clean_failed_requests_def Let_def by auto
qed

lemma waits_update [simp]:
  "waits (b\<lparr>rpc_streams := ss\<rparr>) = waits b" "waits (b\<lparr>rpc_streaming := sg\<rparr>) = waits b"
  "waits (b\<lparr>rpc_events := es\<rparr>) = waits b" "waits (b\<lparr>pending_repsonses := rs\<rparr>) = waits b"
  "waits (b\<lparr>next_call := n\<rparr>) = waits b"
  by (simp_all add: waits_def)

lemma find_and_remove_mset:
  assumes "find_and_remove q xs = Some (x, ys)"
  shows "mset xs = add_mset x (mset ys)" and "q x"
proof -
  from assms obtain i where i: "i < length xs" "xs ! i = x" "q x" "ys = swap_remove i xs"
    by (auto simp: find_and_remove_def position_Some_iff split: option.splits)
  show "mset xs = add_mset x (mset ys)" using i mset_swap_remove [OF i(1)] nth_mem_mset [OF i(1)] by simp
  show "q x" by (rule i(3))
qed

lemma waits_streaming_event:
  fixes b :: "('peer, 'conn, 's, 'err) rpc"
  shows "mset (waits (on_streaming_event fits e b)) \<subseteq># mset (waits b)"
    and "next_call (on_streaming_event fits e b) = next_call b"
  using waits_new_stream [of fits _ b]
  by (auto simp: on_streaming_event_def on_new_stream_def Let_def split: streaming_event.splits sum.splits prod.splits)

lemma step_waits:
  assumes "rpc_step fits inp b = (ev, b')"
  shows "mset (waits b') \<subseteq># mset (waits b) + (case inp of RRequest p _ \<Rightarrow> {#(next_call b, p)#} | _ \<Rightarrow> {#})"
    and "next_call b' = next_call b + (case inp of RRequest p _ \<Rightarrow> 1 | _ \<Rightarrow> 0)"
    and "ev = Some (Response p c r) \<Longrightarrow> (\<exists>x. r = Inr x) \<and> add_mset (c, p) (mset (waits b')) \<subseteq># mset (waits b)"
proof -
  have "mset (waits b') \<subseteq># mset (waits b) + (case inp of RRequest p _ \<Rightarrow> {#(next_call b, p)#} | _ \<Rightarrow> {#}) \<and>
    next_call b' = next_call b + (case inp of RRequest p _ \<Rightarrow> 1 | _ \<Rightarrow> 0) \<and>
    (ev = Some (Response p c r) \<longrightarrow> (\<exists>x. r = Inr x) \<and> add_mset (c, p) (mset (waits b')) \<subseteq># mset (waits b))"
  proof (cases inp)
    case (RRequest q packet)
    then show ?thesis using assms
      by (auto simp: rpc_request_def Let_def rpc_write_def waits_def intro: sub_add_mset split: option.splits if_splits)
  next
    case (RRespond q call payload)
    then show ?thesis using assms
      by (auto simp: rpc_respond_def rpc_write_def waits_def split: option.splits if_splits)
  next
    case (RItem i res)
    show ?thesis
    proof (cases "i < length (rpc_streams b)")
      case True
      then have it: "on_stream_item i res b = (ev, b')" using assms RItem by simp
      consider (err) e where "res = Inl e" | (req) cid content where "res = Inr (cid, content, True)"
        | (resp) cid content where "res = Inr (cid, content, False)"
        by (metis (full_types) obj_sumE prod_cases3)
      then show ?thesis
      proof cases
        case err
        then show ?thesis using it waits_clean_failed(1) RItem
          by (auto simp: on_stream_item_def Let_def clean_failed_requests_def)
      next
        case req
        then show ?thesis using it RItem by (auto simp: on_stream_item_def)
      next
        case resp
        show ?thesis
        proof (cases "find_and_remove (\<lambda>(c, _). c = cid) (ongoing_requests b)")
          case None
          then show ?thesis using it resp RItem by (auto simp: on_stream_item_def)
        next
          case (Some y)
          then obtain c' q rest where y: "find_and_remove (\<lambda>(c, _). c = cid) (ongoing_requests b) = Some ((c', q), rest)"
            by (metis prod.collapse)
          note fr = find_and_remove_mset [OF y]
          have "mset (waits b) = add_mset (cid, q) (mset (waits (b\<lparr>ongoing_requests := rest\<rparr>)))"
            using fr by (simp add: waits_def)
          moreover have "b' = b\<lparr>ongoing_requests := rest\<rparr>"
            and "ev = Some (Response p c r) \<Longrightarrow> p = q \<and> c = cid \<and> r = Inr content"
            using it resp y by (auto simp: on_stream_item_def Let_def split: if_splits)
          ultimately show ?thesis using RItem by (auto intro: sub_add_mset)
        qed
      qed
    next
      case False
      then show ?thesis using assms RItem by simp
    qed
  next
    case (RSwarm inp')
    then show ?thesis using assms by (auto split: streaming_input.splits)
  next
    case (RPoll fresh)
    obtain out sg where po: "streaming_poll fresh (rpc_streaming b) = (out, sg)" by force
    then consider e where "b' = on_streaming_event fits e (b\<lparr>rpc_streaming := sg\<rparr>)" | "b' = b\<lparr>rpc_streaming := sg\<rparr>"
      using assms RPoll by (cases out) auto
    moreover have "ev = None" using assms RPoll po by (cases out) auto
    ultimately show ?thesis
      using RPoll waits_streaming_event [of fits _ "b\<lparr>rpc_streaming := sg\<rparr>"] by cases auto
  qed
  then show "mset (waits b') \<subseteq># mset (waits b) + (case inp of RRequest p _ \<Rightarrow> {#(next_call b, p)#} | _ \<Rightarrow> {#})"
    and "next_call b' = next_call b + (case inp of RRequest p _ \<Rightarrow> 1 | _ \<Rightarrow> 0)"
    and "ev = Some (Response p c r) \<Longrightarrow> (\<exists>x. r = Inr x) \<and> add_mset (c, p) (mset (waits b')) \<subseteq># mset (waits b)"
    by blast+
qed

lemma reqs_of_Cons: "reqs_of (i # is) = (case i of RRequest p _ \<Rightarrow> [p] | _ \<Rightarrow> []) @ reqs_of is"
  by (simp add: reqs_of_def)

lemma rpc_ok_sub:
  assumes "rpc_ok reqs b" and "mset (waits b') \<subseteq># mset (waits b)" and "next_call b' = next_call b"
  shows "rpc_ok reqs b'"
proof -
  have "mset (map fst (waits b')) \<subseteq># mset (map fst (waits b))"
    using image_mset_subseteq_mono [OF assms(2), of fst] by simp
  then have "distinct (map fst (waits b'))" using assms(1) distinct_sub_mset unfolding rpc_ok_def by blast
  moreover have "set (waits b') \<subseteq> set (waits b)" using set_mset_mono [OF assms(2)] by simp
  ultimately show ?thesis using assms(1,3) unfolding rpc_ok_def by (metis subsetD)
qed

lemma rpc_ok_step:
  assumes ok: "rpc_ok reqs b" and step: "rpc_step fits inp b = (ev, b')"
  shows "rpc_ok (reqs @ reqs_of [inp]) b'"
proof (cases "\<exists>p packet. inp = RRequest p packet")
  case True
  then obtain p packet where inp: "inp = RRequest p packet" by blast
  note w = step_waits(1,2) [OF step]
  define b1 where "b1 = b\<lparr>ongoing_requests := (next_call b, p) # ongoing_requests b, next_call := Suc (next_call b)\<rparr>"
  have n: "next_call b = length reqs" using ok by (simp add: rpc_ok_def)
  have w1: "waits b1 = (length reqs, p) # waits b" by (simp add: b1_def waits_def n)
  have lt: "fst w < length reqs \<and> reqs ! fst w = snd w" if "w \<in> set (waits b)" for w
    using ok that by (simp add: rpc_ok_def)
  then have "length reqs \<notin> fst ` set (waits b)" by fastforce
  then have "rpc_ok (reqs @ [p]) b1"
    using ok lt unfolding rpc_ok_def w1 by (simp add: b1_def n nth_append less_Suc_eq)
  moreover have "mset (waits b') \<subseteq># mset (waits b1)" "next_call b' = next_call b1"
    using w by (simp_all add: inp b1_def waits_def)
  ultimately show ?thesis using rpc_ok_sub by (auto simp: inp reqs_of_def)
next
  case False
  then have "reqs_of [inp] = []" by (cases inp) (auto simp: reqs_of_def)
  moreover have "mset (waits b') \<subseteq># mset (waits b)" "next_call b' = next_call b"
    using step_waits(1,2) [OF step] False by (cases inp; simp)+
  ultimately show ?thesis using rpc_ok_sub [OF ok] by simp
qed

text \<open>A call that does not wait is never answered.\<close>

lemma not_waiting_step:
  assumes "c \<notin> fst ` set (waits b)" and "c < next_call b" and "rpc_step fits inp b = (ev, b')"
  shows "c \<notin> fst ` set (waits b')" and "c < next_call b'" and "ev \<noteq> Some (Response p c r)"
proof -
  have "set (waits b') \<subseteq> set (waits b) \<union> (case inp of RRequest p _ \<Rightarrow> {(next_call b, p)} | _ \<Rightarrow> {})"
    using set_mset_mono [OF step_waits(1) [OF assms(3)]] by (cases inp) auto
  then show "c \<notin> fst ` set (waits b')" using assms(1,2) by (cases inp) force+
  show "c < next_call b'" using assms(2) step_waits(2) [OF assms(3)] by simp
  show "ev \<noteq> Some (Response p c r)"
  proof
    assume "ev = Some (Response p c r)"
    from step_waits(3) [OF assms(3) this] have "(c, p) \<in># mset (waits b)" using mset_subset_eqD by fastforce
    then show False using assms(1) by force
  qed
qed

lemma not_waiting_run:
  "c \<notin> fst ` set (waits b) \<Longrightarrow> c < next_call b \<Longrightarrow> rpc_run fits is b = (evs, b') \<Longrightarrow> Response p c r \<notin> set evs"
proof (induction "is" arbitrary: b evs)
  case (Cons i "is")
  obtain ev b1 where st: "rpc_step fits i b = (ev, b1)" by force
  obtain evs1 where r: "rpc_run fits is b1 = (evs1, b')" and e: "evs = (case ev of None \<Rightarrow> [] | Some e \<Rightarrow> [e]) @ evs1"
    using Cons.prems(3) st by (auto split: prod.splits)
  note n = not_waiting_step [OF Cons.prems(1,2) st]
  have "Response p c r \<notin> set evs1" using Cons.IH [OF n(1,2) r] .
  then show ?case using n(3) e by (auto split: option.splits)
qed simp

definition answers :: "('peer, 'err) rpc_event list \<Rightarrow> (call \<times> 'peer) list" where
  "answers evs = concat (map (\<lambda>e. case e of Response p c _ \<Rightarrow> [(c, p)] | Request _ _ _ \<Rightarrow> []) evs)"

lemma answers_mem: "(c, p) \<in> set (answers evs) \<Longrightarrow> \<exists>r. Response p c r \<in> set evs"
  by (auto simp: answers_def split: rpc_event.splits)

lemma rpc_run_answers:
  "rpc_ok reqs b \<Longrightarrow> rpc_run fits is b = (evs, b') \<Longrightarrow>
   rpc_ok (reqs @ reqs_of is) b' \<and> distinct (map fst (answers evs)) \<and>
   (\<forall>w\<in>set (answers evs). fst w < length (reqs @ reqs_of is) \<and> (reqs @ reqs_of is) ! fst w = snd w)"
proof (induction "is" arbitrary: b evs reqs)
  case (Cons i "is")
  obtain ev b1 where st: "rpc_step fits i b = (ev, b1)" by force
  obtain evs1 where r: "rpc_run fits is b1 = (evs1, b')" and e: "evs = (case ev of None \<Rightarrow> [] | Some e \<Rightarrow> [e]) @ evs1"
    using Cons.prems(2) st by (auto split: prod.splits)
  have rq: "reqs @ reqs_of (i # is) = (reqs @ reqs_of [i]) @ reqs_of is" by (simp add: reqs_of_def)
  have ok1: "rpc_ok (reqs @ reqs_of [i]) b1" using rpc_ok_step [OF Cons.prems(1) st] .
  note IH = Cons.IH [OF ok1 r, folded rq]
  show ?case
  proof (cases "\<exists>p c x. ev = Some (Response p c x)")
    case True
    then obtain p c x where ev: "ev = Some (Response p c x)" by blast
    from step_waits(3) [OF st ev] have sub: "add_mset (c, p) (mset (waits b1)) \<subseteq># mset (waits b)" by blast
    then have "(c, p) \<in> set (waits b)" using mset_subset_eqD by fastforce
    then have cp: "c < length reqs" "reqs ! c = p" using Cons.prems(1) by (force simp: rpc_ok_def)+
    have "mset (map fst ((c, p) # waits b1)) \<subseteq># mset (map fst (waits b))"
      using image_mset_subseteq_mono [OF sub, of fst] by simp
    then have "distinct (map fst ((c, p) # waits b1))"
      using Cons.prems(1) distinct_sub_mset unfolding rpc_ok_def by blast
    then have "c \<notin> fst ` set (waits b1)" by simp
    moreover have "c < next_call b1" using cp(1) step_waits(2) [OF st] Cons.prems(1) by (simp add: rpc_ok_def)
    ultimately have "c \<notin> fst ` set (answers evs1)"
      using not_waiting_run [OF _ _ r] answers_mem by (metis (no_types, lifting) imageE prod.collapse)
    moreover have "answers evs = (c, p) # answers evs1" by (simp add: e ev answers_def)
    ultimately show ?thesis using IH cp by (simp add: nth_append)
  next
    case False
    then have "answers evs = answers evs1" by (auto simp: e answers_def split: option.splits rpc_event.splits)
    then show ?thesis using IH by simp
  qed
qed (simp add: reqs_of_def answers_def)

lemma rpc_ok_init: "rpc_ok [] rpc_init"
  by (simp add: rpc_ok_def rpc_init_def waits_def)

lemma no_error_event:
  "rpc_run fits is b = (evs, b') \<Longrightarrow> Response p c (Inl e) \<notin> set evs"
proof (induction "is" arbitrary: b evs)
  case (Cons i "is")
  obtain ev b1 where st: "rpc_step fits i b = (ev, b1)" by force
  obtain evs1 where r: "rpc_run fits is b1 = (evs1, b')" and ev: "evs = (case ev of None \<Rightarrow> [] | Some e \<Rightarrow> [e]) @ evs1"
    using Cons.prems st by (auto split: prod.splits)
  have "ev \<noteq> Some (Response p c (Inl e))" using step_waits(3) [OF st, of p c "Inl e"] by blast
  then show ?case using Cons.IH [OF r] ev by (auto split: option.splits)
qed simp

subsection \<open>Properties\<close>

text \<open>C18: Responses match requests: along every run of the behaviour, with the streams and the swarm behaving in
  any way, the responses handed to the server have distinct call ids, and the response with the call id
  \<open>c\<close> comes from the peer the \<open>c\<close>-th request was made to.\<close>
theorem responses_match_requests:
  assumes "rpc_run fits is rpc_init = (evs, b)"
  shows "distinct (map fst (answers evs)) \<and>
    (\<forall>w\<in>set (answers evs). fst w < length (reqs_of is) \<and> reqs_of is ! fst w = snd w)"
  using rpc_run_answers [OF rpc_ok_init assms] by simp

definition demo_rpc :: "(nat, nat, unit, unit) rpc_input list" where
  "demo_rpc = [RRequest 5 [1], RPoll 7, RSwarm (InEstablished 5 7), RPoll 8, RSwarm (InHandler 5 (Inl (Inr ()))), RPoll 9,
     RItem 0 (Inr (0, [2], False)), RItem 0 (Inr (0, [3], False))]"

lemmas rpc_eval = rpc_request_def rpc_init_def streaming_init_def Let_def is_resolving_stream_for_def create_stream_def
  lm_get_def more_dials_def streaming_poll_def flush_dials_def on_connection_established_def find_and_remove_def
  swap_remove_def lm_insert_def lm_key_position_def on_handler_event_def on_streaming_event_def on_new_stream_def
  send_responses_def rpc_write_def on_stream_item_def on_dial_failure_def clean_failed_requests_def vec_remove_def

theorem responses_match_requests_witness:
  "\<exists>b. rpc_run (\<lambda>_ _. True) demo_rpc rpc_init = ([Response 5 0 (Inr [2])], b) \<and>
     distinct (map fst (answers [Response (5 :: nat) 0 (Inr [2] :: unit rpc_error + bytes)])) \<and> reqs_of demo_rpc ! 0 = 5"
proof -
  obtain b where r: "rpc_run (\<lambda>_ _. True) demo_rpc rpc_init = ([Response 5 0 (Inr [2])], b)"
    by (simp add: demo_rpc_def rpc_eval)
  show ?thesis using responses_match_requests [OF r] r by (simp add: answers_def)
qed

text \<open>C19: A request made while a stream to the peer is being opened is lost: \<open>request\<close> returns a call id for it
  but queues nothing, and whatever happens later, neither a response nor an error is ever reported for
  that call.\<close>
theorem request_lost_while_resolving:
  assumes "rpc_run fits before rpc_init = (evs0, b0)" and "\<forall>st\<in>set (rpc_streams b0). rs_peer st \<noteq> peer"
    and "is_resolving_stream_for (rpc_streaming b0) peer" and "rpc_request fits peer packet b0 = (res, b1)"
    and "rpc_run fits after b1 = (evs, b)"
  shows "res = Inr (length (reqs_of before)) \<and> waits b1 = waits b0 \<and> Response p (length (reqs_of before)) r \<notin> set evs"
proof -
  have ok: "rpc_ok (reqs_of before) b0" using rpc_run_answers [OF rpc_ok_init assms(1)] by simp
  have "position (\<lambda>s. rs_peer s = peer) (rpc_streams b0) = None" using assms(2) by (simp add: position_None_iff)
  then have b1: "b1 = b0\<lparr>next_call := Suc (next_call b0)\<rparr>" and "res = Inr (next_call b0)"
    using assms(3,4) by (auto simp: rpc_request_def Let_def)
  moreover have n: "next_call b0 = length (reqs_of before)" using ok by (simp add: rpc_ok_def)
  moreover have "length (reqs_of before) \<notin> fst ` set (waits b1)"
    using ok by (fastforce simp: rpc_ok_def b1)
  ultimately show ?thesis using not_waiting_run [OF _ _ assms(5)] by simp
qed

definition demo_resolving :: "(nat, nat, unit, unit) rpc" where
  "demo_resolving = snd (rpc_run (\<lambda>_ _. True) [RRequest 5 [1]] rpc_init)"

theorem request_lost_while_resolving_witness:
  "fst (rpc_request (\<lambda>_ _. True) 5 [9] demo_resolving) = Inr 1 \<and>
   Response 5 1 (Inr [2]) \<notin> set (fst (rpc_run (\<lambda>_ _. True) [RPoll 7, RSwarm (InEstablished 5 7), RPoll 8,
     RSwarm (InHandler 5 (Inl (Inr ()))), RPoll 9, RItem 0 (Inr (1, [2], False))]
     (snd (rpc_request (\<lambda>_ _. True) 5 [9] demo_resolving))))"
proof -
  let ?is = "[RRequest 5 [1] :: (nat, nat, unit, unit) rpc_input]"
  have run: "rpc_run (\<lambda>_ _. True) ?is rpc_init = ([], demo_resolving)"
    by (simp add: demo_resolving_def rpc_eval)
  have "\<forall>st\<in>set (rpc_streams demo_resolving). rs_peer st \<noteq> 5" "is_resolving_stream_for (rpc_streaming demo_resolving) 5"
    by (simp_all add: demo_resolving_def rpc_eval)
  note lost = request_lost_while_resolving [OF run this prod.collapse [symmetric] prod.collapse [symmetric]]
  have "length (reqs_of ?is) = 1" by (simp add: reqs_of_def)
  with lost show ?thesis by (simp only: simp_thms)
qed

text \<open>When the stream of a peer fails, the calls that wait for this peer are dropped without a report: the error
  events are queued in a field that \<open>poll\<close> never reads, so no event about these calls ever
  reaches the server.\<close>
theorem failed_calls_unreported:
  assumes "rpc_run fits before rpc_init = (evs0, b0)" and "i < length (rpc_streams b0)"
    and "rpc_step fits (RItem i (Inl e)) b0 = (ev, b1)" and "(c, rs_peer (rpc_streams b0 ! i)) \<in> set (waits b0)"
    and "rpc_run fits after b1 = (evs, b)"
  shows "ev = None \<and> Response p c r \<notin> set evs"
proof -
  let ?p = "rs_peer (rpc_streams b0 ! i)"
  have ok: "rpc_ok (reqs_of before) b0" using rpc_run_answers [OF rpc_ok_init assms(1)] by simp
  have "ev = None" and b1: "waits b1 = waits (clean_failed_requests ?p e b0)" "next_call b1 = next_call b0"
    using assms(2,3) by (auto simp: on_stream_item_def Let_def clean_failed_requests_def)
  have "c \<notin> fst ` set (waits b1)"
  proof
    assume "c \<in> fst ` set (waits b1)"
    then obtain q where q: "(c, q) \<in> set (waits b1)" by force
    then have "(c, q) \<in> set (waits b0)" using set_mset_mono [OF waits_clean_failed(1), of ?p e b0] b1 by auto
    then have "q = ?p"
      using ok assms(4) by (auto simp: rpc_ok_def intro: eq_key_imp_eq_value [of "waits b0" c])
    then show False using waits_clean_failed(2) [of "(c, q)" ?p e b0] q b1(1) by simp
  qed
  moreover have "c < next_call b1" using ok assms(4) b1(2) by (force simp: rpc_ok_def)
  ultimately show ?thesis using \<open>ev = None\<close> not_waiting_run [OF _ _ assms(5)] by blast
qed

definition demo_streaming :: "(nat, nat, unit, unit) rpc" where
  "demo_streaming = snd (rpc_run (\<lambda>_ _. True) (take 6 demo_rpc) rpc_init)"

theorem failed_calls_unreported_witness:
  "Response 5 0 (Inl Io_InvalidData) \<notin> set (fst (rpc_run (\<lambda>_ _. True) [RPoll 9, RPoll 10]
     (snd (rpc_step (\<lambda>_ _. True) (RItem 0 (Inl Io_InvalidData)) demo_streaming))))"
proof -
  have run: "rpc_run (\<lambda>_ _. True) (take 6 demo_rpc) rpc_init = ([], demo_streaming)"
    by (simp add: demo_streaming_def demo_rpc_def rpc_eval)
  have "0 < length (rpc_streams demo_streaming)" "(0, rs_peer (rpc_streams demo_streaming ! 0)) \<in> set (waits demo_streaming)"
    by (simp_all add: demo_streaming_def demo_rpc_def rpc_eval waits_def)
  from failed_calls_unreported [OF run this(1) prod.collapse [symmetric] this(2) prod.collapse [symmetric]]
  show ?thesis by blast
qed

text \<open>A response with the call id of another peer's request removes that request: the right response is then ignored.\<close>

lemma foreign_response_cancels:
  assumes "rpc_ok reqs b0" and "i < length (rpc_streams b0)" and "(c, q) \<in> set (ongoing_requests b0)"
    and "rs_peer (rpc_streams b0 ! i) \<noteq> q" and "rpc_step fits (RItem i (Inr (c, x, False))) b0 = (ev, b1)"
    and "rpc_run fits after b1 = (evs, b)"
  shows "ev = None \<and> Response p c r \<notin> set evs"
proof -
  have "\<exists>w rest. find_and_remove (\<lambda>(c', _). c' = c) (ongoing_requests b0) = Some (w, rest)"
    using assms(3) find_and_remove_None [of "\<lambda>(c', _). c' = c" "ongoing_requests b0"] by fastforce
  then obtain c' q' rest where fr: "find_and_remove (\<lambda>(c', _). c' = c) (ongoing_requests b0) = Some ((c', q'), rest)"
    by force
  note m = find_and_remove_mset [OF fr]
  have w: "mset (waits b0) = add_mset (c, q') (mset (waits (b0\<lparr>ongoing_requests := rest\<rparr>)))"
    using m by (simp add: waits_def)
  then have mem: "(c, q') \<in> set (waits b0)" by (metis set_mset_mset union_single_eq_member)
  have "(c, q) \<in> set (waits b0)" using assms(3) by (simp add: waits_def)
  with mem have q': "q' = q" using assms(1) by (auto simp: rpc_ok_def intro: eq_key_imp_eq_value [of "waits b0" c])
  have b1: "ev = None" "b1 = b0\<lparr>ongoing_requests := rest\<rparr>"
    using assms(2,4,5) fr q' by (auto simp: on_stream_item_def Let_def)
  have "mset (map fst (waits b0)) = mset (map fst ((c, q') # waits b1))" using w b1(2) by simp
  then have "distinct (map fst ((c, q') # waits b1))"
    using assms(1) mset_eq_imp_distinct_iff unfolding rpc_ok_def by blast
  then have "c \<notin> fst ` set (waits b1)" by simp
  moreover have "c < next_call b1" using assms(1) mem b1(2) by (force simp: rpc_ok_def)
  ultimately show ?thesis using b1(1) not_waiting_run [OF _ _ assms(6)] by blast
qed

end
