(* ===== verification/Replication.thy ===== *)
theory Replication
  imports Dht Rpc Chat_Server Profile_Server
begin

section \<open>Replicated and retried requests (\<open>handlers/replicated.rs\<close>, \<open>handlers/retry.rs\<close>)\<close>

text \<open>
  The two wrappers of a handler: \<open>Repl\<close> sends the request to the other replicators of its topic and
  answers once a majority of them gave the same response, \<open>Retry\<close> first fetches a missing profile or
  chat from them. Both drive the routing table (\<open>Dht\<close>) and the remote calls (\<open>Rpc\<close>) of the
  server. The wrapped handler is a record of its two functions, its protocol a record of its codec; the
  sizes of keys and signatures are a record too.
\<close>

record ('addr, 'peer, 'conn, 's, 'err, 'path) server_cx =
  cx_table :: "'addr table"
  cx_us :: 'peer
  cx_rpc :: "('peer, 'conn, 's, 'err) rpc"
  cx_profiles :: "('path, 'peer, call) profile_store"
  cx_chats :: chat_store

record ('path, 'peer) scope =
  sc_origin :: "('path, 'peer) request_origin"
  sc_call :: call
  sc_prefix :: u8

text \<open>The trait \<open>Handler\<close>: a response or an error at once (\<open>Inr\<close>), or the handler that waits (\<open>Inl\<close>).\<close>

type_synonym ('h, 'e, 'r) handler_result = "'h + ('e + 'r)"

record ('addr, 'peer, 'conn, 's, 'err, 'path, 'req, 'h, 'e, 'r) handler =
  h_execute :: "('path, 'peer) scope \<Rightarrow> 'req \<Rightarrow> ('addr, 'peer, 'conn, 's, 'err, 'path) server_cx \<Rightarrow>
    (('h, 'e, 'r) handler_result \<times> ('addr, 'peer, 'conn, 's, 'err, 'path) server_cx) run"
  h_resume :: "'h \<Rightarrow> ('path, 'peer) scope \<Rightarrow> ('peer, 'err) Rpc.rpc_event \<Rightarrow>
    ('addr, 'peer, 'conn, 's, 'err, 'path) server_cx \<Rightarrow>
    (('h, 'e, 'r) handler_result \<times> ('addr, 'peer, 'conn, 's, 'err, 'path) server_cx) run"

record ('req, 'e, 'r) protocol =
  pt_prefix :: u8
  pt_topic :: "'req \<Rightarrow> possible_topic"
  enc_req :: "'req \<Rightarrow> bytes"
  dec_req :: "bytes \<Rightarrow> ('req \<times> bytes) option"
  enc_resp :: "'r \<Rightarrow> bytes"
  dec_resp :: "bytes \<Rightarrow> ('r \<times> bytes) option"
  dec_err :: "bytes \<Rightarrow> ('e \<times> bytes) option"

record 'peer net_env =
  ne_peers :: "'peer peer_env"
  ne_fits :: "'peer fits"

text \<open>The requests to several peers with one packet; a peer that cannot be asked is left out.\<close>

fun request_all ::
  "'peer fits \<Rightarrow> bytes \<Rightarrow> 'peer list \<Rightarrow> ('peer, 'conn, 's, 'err) rpc \<Rightarrow> call list \<times> ('peer, 'conn, 's, 'err) rpc" where
  "request_all fits packet [] b = ([], b)"
| "request_all fits packet (p # ps) b =
     (case rpc_request fits p packet b of
        (Inr c, b') \<Rightarrow> (case request_all fits packet ps b' of (cs, b'') \<Rightarrow> (c # cs, b''))
      | (Inl _, b') \<Rightarrow> request_all fits packet ps b')"

text \<open>Asking the other replicators of a topic; the call ids are collected into a vector of fixed capacity.\<close>

definition ask_replicators ::
  "'peer net_env \<Rightarrow> bytes \<Rightarrow> possible_topic \<Rightarrow> ('addr, 'peer, 'conn, 's, 'err, 'path) server_cx \<Rightarrow>
   (call list \<times> ('addr, 'peer, 'conn, 's, 'err, 'path) server_cx) run" where
  "ask_replicators env packet topic cx =
     run_bind (other_replicators_for (ne_peers env) (cx_table cx) (topic_as_bytes topic) (cx_us cx)) (\<lambda>peers.
       case request_all (ne_fits env) packet peers (cx_rpc cx) of (calls, b) \<Rightarrow>
         run_bind (run_assert (length calls \<le> REPLICATION_FACTOR)) (\<lambda>_. Done (calls, cx\<lparr>cx_rpc := b\<rparr>)))"

subsection \<open>Replication\<close>

datatype 'h repl =
  Resolving 'h possible_topic bytes
| Replicating (repl_response: bytes) (repl_ongoing: "call list") (repl_matched: nat)

definition new_replicating ::
  "'peer net_env \<Rightarrow> bytes \<Rightarrow> bytes \<Rightarrow> possible_topic \<Rightarrow> ('addr, 'peer, 'conn, 's, 'err, 'path) server_cx \<Rightarrow>
   (('h repl, 'e repl_error, 'r) handler_result \<times> ('addr, 'peer, 'conn, 's, 'err, 'path) server_cx) run" where
  "new_replicating env response request topic cx =
     run_bind (ask_replicators env request topic cx) (\<lambda>(calls, cx'). Done (Inl (Replicating response calls 0), cx'))"

text \<open>The bytes of \<open>Ok(r)\<close>, and what becomes of the result of the wrapped handler.\<close>

definition ok_bytes :: "('req, 'e, 'r) protocol \<Rightarrow> 'r \<Rightarrow> bytes" where
  "ok_bytes P r = result_bytes (enc_resp P) (\<lambda>_. []) (Inr r :: unit + 'r)"

definition repl_continue ::
  "'peer net_env \<Rightarrow> ('req, 'e, 'r) protocol \<Rightarrow> possible_topic \<Rightarrow> bytes \<Rightarrow>
   ('h, 'e, 'r) handler_result \<times> ('addr, 'peer, 'conn, 's, 'err, 'path) server_cx \<Rightarrow>
   (('h repl, 'e repl_error, 'r) handler_result \<times> ('addr, 'peer, 'conn, 's, 'err, 'path) server_cx) run" where
  "repl_continue env P topic request x =
     (case x of
        (Inr (Inr r), cx) \<Rightarrow> new_replicating env (ok_bytes P r) request topic cx
      | (Inr (Inl e), cx) \<Rightarrow> Done (Inr (Inl (ReplInner e)), cx)
      | (Inl h, cx) \<Rightarrow> Done (Inl (Resolving h topic request), cx))"

definition repl_execute ::
  "'peer net_env \<Rightarrow> ('req, 'e, 'r) protocol \<Rightarrow> ('addr, 'peer, 'conn, 's, 'err, 'path, 'req, 'h, 'e, 'r) handler \<Rightarrow>
   ('path, 'peer) scope \<Rightarrow> 'req \<Rightarrow> ('addr, 'peer, 'conn, 's, 'err, 'path) server_cx \<Rightarrow>
   (('h repl, 'e repl_error, 'r) handler_result \<times> ('addr, 'peer, 'conn, 's, 'err, 'path) server_cx) run" where
  "repl_execute env P H sc req cx =
     (let topic = pt_topic P req in
      run_bind (is_valid_topic (ne_peers env) (cx_table cx) (topic_as_bytes topic) (cx_us cx)) (\<lambda>valid.
        if \<not> valid then Done (Inr (Inl InvalidTopic), cx)
        else run_bind (h_execute H sc req cx) (repl_continue env P topic (pt_prefix P # enc_req P req))))"

definition repl_resume ::
  "'peer net_env \<Rightarrow> ('req, 'e, 'r) protocol \<Rightarrow> ('addr, 'peer, 'conn, 's, 'err, 'path, 'req, 'h, 'e, 'r) handler \<Rightarrow>
   'h repl \<Rightarrow> ('path, 'peer) scope \<Rightarrow> ('peer, 'err) Rpc.rpc_event \<Rightarrow> ('addr, 'peer, 'conn, 's, 'err, 'path) server_cx \<Rightarrow>
   (('h repl, 'e repl_error, 'r) handler_result \<times> ('addr, 'peer, 'conn, 's, 'err, 'path) server_cx) run" where
  "repl_resume env P H self sc event cx =
     (case self of
        Resolving handler topic request \<Rightarrow>
          run_bind (h_resume H handler sc event cx) (repl_continue env P topic request)
      | Replicating response ongoing matched \<Rightarrow>
          (case event of
             Rpc.Request _ _ _ \<Rightarrow> Done (Inl self, cx)
           | Response _ call res \<Rightarrow>
               (case find_and_remove (\<lambda>c. c = call) ongoing of
                  None \<Rightarrow> Done (Inl self, cx)
                | Some (_, ongoing') \<Rightarrow>
                    let matched' = (case res of Inr remote_resp \<Rightarrow> matched + (if remote_resp = response then 1 else 0)
                                    | Inl _ \<Rightarrow> matched);
                        decided = (case res of Inr remote_resp \<Rightarrow> REPLICATION_FACTOR div 2 < matched' | Inl _ \<Rightarrow> False) in
                    if decided then
                      (case decode_result (dec_resp P) (dec_err P) (projr res) of
                         None \<Rightarrow> Done (Inr (Inl InvalidResponse), cx)
                       | Some (resp, _) \<Rightarrow> Done (Inr (map_sum ReplInner (\<lambda>r. r) resp), cx))
                    else if length ongoing' + matched' < REPLICATION_FACTOR div 2 then Done (Inr (Inl NoMajority), cx)
                    else Done (Inl (Replicating response ongoing' matched'), cx))))"

text \<open>A waiting handler and the events it is resumed with, until it answers.\<close>

fun repl_wait ::
  "'peer net_env \<Rightarrow> ('req, 'e, 'r) protocol \<Rightarrow> ('addr, 'peer, 'conn, 's, 'err, 'path, 'req, 'h, 'e, 'r) handler \<Rightarrow>
   ('path, 'peer) scope \<Rightarrow> 'h repl \<Rightarrow> ('peer, 'err) Rpc.rpc_event list \<Rightarrow> ('addr, 'peer, 'conn, 's, 'err, 'path) server_cx \<Rightarrow>
   (('h repl, 'e repl_error, 'r) handler_result \<times> ('addr, 'peer, 'conn, 's, 'err, 'path) server_cx) run" where
  "repl_wait env P H sc self [] cx = Done (Inl self, cx)"
| "repl_wait env P H sc self (ev # evs) cx =
     run_bind (repl_resume env P H self sc ev cx) (\<lambda>(r, cx').
       case r of Inl self' \<Rightarrow> repl_wait env P H sc self' evs cx' | Inr ans \<Rightarrow> Done (Inr ans, cx'))"

text \<open>The events that confirm the response of this server, and those that count against it.\<close>

definition confirms :: "bytes \<Rightarrow> call set \<Rightarrow> ('peer, 'err) Rpc.rpc_event \<Rightarrow> bool" where
  "confirms response C ev = (case ev of Response _ c (Inr b) \<Rightarrow> c \<in> C \<and> b = response | _ \<Rightarrow> False)"

definition opposes :: "bytes \<Rightarrow> call set \<Rightarrow> ('peer, 'err) Rpc.rpc_event \<Rightarrow> bool" where
  "opposes response C ev = (case ev of Response _ c (Inr b) \<Rightarrow> c \<in> C \<and> b \<noteq> response
     | Response _ c (Inl _) \<Rightarrow> c \<in> C | _ \<Rightarrow> False)"

definition confirming :: "bytes \<Rightarrow> call set \<Rightarrow> ('peer, 'err) Rpc.rpc_event list \<Rightarrow> nat" where
  "confirming response C evs = length (filter (confirms response C) evs)"

definition opposing :: "bytes \<Rightarrow> call set \<Rightarrow> ('peer, 'err) Rpc.rpc_event list \<Rightarrow> nat" where
  "opposing response C evs = length (filter (opposes response C) evs)"

lemma find_and_remove_call:
  assumes "distinct cs"
  shows "c \<notin> set cs \<Longrightarrow> find_and_remove (\<lambda>x. x = c) cs = None"
    and "c \<in> set cs \<Longrightarrow> \<exists>cs'. find_and_remove (\<lambda>x. x = c) cs = Some (c, cs') \<and> distinct cs' \<and> set cs' = set cs - {c} \<and>
      Suc (length cs') = length cs"
proof -
  show "c \<notin> set cs \<Longrightarrow> find_and_remove (\<lambda>x. x = c) cs = None" by (auto simp: find_and_remove_None)
  assume "c \<in> set cs"
  then have "position (\<lambda>x. x = c) cs \<noteq> None" by (simp add: position_None_iff)
  then obtain i where i: "position (\<lambda>x. x = c) cs = Some i" by blast
  then have n: "i < length cs" "cs ! i = c" by (simp_all add: position_Some_iff)
  have "find_and_remove (\<lambda>x. x = c) cs = Some (c, swap_remove i cs)" using i n by (simp add: find_and_remove_def)
  moreover have "Suc (length (swap_remove i cs)) = length cs" using n(1) by simp
  ultimately show "\<exists>cs'. find_and_remove (\<lambda>x. x = c) cs = Some (c, cs') \<and> distinct cs' \<and> set cs' = set cs - {c} \<and>
      Suc (length cs') = length cs"
    using distinct_swap_remove [OF assms n(1)] n(2) by blast
qed

lemma counts_other_call:
  assumes "c \<notin> fst ` set (answers evs)"
  shows "confirming response (C - {c}) evs = confirming response C evs"
    and "opposing response (C - {c}) evs = opposing response C evs"
proof -
  have "confirms response (C - {c}) ev = confirms response C ev \<and> opposes response (C - {c}) ev = opposes response C ev"
    if "ev \<in> set evs" for ev
  proof (cases ev)
    case (Response p d r)
    then have "(d, p) \<in> set (answers evs)" using that by (force simp: answers_def)
    then have "d \<noteq> c" using assms by force
    then show ?thesis using Response by (simp add: confirms_def opposes_def split: sum.splits)
  qed (simp add: confirms_def opposes_def)
  then show "confirming response (C - {c}) evs = confirming response C evs"
    and "opposing response (C - {c}) evs = opposing response C evs"
    by (simp_all add: confirming_def opposing_def cong: filter_cong)
qed

lemma opposing_bound:
  assumes "distinct (map fst (answers evs))" and "finite C"
  shows "confirming response C evs + opposing response C evs \<le> card C"
  using assms
proof (induction evs arbitrary: C)
  case (Cons ev evs)
  show ?case
  proof (cases ev)
    case (Response p c r)
    then have c: "c \<notin> fst ` set (answers evs)" and d: "distinct (map fst (answers evs))"
      using Cons.prems(1) by (auto simp: answers_def)
    show ?thesis
    proof (cases "c \<in> C")
      case True
      have "confirming response (C - {c}) evs + opposing response (C - {c}) evs \<le> card (C - {c})"
        using Cons.IH [OF d] Cons.prems(2) by simp
      then have "Suc (confirming response C evs + opposing response C evs) \<le> card C"
        using counts_other_call [OF c] True Cons.prems(2) card_Suc_Diff1 [OF Cons.prems(2) True] by simp
      then show ?thesis using Response True
        by (cases r) (auto simp: confirming_def opposing_def confirms_def opposes_def)
    next
      case False
      then show ?thesis using Response Cons.IH [OF d Cons.prems(2)]
        by (cases r) (auto simp: confirming_def opposing_def confirms_def opposes_def)
    qed
  next
    case Request
    then show ?thesis using Cons.IH [of C] Cons.prems
      by (simp add: confirming_def opposing_def confirms_def opposes_def answers_def)
  qed
qed (simp add: confirming_def opposing_def)

text \<open>The answer after \<open>yes\<close> confirmations and \<open>no\<close> objections among \<open>asked\<close> asked replicators.\<close>

definition repl_verdict :: "bytes \<Rightarrow> 'r \<Rightarrow> nat \<Rightarrow> nat \<Rightarrow> nat \<Rightarrow> call list \<Rightarrow> ('h repl, 'e repl_error, 'r) handler_result" where
  "repl_verdict response r0 asked yes no on =
     (if 3 \<le> yes then Inr (Inr r0)
      else if asked < no + 2 then Inr (Inl NoMajority)
      else Inl (Replicating response on yes))"

lemma repl_resume_vote:
  assumes "decode_result (dec_resp P) (dec_err P) response = Some (Inr r0, rest)"
    and "find_and_remove (\<lambda>x. x = c) ongoing = Some (c, on)" and "m \<le> 2" and "2 \<le> Suc (length on) + m"
  shows "repl_resume env P H (Replicating response ongoing m) sc (Response p c (Inr response)) cx =
      Done (if m = 2 then Inr (Inr r0) else Inl (Replicating response on (Suc m)), cx)"
    and "res \<noteq> Inr response \<Longrightarrow> repl_resume env P H (Replicating response ongoing m) sc (Response p c res) cx =
      Done (if length on + m < 2 then Inr (Inl NoMajority) else Inl (Replicating response on m), cx)"
  using assms by (auto simp: repl_resume_def REPLICATION_FACTOR_def split: sum.splits)

lemma count_vote:
  assumes "c \<in> C"
  shows "confirming response C (Response p c (Inr response) # evs) = Suc (confirming response C evs)"
    and "opposing response C (Response p c (Inr response) # evs) = opposing response C evs"
    and "res \<noteq> Inr response \<Longrightarrow> confirming response C (Response p c res # evs) = confirming response C evs"
    and "res \<noteq> Inr response \<Longrightarrow> opposing response C (Response p c res # evs) = Suc (opposing response C evs)"
  using assms by (auto simp: confirming_def opposing_def confirms_def opposes_def split: sum.splits)

lemma repl_wait_skip:
  assumes "c \<notin> set ongoing"
  shows "repl_wait env P H sc (Replicating response ongoing m) (Response p c res # evs) cx =
      repl_wait env P H sc (Replicating response ongoing m) evs cx"
    and "confirming response (set ongoing) (Response p c res # evs) = confirming response (set ongoing) evs"
    and "opposing response (set ongoing) (Response p c res # evs) = opposing response (set ongoing) evs"
proof -
  have "find_and_remove (\<lambda>x. x = c) ongoing = None" using assms by (auto simp: find_and_remove_None)
  then show "repl_wait env P H sc (Replicating response ongoing m) (Response p c res # evs) cx =
      repl_wait env P H sc (Replicating response ongoing m) evs cx" by (simp add: repl_resume_def)
qed (use assms in \<open>auto simp: confirming_def opposing_def confirms_def opposes_def split: sum.splits\<close>)

lemma repl_wait_request:
  "repl_wait env P H sc (Replicating response ongoing m) (Rpc.Request p c b # evs) cx =
     repl_wait env P H sc (Replicating response ongoing m) evs cx"
  "confirming response C (Rpc.Request p c b # evs) = confirming response C evs"
  "opposing response C (Rpc.Request p c b # evs) = opposing response C evs"
  by (simp_all add: repl_resume_def confirming_def opposing_def confirms_def opposes_def)

lemma repl_wait_verdict:
  assumes dec: "decode_result (dec_resp P) (dec_err P) response = Some (Inr r0, rest)"
    and "distinct ongoing" and "distinct (map fst (answers evs))" and "m \<le> 2" and "2 \<le> length ongoing + m"
  shows "\<exists>on. repl_wait env P H sc (Replicating response ongoing m) evs cx =
    Done (repl_verdict response r0 (length ongoing + m) (m + confirming response (set ongoing) evs)
      (opposing response (set ongoing) evs) on, cx)"
  using assms(2-5)
proof (induction evs arbitrary: ongoing m)
  case Nil
  then show ?case by (auto simp: repl_verdict_def confirming_def opposing_def)
next
  case (Cons ev evs)
  have d: "distinct (map fst (answers evs))" using Cons.prems(2) by (cases ev) (auto simp: answers_def)
  note IH = Cons.IH [OF Cons.prems(1) d Cons.prems(3,4)]
  show ?case
  proof (cases ev)
    case (Request p c b)
    then show ?thesis using IH by (simp only: repl_wait_request)
  next
    case (Response p c res)
    show ?thesis
    proof (cases "c \<in> set ongoing")
      case False
      then show ?thesis using IH Response by (simp only: repl_wait_skip [OF False])
    next
      case True
      obtain on where on: "find_and_remove (\<lambda>x. x = c) ongoing = Some (c, on)" "distinct on" "set on = set ongoing - {c}"
        "Suc (length on) = length ongoing"
        using find_and_remove_call(2) [OF Cons.prems(1) True] by blast
      have c: "c \<notin> fst ` set (answers evs)" using Cons.prems(2) Response by (auto simp: answers_def)
      note cnt = counts_other_call [OF c, of response "set ongoing", folded on(3)]
      note vote = repl_resume_vote [OF dec on(1) Cons.prems(3), where env = env and H = H and sc = sc and p = p and cx = cx]
      have bound: "confirming response (set on) evs + opposing response (set on) evs \<le> length on"
        using opposing_bound [OF d, of "set on" response] on(2) by (simp add: distinct_card)
      show ?thesis
      proof (cases "res = Inr response")
        case yes: True
        show ?thesis
        proof (cases "m = 2")
          case m: True
          then show ?thesis using Response yes vote(1) on(4) by (simp add: count_vote [OF True] repl_verdict_def)
        next
          case False
          then have "Suc m \<le> 2" using Cons.prems(3) by simp
          then obtain on' where "repl_wait env P H sc (Replicating response on (Suc m)) evs cx =
            Done (repl_verdict response r0 (length on + Suc m) (Suc m + confirming response (set on) evs)
              (opposing response (set on) evs) on', cx)"
            using Cons.IH [OF on(2) d, of "Suc m"] on(4) Cons.prems(4) by auto
          moreover have "repl_wait env P H sc (Replicating response ongoing m) (ev # evs) cx =
            repl_wait env P H sc (Replicating response on (Suc m)) evs cx"
            using Response yes False vote(1) on(4) Cons.prems(4) by simp
          moreover have "length on + Suc m = length ongoing + m" using on(4) by simp
          moreover have "Suc m + confirming response (set on) evs = m + confirming response (set ongoing) (ev # evs)"
            "opposing response (set on) evs = opposing response (set ongoing) (ev # evs)"
            using Response yes cnt by (simp_all add: count_vote [OF True])
          ultimately show ?thesis by metis
        qed
      next
        case no: False
        show ?thesis
        proof (cases "length on + m < 2")
          case less: True
          then show ?thesis using Response no vote(2) [OF _ no] on(4) Cons.prems(4) bound cnt
            by (auto simp: count_vote [OF True] repl_verdict_def)
        next
          case False
          then obtain on' where "repl_wait env P H sc (Replicating response on m) evs cx =
            Done (repl_verdict response r0 (length on + m) (m + confirming response (set on) evs)
              (opposing response (set on) evs) on', cx)"
            using Cons.IH [OF on(2) d Cons.prems(3)] by auto
          moreover have "repl_wait env P H sc (Replicating response ongoing m) (ev # evs) cx =
            repl_wait env P H sc (Replicating response on m) evs cx"
            using Response no False vote(2) [OF _ no] on(4) Cons.prems(4) by simp
          moreover have "m + confirming response (set on) evs = m + confirming response (set ongoing) (ev # evs)"
            "Suc (opposing response (set on) evs) = opposing response (set ongoing) (ev # evs)"
            using Response no cnt by (simp_all add: count_vote [OF True])
          ultimately show ?thesis using on(4) by (intro exI [of _ on']) (simp add: repl_verdict_def)
        qed
      qed
    qed
  qed
qed

subsection \<open>The calls of a replicated request\<close>

lemma rpc_request_call:
  assumes "rpc_request fits p packet b = (res, b')"
  shows "next_call b' = Suc (next_call b)" and "res = Inr c \<Longrightarrow> c = next_call b"
  using assms by (auto simp: rpc_request_def Let_def split: option.splits sum.splits if_splits)

lemma request_all_run:
  "request_all fits packet ps b = (cs, b') \<Longrightarrow> rpc_run fits (map (\<lambda>p. RRequest p packet) ps) b = ([], b')"
  by (induction ps arbitrary: b cs) (auto split: prod.splits sum.splits)

lemma request_all_calls:
  "request_all fits packet ps b = (cs, b') \<Longrightarrow>
   distinct cs \<and> set cs \<subseteq> {next_call b..<next_call b + length ps}"
proof (induction ps arbitrary: b cs)
  case (Cons p ps)
  obtain res b1 where r: "rpc_request fits p packet b = (res, b1)" by force
  obtain cs1 where c: "request_all fits packet ps b1 = (cs1, b')" "cs = (case res of Inr c \<Rightarrow> c # cs1 | Inl _ \<Rightarrow> cs1)"
    using Cons.prems r by (auto split: prod.splits sum.splits)
  have "distinct cs1 \<and> set cs1 \<subseteq> {Suc (next_call b)..<Suc (next_call b) + length ps}"
    using Cons.IH [OF c(1)] rpc_request_call(1) [OF r] by simp
  then show ?case using c(2) rpc_request_call(2) [OF r] by (cases res) auto
qed simp

lemma reqs_of_requests: "reqs_of (map (\<lambda>p. RRequest p packet) ps) = ps"
  by (induction ps) (simp_all add: reqs_of_def)

lemma answers_filter: "set (answers (filter P evs)) \<subseteq> set (answers evs)"
  by (auto simp: answers_def)

lemma distinct_answers_filter:
  "distinct (map fst (answers evs)) \<Longrightarrow> distinct (map fst (answers (filter P evs)))"
proof (induction evs)
  case (Cons ev evs)
  have "answers (ev # evs) = answers [ev] @ answers evs" "answers (filter P (ev # evs)) = (if P ev then answers [ev] else []) @ answers (filter P evs)"
    by (simp_all add: answers_def)
  moreover have "fst ` set (answers (filter P evs)) \<subseteq> fst ` set (answers evs)" using answers_filter by blast
  ultimately show ?case using Cons by (auto simp del: filter.simps)
qed (simp add: answers_def)

lemma length_confirming: "confirming response C evs = length (answers (filter (confirms response C) evs))"
  by (induction evs) (auto simp: confirming_def answers_def confirms_def split: Rpc.rpc_event.splits)

text \<open>Confirmations of calls to distinct peers come from as many peers.\<close>

lemma confirming_peers:
  assumes run: "rpc_run fits before rpc_init = (evs0, b0)" and req: "request_all fits packet others b0 = (calls, b1)"
    and after: "rpc_run fits after b1 = (evs, b)" and "distinct others"
  shows "distinct calls" and "distinct (map fst (answers evs))"
    and "k \<le> confirming response (set calls) evs \<Longrightarrow>
      \<exists>S\<subseteq>set others. card S = k \<and> (\<forall>p\<in>S. \<exists>c\<in>set calls. Response p c (Inr response) \<in> set evs)"
proof -
  have ok0: "rpc_ok (reqs_of before) b0" using rpc_run_answers [OF rpc_ok_init run] by simp
  have ok1: "rpc_ok (reqs_of before @ others) b1"
    using rpc_run_answers [OF ok0 request_all_run [OF req]] by (simp only: reqs_of_requests)
  note ans = rpc_run_answers [OF ok1 after]
  have n: "next_call b0 = length (reqs_of before)" using ok0 by (simp add: rpc_ok_def)
  have calls: "distinct calls" "set calls \<subseteq> {next_call b0..<next_call b0 + length others}"
    using request_all_calls [OF req] by auto
  then show "distinct calls" by simp
  show dist: "distinct (map fst (answers evs))" using ans by simp
  let ?A = "answers (filter (confirms response (set calls)) evs)"
  have A: "next_call b0 \<le> fst w \<and> fst w - next_call b0 < length others \<and> others ! (fst w - next_call b0) = snd w \<and> fst w \<in> set calls \<and> Response (snd w) (fst w) (Inr response) \<in> set evs"
    if w: "w \<in> set ?A" for w
  proof -
    obtain r where "Response (snd w) (fst w) r \<in> set (filter (confirms response (set calls)) evs)"
      using answers_mem [of "fst w" "snd w"] w by (metis prod.collapse)
    then have "fst w \<in> set calls" "Response (snd w) (fst w) (Inr response) \<in> set evs"
      by (auto simp: confirms_def split: sum.splits)
    moreover have "w \<in> set (answers evs)" using w answers_filter by blast
    then have "((reqs_of before @ others) @ reqs_of after) ! fst w = snd w" using ans by blast
    moreover have lt: "next_call b0 \<le> fst w" "fst w < next_call b0 + length others" using calls(2) \<open>fst w \<in> set calls\<close> by auto
    moreover have "fst w - next_call b0 < length others" using lt by simp
    ultimately show ?thesis unfolding n by (simp add: nth_append)
  qed
  assume k: "k \<le> confirming response (set calls) evs"
  have "distinct (map snd ?A)"
  proof (rule distinct_map [THEN iffD2], intro conjI inj_onI)
    show "distinct ?A" using distinct_answers_filter [OF dist] by (metis distinct_map)
    fix v w assume v: "v \<in> set ?A" "w \<in> set ?A" "snd v = snd w"
    have "others ! (fst v - next_call b0) = others ! (fst w - next_call b0)"
      and "fst v - next_call b0 < length others" "fst w - next_call b0 < length others"
      and "next_call b0 \<le> fst v" "next_call b0 \<le> fst w"
      using A [OF v(1)] A [OF v(2)] v(3) by simp_all
    then have "fst v = fst w" using \<open>distinct others\<close> by (simp add: nth_eq_iff_index_eq)
    then show "v = w" using v(3) by (simp add: prod_eq_iff)
  qed
  then have "k \<le> card (snd ` set ?A)" using k distinct_card [of "map snd ?A"] by (simp add: length_confirming)
  then obtain S where S: "S \<subseteq> snd ` set ?A" "card S = k" by (meson obtain_subset_with_card_n)
  have "S \<subseteq> set others"
  proof
    fix p assume "p \<in> S"
    then obtain w where w: "w \<in> set ?A" "p = snd w" using S(1) by blast
    then show "p \<in> set others" using A [OF w(1)] nth_mem by metis
  qed
  then show "\<exists>S\<subseteq>set others. card S = k \<and> (\<forall>p\<in>S. \<exists>c\<in>set calls. Response p c (Inr response) \<in> set evs)"
    using S A by (intro exI [of _ S]) blast
qed

lemma run_map_DoneD: "run_map f xs = Done ys \<Longrightarrow> map f xs = map Done ys"
  by (induction xs arbitrary: ys) (auto simp: run_simps)

definition peers_identified :: "'peer peer_env \<Rightarrow> bool" where
  "peers_identified env \<longleftrightarrow> inj_on (pe_peer_id env) {k. pe_peer_id env k \<noteq> None}"

lemma other_replicators_distinct:
  assumes "table_ok t" and "peers_identified env" and "other_replicators_for env t topic us = Done ps"
  shows "distinct ps"
proof -
  let ?near = "take (REPLICATION_FACTOR + 1) (closest env t topic)"
  obtain qs where qs: "run_map (route_peer_id env) ?near = Done qs" "ps = filter (\<lambda>p. p \<noteq> us) qs"
    using assms(3) by (auto simp: other_replicators_for_def replicators_for_def run_simps)
  have "mset (closest env t topic) = mset t" unfolding closest_def by (rule closest_low_order [OF assms(1)])
  moreover have "distinct (map route_id t)" using assms(1) by (simp add: table_ok_def strict_sorted_iff)
  ultimately have "distinct (map route_id (closest env t topic))" by (metis mset_eq_imp_distinct_iff mset_map)
  then have near: "distinct (map route_id ?near)" using distinct_take by (simp add: take_map [symmetric])
  have "map (\<lambda>r. pe_peer_id env (route_id r)) xs = map Some ys" if "map (route_peer_id env) xs = map Done ys" for xs ys
    using that by (induction xs arbitrary: ys) (auto simp: route_peer_id_def run_simps map_eq_Cons_conv)
  from this [OF run_map_DoneD [OF qs(1)]] have "map (\<lambda>r. pe_peer_id env (route_id r)) ?near = map Some qs" .
  then have eq: "map (pe_peer_id env) (map route_id ?near) = map Some qs" by (simp add: comp_def)
  then have "pe_peer_id env ` set (map route_id ?near) = Some ` set qs" by (metis set_map)
  then have "set (map route_id ?near) \<subseteq> {k. pe_peer_id env k \<noteq> None}" by auto
  then have "inj_on (pe_peer_id env) (set (map route_id ?near))"
    using assms(2) unfolding peers_identified_def by (rule inj_on_subset [rotated])
  then have "distinct (map (pe_peer_id env) (map route_id ?near))" using near by (simp only: distinct_map simp_thms)
  then have "distinct qs" unfolding eq by (simp add: distinct_map)
  then show ?thesis using qs(2) by simp
qed

lemma repl_execute_cases:
  assumes "h_execute H sc req cx = Done (Inr (Inr r0), cx0)" and "repl_execute env P H sc req cx = Done (Inl h, cx1)"
  obtains others calls b1 where
    "other_replicators_for (ne_peers env) (cx_table cx0) (topic_as_bytes (pt_topic P req)) (cx_us cx0) = Done others"
    and "request_all (ne_fits env) (pt_prefix P # enc_req P req) others (cx_rpc cx0) = (calls, b1)"
    and "length calls \<le> REPLICATION_FACTOR" and "h = Replicating (ok_bytes P r0) calls 0" and "cx1 = cx0\<lparr>cx_rpc := b1\<rparr>"
proof -
  obtain cs where n: "ask_replicators env (pt_prefix P # enc_req P req) (pt_topic P req) cx0 = Done (cs, cx1)"
    "h = Replicating (ok_bytes P r0) cs 0"
    using assms by (auto simp: repl_execute_def repl_continue_def new_replicating_def Let_def run_simps split: if_splits)
  obtain others where o: "other_replicators_for (ne_peers env) (cx_table cx0) (topic_as_bytes (pt_topic P req)) (cx_us cx0) = Done others"
    using n(1) by (auto simp: ask_replicators_def run_simps)
  obtain calls b1 where r: "request_all (ne_fits env) (pt_prefix P # enc_req P req) others (cx_rpc cx0) = (calls, b1)" by force
  from n(1) o r have "calls = cs" "length calls \<le> REPLICATION_FACTOR" "cx1 = cx0\<lparr>cx_rpc := b1\<rparr>"
    by (auto simp: ask_replicators_def run_simps)
  with n(2) o r show thesis by (intro that) auto
qed

lemma decode_ok_bytes:
  "dec_resp P (enc_resp P r) = Some (r, rest) \<Longrightarrow>
   decode_result (dec_resp P) (dec_err P) (ok_bytes P r) = Some (Inr r, rest)"
  by (simp add: ok_bytes_def result_bytes_def decode_result_def)

lemma repl_wait_small:
  assumes "length ongoing \<le> 1"
  shows "repl_wait env P H sc (Replicating response ongoing 0) evs cx = Done (Inl (Replicating response ongoing 0), cx) \<or>
    repl_wait env P H sc (Replicating response ongoing 0) evs cx = Done (Inr (Inl NoMajority), cx)"
proof (induction evs)
  case (Cons ev evs)
  show ?case
  proof (cases "\<exists>p c res. ev = Response p c res \<and> c \<in> set ongoing")
    case True
    then obtain p c res where ev: "ev = Response p c res" "ongoing = [c]" using assms by (cases ongoing) auto
    then show ?thesis
      by (simp add: repl_resume_def find_and_remove_def swap_remove_def REPLICATION_FACTOR_def split: sum.splits)
  next
    case False
    then show ?thesis using Cons
    proof (cases ev)
      case (Response p c res)
      then have "c \<notin> set ongoing" using False by simp
      then show ?thesis using Cons unfolding Response repl_wait_skip [OF \<open>c \<notin> set ongoing\<close>] by simp
    qed (simp only: repl_wait_request)
  qed
qed simp

subsection \<open>Properties\<close>

definition demo_net :: "u256 net_env" where
  "demo_net = \<lparr>ne_peers = small_env, ne_fits = (\<lambda>_ _. True)\<rparr>"

definition demo_protocol :: "(unit, unit, u8) protocol" where
  "demo_protocol = \<lparr>pt_prefix = 8, pt_topic = (\<lambda>_. TProfile [42]), enc_req = (\<lambda>_. []), dec_req = (\<lambda>bs. Some ((), bs)),
     enc_resp = (\<lambda>r. [r]), dec_resp = (\<lambda>bs. case bs of [] \<Rightarrow> None | b # bs \<Rightarrow> Some (b, bs)), dec_err = (\<lambda>_. None)\<rparr>"

definition demo_handler :: "(nat, u256, nat, unit, unit, nat, unit, unit, unit, u8) handler" where
  "demo_handler = \<lparr>h_execute = (\<lambda>sc req cx. Done (Inr (Inr 7), cx)), h_resume = (\<lambda>h sc ev cx. Done (Inl h, cx))\<rparr>"

definition demo_scope :: "(nat, u256) scope" where
  "demo_scope = \<lparr>sc_origin = Client 1, sc_call = 0, sc_prefix = 8\<rparr>"

text \<open>Streams of four peers were accepted.\<close>

definition demo_before :: "(u256, nat, unit, unit) rpc_input list" where
  "demo_before = concat (map (\<lambda>p. [RSwarm (InHandler p (Inr ())), RPoll 0]) [9, 5, 1, - 3])"

definition demo_cx :: "(nat, u256, nat, unit, unit, nat) server_cx" where
  "demo_cx = \<lparr>cx_table = small_table, cx_us = 40, cx_rpc = snd (rpc_run (\<lambda>_ _. True) demo_before rpc_init),
     cx_profiles = \<lparr>profiles = Map.empty, online = Map.empty, clients = []\<rparr>, cx_chats = \<lparr>chats = Map.empty, hashes = []\<rparr>\<rparr>"

definition demo_after :: "(u256, nat, unit, unit) rpc_input list" where
  "demo_after = [RItem 3 (Inr (0, [1, 7], False)), RItem 2 (Inr (1, [1, 7], False)), RItem 0 (Inr (3, [1, 8], False)),
     RItem 1 (Inr (2, [1, 7], False))]"

lemma demo_before_runs: "\<exists>b. rpc_run (\<lambda>_ _. True) demo_before (rpc_init :: (u256, nat, unit, unit) rpc) = ([], b)"
proof -
  have "fst (rpc_run (\<lambda>_ _. True) demo_before (rpc_init :: (u256, nat, unit, unit) rpc)) = []" by code_simp
  then show ?thesis by (metis prod.collapse)
qed

text \<open>C15: The verdict on a replicated request: when at least two other replicators were asked, the answer is the
  response of this server if three of them confirmed it, \<open>NoMajority\<close> if so many objected that fewer than two are left,
  and otherwise the request goes on waiting. With four replicators, two confirmations and two objections are never
  answered.\<close>
theorem replication_verdict:
  assumes "dec_resp P (enc_resp P r0) = Some (r0, rest)" and "distinct calls" and "2 \<le> length calls"
    and "distinct (map fst (answers evs))"
  shows "\<exists>on. repl_wait env P H sc (Replicating (ok_bytes P r0) calls 0) evs cx =
    Done (if 3 \<le> confirming (ok_bytes P r0) (set calls) evs then Inr (Inr r0)
          else if length calls < opposing (ok_bytes P r0) (set calls) evs + 2 then Inr (Inl NoMajority)
          else Inl (Replicating (ok_bytes P r0) on (confirming (ok_bytes P r0) (set calls) evs)), cx)"
  using repl_wait_verdict [OF decode_ok_bytes [OF assms(1)] assms(2,4), of 0 env H sc cx] assms(3)
  by (simp only: repl_verdict_def add_0_right add_0_left le0)

text \<open>C14: A replicated answer is backed by a majority: when a request that this server answered with \<open>r0\<close> completes,
  the client gets \<open>r0\<close>, and then three of the other replicators that the routing table names for the topic have
  returned the very bytes of this answer; or it gets \<open>NoMajority\<close>. The responses come from any run of the remote calls.\<close>
theorem replicated_answer_safe:
  assumes "rpc_run (ne_fits env) before rpc_init = (evs0, cx_rpc cx0)"
    and "h_execute H sc req cx = Done (Inr (Inr r0), cx0)" and "repl_execute env P H sc req cx = Done (Inl h, cx1)"
    and "rpc_run (ne_fits env) after (cx_rpc cx1) = (evs, b)" and "repl_wait env P H sc h evs cx2 = Done (Inr ans, cx3)"
    and "dec_resp P (enc_resp P r0) = Some (r0, rest)"
    and "table_ok (cx_table cx0)" and "peers_identified (ne_peers env)"
  shows "ans = Inl NoMajority \<or> (ans = Inr r0 \<and> (\<exists>others S.
    other_replicators_for (ne_peers env) (cx_table cx0) (topic_as_bytes (pt_topic P req)) (cx_us cx0) = Done others \<and>
    S \<subseteq> set others \<and> card S = 3 \<and> (\<forall>p\<in>S. \<exists>c. Response p c (Inr (ok_bytes P r0)) \<in> set evs)))"
proof -
  obtain others calls b1 where o: "other_replicators_for (ne_peers env) (cx_table cx0)
      (topic_as_bytes (pt_topic P req)) (cx_us cx0) = Done others"
    "request_all (ne_fits env) (pt_prefix P # enc_req P req) others (cx_rpc cx0) = (calls, b1)"
    "h = Replicating (ok_bytes P r0) calls 0" "cx1 = cx0\<lparr>cx_rpc := b1\<rparr>"
    using assms(2,3) by (rule repl_execute_cases)
  have after: "rpc_run (ne_fits env) after b1 = (evs, b)" using assms(4) o(4) by simp
  note c = confirming_peers [OF assms(1) o(2) after other_replicators_distinct [OF assms(7,8) o(1)]]
  show ?thesis
  proof (cases "length calls \<le> 1")
    case True
    then show ?thesis using repl_wait_small [OF True, of env P H sc "ok_bytes P r0" evs cx2] assms(5) o(3) by auto
  next
    case False
    obtain on where "repl_wait env P H sc h evs cx2 = Done (repl_verdict (ok_bytes P r0) r0 (length calls)
        (confirming (ok_bytes P r0) (set calls) evs) (opposing (ok_bytes P r0) (set calls) evs) on, cx2)"
      using repl_wait_verdict [OF decode_ok_bytes [OF assms(6)] c(1,2), of 0 env H sc cx2] False o(3) by auto
    then show ?thesis using assms(5) c(3) [of 3 "ok_bytes P r0"] o(1)
      by (fastforce simp: repl_verdict_def split: if_splits)
  qed
qed

theorem replication_verdict_witness:
  "\<exists>on. repl_wait demo_net demo_protocol demo_handler demo_scope (Replicating [1, 7] [0, 1, 2, 3] 0)
      [Response 9 0 (Inr [1, 7]), Response 5 1 (Inr [1, 8]), Response 1 2 (Inr [1, 7]), Response (- 3) 3 (Inr [])] demo_cx =
    Done (Inl (Replicating [1, 7] on 2), demo_cx)"
proof -
  have d: "dec_resp demo_protocol (enc_resp demo_protocol 7) = Some (7, [])" by (simp add: demo_protocol_def)
  have b: "ok_bytes demo_protocol 7 = [1, 7]" by (simp add: ok_bytes_def result_bytes_def demo_protocol_def)
  show ?thesis
    using replication_verdict [OF d, of "[0, 1, 2, 3]" "[Response 9 0 (Inr [1, 7]), Response 5 1 (Inr [1, 8]),
        Response 1 2 (Inr [1, 7]), Response (- 3) 3 (Inr [])]" demo_net demo_handler demo_scope demo_cx]
    by (simp add: b answers_def confirming_def opposing_def confirms_def opposes_def numeral_2_eq_2 [symmetric]
        del: repl_wait.simps)
qed

theorem replicated_answer_safe_witness:
  "\<exists>others S. other_replicators_for small_env small_table [42] 40 = Done others \<and> S \<subseteq> set others \<and> card S = 3 \<and>
     S \<subseteq> {9, 5, 1}"
proof -
  define after where "after = fst (rpc_run (\<lambda>_ _. True) demo_after
    (cx_rpc (case repl_execute demo_net demo_protocol demo_handler demo_scope () demo_cx of Done (_, cx1) \<Rightarrow> cx1 | Panic \<Rightarrow> demo_cx)))"
  have after: "after = [Response 9 0 (Inr [1, 7]), Response 5 1 (Inr [1, 7]), Response (- 3) 3 (Inr [1, 8]), Response 1 2 (Inr [1, 7])]"
    unfolding after_def by code_simp
  have "case repl_execute demo_net demo_protocol demo_handler demo_scope () demo_cx of
      Done (Inl h, cx1) \<Rightarrow> h = Replicating [1, 7] [0, 1, 2, 3] 0 | _ \<Rightarrow> False" by code_simp
  then obtain cx1 where ex: "repl_execute demo_net demo_protocol demo_handler demo_scope () demo_cx =
      Done (Inl (Replicating [1, 7] [0, 1, 2, 3] 0), cx1)"
    by (auto split: run.splits prod.splits sum.splits)
  define b where "b = snd (rpc_run (\<lambda>_ _. True) demo_after (cx_rpc cx1))"
  have run: "rpc_run (ne_fits demo_net) demo_after (cx_rpc cx1) = (after, b)"
    unfolding after_def b_def ex by (simp add: demo_net_def)
  obtain b0 where b0: "rpc_run (\<lambda>_ _. True) demo_before (rpc_init :: (u256, nat, unit, unit) rpc) = ([], b0)"
    using demo_before_runs by blast
  have before: "rpc_run (ne_fits demo_net) demo_before rpc_init = ([], cx_rpc demo_cx)"
    by (simp add: demo_net_def demo_cx_def b0)
  have h: "h_execute demo_handler demo_scope () demo_cx = Done (Inr (Inr 7), demo_cx)" by (simp add: demo_handler_def)
  have d: "dec_resp demo_protocol (enc_resp demo_protocol 7) = Some (7, [])" by (simp add: demo_protocol_def)
  have w: "repl_wait demo_net demo_protocol demo_handler demo_scope (Replicating [1, 7] [0, 1, 2, 3] 0) after demo_cx =
      Done (Inr (Inr 7), demo_cx)"
    by (simp add: after repl_resume_def find_and_remove_def swap_remove_def REPLICATION_FACTOR_def demo_protocol_def decode_result_def)
  have t: "cx_table demo_cx = small_table" "cx_us demo_cx = 40" "ne_peers demo_net = small_env"
    "topic_as_bytes (pt_topic demo_protocol ()) = [42]" "ok_bytes demo_protocol 7 = [1, 7]"
    by (simp_all add: demo_cx_def demo_net_def demo_protocol_def topic_as_bytes_def ok_bytes_def result_bytes_def)
  have "peers_identified small_env" by (simp add: peers_identified_def small_env_def)
  note r = replicated_answer_safe [OF before h ex run w d, unfolded t, OF table_ok_small this]
  then obtain others S where "other_replicators_for small_env small_table [42] 40 = Done others" "S \<subseteq> set others" "card S = 3"
    and S: "\<forall>p\<in>S. \<exists>c. Response p c (Inr [1, 7]) \<in> set after" by auto
  moreover have "S \<subseteq> {9, 5, 1}" using S by (auto simp: after)
  ultimately show ?thesis by blast
qed

end
