(* ===== verification/Retry.thy ===== *)
theory Retry
  imports Replication
begin

section \<open>Retried requests (\<open>nodes/server/src/handlers/retry.rs\<close>)\<close>

text \<open>
  \<open>Retry\<close> runs its handler when the profile or the chat of the request is stored here; otherwise it asks
  the other replicators for it first, and runs the handler when all have answered. The crypto library, the
  signature check and the sizes of the keys come in a record.
\<close>

record 'peer retry_env =
  re_net :: "'peer net_env"
  re_lib :: crypto_lib
  re_verify :: verifier
  re_sign_size :: nat
  re_enc_size :: nat
  re_sig_size :: nat

definition compute_message_owerflow_tolerance :: "nat \<Rightarrow> nat" where
  "compute_message_owerflow_tolerance median = max (min (median div 8) 10) 2"

record restoring =
  rt_topic :: possible_topic
  rt_pending :: "call list"
  rt_request :: bytes
  rt_messages :: bytes
  rt_block_data :: "(block_number \<times> nat) list"

datatype 'h retry = Handling 'h possible_topic | Restoring restoring

datatype 'e not_found_error = NFNotFound | NFInner 'e

text \<open>The codec of \<open>NotFoundError\<close>: decoding expects a tag before an inner error, encoding writes none.\<close>

definition encode_not_found :: "('b buffer_ops \<Rightarrow> 'e \<Rightarrow> 'b \<Rightarrow> bool \<times> 'b) \<Rightarrow> 'b buffer_ops \<Rightarrow> 'e not_found_error \<Rightarrow> 'b \<Rightarrow> bool \<times> 'b" where
  "encode_not_found enc ops x = (case x of NFNotFound \<Rightarrow> push ops 0 | NFInner e \<Rightarrow> enc ops e)"

definition decode_not_found :: "(bytes \<Rightarrow> ('e \<times> bytes) option) \<Rightarrow> bytes \<Rightarrow> ('e not_found_error \<times> bytes) option" where
  "decode_not_found dec bs =
     (case bs of
        [] \<Rightarrow> None
      | b # bs \<Rightarrow> if b = 0 then Some (NFNotFound, bs) else map_option (apfst NFInner) (dec bs))"

subsection \<open>Asking for what is missing\<close>

definition FETCH_LATEST_BLOCK_PREFIX :: u8 where
  "FETCH_LATEST_BLOCK_PREFIX = 6"

definition FETCH_FULL_PROFILE_PREFIX :: u8 where
  "FETCH_FULL_PROFILE_PREFIX = 13"

text \<open>The packet: the request encoded into a zeroed array of 34 bytes, sent whole.\<close>

definition restore_packet :: "possible_topic \<Rightarrow> bytes run" where
  "restore_packet topic =
     (case (case topic of
              TProfile i \<Rightarrow> seq_enc (encode_u8 slice_ops FETCH_FULL_PROFILE_PREFIX) (encode_array encode_u8 slice_ops i)
            | TChat name \<Rightarrow> seq_enc (encode_u8 slice_ops FETCH_LATEST_BLOCK_PREFIX) (encode_str slice_ops name))
            \<lparr>sl_written = [], sl_free = replicate 34 0\<rparr> of
        (False, _) \<Rightarrow> Panic
      | (True, b) \<Rightarrow> Done (sl_written b @ sl_free b))"

definition stored_here :: "possible_topic \<Rightarrow> ('addr, 'peer, 'conn, 's, 'err, 'path) server_cx \<Rightarrow> bool" where
  "stored_here topic cx = (case topic of TProfile i \<Rightarrow> profiles (cx_profiles cx) i \<noteq> None | TChat n \<Rightarrow> chats (cx_chats cx) n \<noteq> None)"

definition retry_continue ::
  "possible_topic \<Rightarrow> ('h, 'e, 'r) handler_result \<times> 'cx \<Rightarrow> (('h retry, 'e not_found_error, 'r) handler_result \<times> 'cx) run" where
  "retry_continue topic x =
     (case x of (Inl h, cx) \<Rightarrow> Done (Inl (Handling h topic), cx) | (Inr r, cx) \<Rightarrow> Done (Inr (map_sum NFInner (\<lambda>r. r) r), cx))"

definition retry_execute ::
  "'peer retry_env \<Rightarrow> ('req, 'e, 'r) protocol \<Rightarrow> ('addr, 'peer, 'conn, 's, 'err, 'path, 'req, 'h, 'e, 'r) handler \<Rightarrow>
   ('path, 'peer) scope \<Rightarrow> 'req \<Rightarrow> ('addr, 'peer, 'conn, 's, 'err, 'path) server_cx \<Rightarrow>
   (('h retry, 'e not_found_error, 'r) handler_result \<times> ('addr, 'peer, 'conn, 's, 'err, 'path) server_cx) run" where
  "retry_execute env P H sc req cx =
     (let topic = pt_topic P req in
      run_bind (is_valid_topic (ne_peers (re_net env)) (cx_table cx) (topic_as_bytes topic) (cx_us cx)) (\<lambda>valid.
        if \<not> valid then Done (Inr (Inl NFNotFound), cx)
        else if stored_here topic cx then run_bind (h_execute H sc req cx) (retry_continue topic)
        else
          run_bind (restore_packet topic) (\<lambda>packet.
          run_bind (ask_replicators (re_net env) packet topic cx) (\<lambda>(pending, cx').
            Done (Inl (Restoring \<lparr>rt_topic = topic, rt_pending = pending, rt_request = enc_req P req, rt_messages = [],
              rt_block_data = []\<rparr>), cx')))))"

subsection \<open>What the replicators answered\<close>

definition decode_profile :: "'peer retry_env \<Rightarrow> bytes \<Rightarrow> (profile \<times> bytes) option" where
  "decode_profile env bs = do {
     (sgn, bs) \<leftarrow> decode_array (re_sign_size env) decode_u8 bs;
     (enc, bs) \<leftarrow> decode_array (re_enc_size env) decode_u8 bs;
     (sig, bs) \<leftarrow> decode_array (re_sig_size env) decode_u8 bs;
     (version, bs) \<leftarrow> decode_int bs;
     (act, bs) \<leftarrow> decode_int bs;
     (vlt, bs) \<leftarrow> decode_slice bs;
     (ml, bs) \<leftarrow> decode_slice bs;
     Some (\<lparr>pr_sign = sgn, pr_enc = enc, last_sig = sig, vault_version = version, mail_action = act, vault = vlt, mail = ml\<rparr>, bs)
   }"

definition restore_profile :: "'peer retry_env \<Rightarrow> identity \<Rightarrow> bytes \<Rightarrow> ('path, 'peer, call) profile_store \<Rightarrow>
    ('path, 'peer, call) profile_store" where
  "restore_profile env i resp s =
     (case decode_result (decode_profile env) (decode_enum [\<lambda>bs. Some (FPNotFound, bs)]) resp of
        Some (Inr p, _) \<Rightarrow>
          if hash_from_raw (re_lib env) (pr_sign p) \<noteq> i \<or> \<not> profile_is_valid (re_verify env) (re_lib env) p then s
          else (case profiles s i of
              Some existing \<Rightarrow> if vault_version p \<le> vault_version existing then s else put_profile i p s
            | None \<Rightarrow> put_profile i p s)
      | _ \<Rightarrow> s)"

definition decode_latest_block :: "bytes \<Rightarrow> ((fetch_latest_block_error + (block_number \<times> bytes)) \<times> bytes) option" where
  "decode_latest_block = decode_result (decode_pair decode_int decode_reminder) (decode_enum [\<lambda>bs. Some (FLChatNotFound, bs)])"

definition collect_block :: "bytes \<Rightarrow> restoring \<Rightarrow> restoring run" where
  "collect_block resp r =
     (case decode_latest_block resp of
        Some (Inr (number, current), _) \<Rightarrow>
          let messages = rt_messages r @ current in
          run_bind (run_assert (length (rt_block_data r) < REPLICATION_FACTOR)) (\<lambda>_.
            Done (r\<lparr>rt_messages := messages, rt_block_data := rt_block_data r @ [(number, length messages)]\<rparr>))
      | _ \<Rightarrow> Done r)"

text \<open>The hashes of the messages of each block, and the sorting of those near the median.\<close>

fun block_segments :: "bytes \<Rightarrow> nat \<Rightarrow> (block_number \<times> nat) list \<Rightarrow> bytes list" where
  "block_segments messages start [] = []"
| "block_segments messages start ((_, stop) # bs) = take (stop - start) (drop start messages) # block_segments messages stop bs"

fun message_ranges :: "nat \<Rightarrow> nat list \<Rightarrow> (nat \<times> nat) list" where
  "message_ranges start [] = []"
| "message_ranges start (n # ns) = (start, start + n) # message_ranges (start + n) ns"

fun sort_prefixes :: "bytes list \<Rightarrow> nat list \<Rightarrow> bytes list" where
  "sort_prefixes hs [] = hs"
| "sort_prefixes hs (n # ns) = (if n \<le> length hs then sort (take n hs) @ sort_prefixes (drop n hs) ns else hs)"

definition collect_hashes :: "crypto_lib \<Rightarrow> restoring \<Rightarrow> bytes list" where
  "collect_hashes L r =
     (let blocks = map (\<lambda>b. map (hash_from_slice L) (unpack_messages b)) (block_segments (rt_messages r) 0 (rt_block_data r));
          range_len = (\<lambda>(_, start :: nat, stop). stop - start);
          bounds = sort_key range_len (enumerate 0 (message_ranges 0 (map length blocks)));
          median = range_len (bounds ! (length bounds div 2));
          tolerance = compute_message_owerflow_tolerance median;
          near = filter (\<lambda>b. nat \<bar>int (range_len b) - int median\<bar> \<le> tolerance) bounds in
      sort_prefixes (concat blocks) (map range_len near))"

definition retry_restored ::
  "'peer retry_env \<Rightarrow> ('req, 'e, 'r) protocol \<Rightarrow> ('addr, 'peer, 'conn, 's, 'err, 'path, 'req, 'h, 'e, 'r) handler \<Rightarrow>
   restoring \<Rightarrow> ('path, 'peer) scope \<Rightarrow> ('addr, 'peer, 'conn, 's, 'err, 'path) server_cx \<Rightarrow>
   (('h retry, 'e not_found_error, 'r) handler_result \<times> ('addr, 'peer, 'conn, 's, 'err, 'path) server_cx) run" where
  "retry_restored env P H r sc cx =
     (let cx1 = (case rt_topic r of
                   TChat _ \<Rightarrow> if REPLICATION_FACTOR div 2 < length (rt_block_data r)
                     then cx\<lparr>cx_chats := (cx_chats cx)\<lparr>hashes := collect_hashes (re_lib env) r\<rparr>\<rparr> else cx
                 | TProfile _ \<Rightarrow> cx) in
      run_bind (run_expect (dec_req P (rt_request r))) (\<lambda>(req, _).
      run_bind (h_execute H sc req cx1) (retry_continue (rt_topic r))))"

definition retry_resume ::
  "'peer retry_env \<Rightarrow> ('req, 'e, 'r) protocol \<Rightarrow> ('addr, 'peer, 'conn, 's, 'err, 'path, 'req, 'h, 'e, 'r) handler \<Rightarrow>
   'h retry \<Rightarrow> ('path, 'peer) scope \<Rightarrow> ('peer, 'err) Rpc.rpc_event \<Rightarrow> ('addr, 'peer, 'conn, 's, 'err, 'path) server_cx \<Rightarrow>
   (('h retry, 'e not_found_error, 'r) handler_result \<times> ('addr, 'peer, 'conn, 's, 'err, 'path) server_cx) run" where
  "retry_resume env P H self sc ev cx =
     (case self of
        Handling h topic \<Rightarrow> run_bind (h_resume H h sc ev cx) (retry_continue topic)
      | Restoring r \<Rightarrow>
          (case ev of
             Rpc.Request _ _ _ \<Rightarrow> Done (Inl (Restoring r), cx)
           | Response _ call res \<Rightarrow>
               (case find_and_remove (\<lambda>c. c = call) (rt_pending r) of
                  None \<Rightarrow> Done (Inl (Restoring r), cx)
                | Some (_, pending) \<Rightarrow>
                    let r1 = r\<lparr>rt_pending := pending\<rparr> in
                    (case res of
                       Inl _ \<Rightarrow> Panic
                     | Inr resp \<Rightarrow>
                         run_bind (case rt_topic r of
                             TProfile i \<Rightarrow> Done (r1, cx\<lparr>cx_profiles := restore_profile env i resp (cx_profiles cx)\<rparr>)
                           | TChat _ \<Rightarrow> run_bind (collect_block resp r1) (\<lambda>r2. Done (r2, cx))) (\<lambda>(r2, cx2).
                         if rt_pending r2 \<noteq> [] then Done (Inl (Restoring r2), cx2)
                         else retry_restored env P H r2 sc cx2)))))"

subsection \<open>The stored profiles\<close>

text \<open>Every stored profile is filed under the hash of its key and carries a valid signature of its vault.\<close>

definition profiles_signed :: "'peer retry_env \<Rightarrow> ('path, 'peer, call) profile_store \<Rightarrow> bool" where
  "profiles_signed env s \<longleftrightarrow> (\<forall>i p. profiles s i = Some p \<longrightarrow>
     i = hash_from_raw (re_lib env) (pr_sign p) \<and> profile_is_valid (re_verify env) (re_lib env) p)"

definition no_older :: "('path, 'peer, call) profile_store \<Rightarrow> ('path, 'peer, call) profile_store \<Rightarrow> bool" where
  "no_older s s' \<longleftrightarrow> (\<forall>i q. profiles s i = Some q \<longrightarrow> (\<exists>p. profiles s' i = Some p \<and> vault_version q \<le> vault_version p))"

definition guarded :: "'peer retry_env \<Rightarrow> ('addr, 'peer, 'conn, 's, 'err, 'path) server_cx \<Rightarrow>
    ('a \<times> ('addr, 'peer, 'conn, 's, 'err, 'path) server_cx) run \<Rightarrow> bool" where
  "guarded env cx m \<longleftrightarrow> (\<forall>r cx'. m = Done (r, cx') \<longrightarrow> profiles_signed env (cx_profiles cx) \<longrightarrow>
     profiles_signed env (cx_profiles cx') \<and> no_older (cx_profiles cx) (cx_profiles cx'))"

lemma no_older_refl: "no_older s s"
  by (simp add: no_older_def)

lemma no_older_trans: "no_older s t \<Longrightarrow> no_older t u \<Longrightarrow> no_older s u"
  by (fastforce simp: no_older_def)

lemma guarded_Done: "cx_profiles cx' = cx_profiles cx \<Longrightarrow> guarded env cx (Done (r, cx'))"
  by (simp add: guarded_def no_older_refl)

lemma guarded_Panic: "guarded env cx Panic"
  by (simp add: guarded_def)

lemma guarded_bind:
  assumes "guarded env cx m" and "\<And>r cx'. m = Done (r, cx') \<Longrightarrow> guarded env cx' (k (r, cx'))"
  shows "guarded env cx (run_bind m k)"
proof (cases m)
  case (Done x)
  obtain r cx' where x: "x = (r, cx')" by force
  show ?thesis using assms Done x by (auto simp: guarded_def intro: no_older_trans)
qed (simp add: guarded_Panic)

lemma guarded_start: "guarded env cx' m \<Longrightarrow> cx_profiles cx' = cx_profiles cx \<Longrightarrow> guarded env cx m"
  by (simp add: guarded_def)

lemma guarded_value: "guarded env cx (run_bind m k)" if "\<And>x. m = Done x \<Longrightarrow> guarded env cx (k x)"
  using that by (cases m) (simp_all add: guarded_Panic)

lemma guarded_continue: "guarded env cx (retry_continue topic (r, cx))"
  by (auto simp: retry_continue_def intro: guarded_Done split: sum.splits)

lemma restore_profile_cases:
  "restore_profile env i resp s = s \<or>
   (\<exists>p. restore_profile env i resp s = put_profile i p s \<and> hash_from_raw (re_lib env) (pr_sign p) = i \<and>
      profile_is_valid (re_verify env) (re_lib env) p \<and>
      (\<forall>q. profiles s i = Some q \<longrightarrow> vault_version q < vault_version p))"
  by (auto simp: restore_profile_def not_le split: option.splits sum.splits)

lemma restore_profile_guarded:
  "profiles_signed env s \<Longrightarrow> profiles_signed env (restore_profile env i resp s) \<and> no_older s (restore_profile env i resp s)"
  using restore_profile_cases [of env i resp s]
  by (auto simp: profiles_signed_def put_profile_def no_older_def intro: less_imp_le split: if_splits)

lemma ask_replicators_profiles:
  "ask_replicators env packet topic cx = Done (cs, cx') \<Longrightarrow> cx_profiles cx' = cx_profiles cx"
  by (auto simp: ask_replicators_def run_simps split_beta)

lemma retry_execute_guarded:
  assumes "\<And>sc req cx. guarded env cx (h_execute H sc req cx)"
  shows "guarded env cx (retry_execute env P H sc req cx)"
  unfolding retry_execute_def Let_def
  by (rule guarded_value, clarsimp split: if_split, intro conjI impI guarded_Done guarded_bind [OF assms]
      guarded_continue refl, rule guarded_value)
    (auto intro!: guarded_value guarded_Done dest: ask_replicators_profiles)

lemma retry_restored_guarded:
  assumes "\<And>sc req cx. guarded env cx (h_execute H sc req cx)"
  shows "guarded env cx (retry_restored env P H r sc cx)"
proof -
  have "guarded env cx (run_bind (h_execute H sc req cx1) (retry_continue topic))" if "cx_profiles cx1 = cx_profiles cx" for req cx1 topic
    using guarded_start [OF guarded_bind [OF assms guarded_continue] that] .
  then show ?thesis unfolding retry_restored_def Let_def
    by (intro guarded_value) (auto split: possible_topic.splits)
qed

lemma retry_resume_guarded:
  assumes exec: "\<And>sc req cx. guarded env cx (h_execute H sc req cx)"
    and resume: "\<And>h sc ev cx. guarded env cx (h_resume H h sc ev cx)"
  shows "guarded env cx (retry_resume env P H self sc ev cx)"
proof (cases self)
  case (Handling h topic)
  then show ?thesis by (simp add: retry_resume_def guarded_bind [OF resume guarded_continue])
next
  case (Restoring r)
  have step: "guarded env cx (run_bind (case topic of
       TProfile i \<Rightarrow> Done (r1, cx\<lparr>cx_profiles := restore_profile env i resp (cx_profiles cx)\<rparr>)
     | TChat _ \<Rightarrow> run_bind (collect_block resp r1) (\<lambda>r2. Done (r2, cx))) (\<lambda>(r2, cx2).
   if rt_pending r2 \<noteq> [] then Done (Inl (Restoring r2), cx2) else retry_restored env P H r2 sc cx2))" for topic resp r1
  proof (rule guarded_bind, goal_cases)
    case 1
    show ?case
      by (auto simp: guarded_def run_simps no_older_refl dest: restore_profile_guarded split: possible_topic.splits)
  next
    case (2 r cx')
    show ?case by (auto intro: guarded_Done retry_restored_guarded [OF exec])
  qed
  show ?thesis unfolding retry_resume_def Restoring
    by (auto simp: Let_def step intro!: guarded_Done guarded_Panic split: Rpc.rpc_event.splits option.splits sum.splits)
qed

subsection \<open>Panics\<close>

text \<open>A waiting handler has room for the blocks that are still to come, and its request decodes.\<close>

definition retry_wf :: "('req, 'e, 'r) protocol \<Rightarrow> 'h retry \<Rightarrow> bool" where
  "retry_wf P self = (case self of Handling _ _ \<Rightarrow> True
     | Restoring r \<Rightarrow> length (rt_block_data r) + length (rt_pending r) \<le> REPLICATION_FACTOR \<and> dec_req P (rt_request r) \<noteq> None)"

text \<open>A step of the handler returns, and a handler that goes on waiting is well formed.\<close>

definition retry_returns :: "('req, 'e, 'r) protocol \<Rightarrow> (('h retry, 'f, 'q) handler_result \<times> 'cx) run \<Rightarrow> bool" where
  "retry_returns P m \<longleftrightarrow> (\<exists>y cx'. m = Done (y, cx') \<and> (\<forall>self. y = Inl self \<longrightarrow> retry_wf P self))"

lemma find_and_remove_length: "find_and_remove q xs = Some (x, xs') \<Longrightarrow> Suc (length xs') = length xs"
  by (auto simp: find_and_remove_def position_Some_iff split: option.splits)

lemma collect_block_wf:
  assumes "Suc (length (rt_block_data r) + length (rt_pending r)) \<le> REPLICATION_FACTOR"
  shows "\<exists>r'. collect_block resp r = Done r' \<and> rt_request r' = rt_request r \<and>
    length (rt_block_data r') + length (rt_pending r') \<le> REPLICATION_FACTOR"
  using assms by (auto simp: collect_block_def Let_def run_assert_def split: option.splits sum.splits)

lemma bind_continue_returns: "m \<noteq> Panic \<Longrightarrow> retry_returns P (run_bind m (retry_continue topic))"
  by (cases m) (auto simp: retry_returns_def retry_continue_def retry_wf_def split: prod.splits sum.splits)

lemma retry_restored_returns:
  assumes "dec_req P (rt_request r) \<noteq> None" and "\<And>sc req cx. h_execute H sc req cx \<noteq> Panic"
  shows "retry_returns P (retry_restored env P H r sc cx)"
proof -
  obtain req rest where "dec_req P (rt_request r) = Some (req, rest)" using assms(1) by auto
  then show ?thesis unfolding retry_restored_def Let_def by (simp add: run_expect_def bind_continue_returns [OF assms(2)])
qed

lemma retry_resume_wf:
  assumes "retry_wf P self" and "\<And>sc req cx. h_execute H sc req cx \<noteq> Panic" and "\<And>h sc ev cx. h_resume H h sc ev cx \<noteq> Panic"
    and "\<And>p c e. ev \<noteq> Response p c (Inl e)"
  shows "retry_returns P (retry_resume env P H self sc ev cx)"
proof (cases self)
  case (Handling h topic)
  then show ?thesis by (simp add: retry_resume_def bind_continue_returns [OF assms(3)])
next
  case (Restoring r)
  have r: "length (rt_block_data r) + length (rt_pending r) \<le> REPLICATION_FACTOR" "dec_req P (rt_request r) \<noteq> None"
    using assms(1) Restoring by (simp_all add: retry_wf_def)
  have next_step: "retry_returns P (if rt_pending r2 \<noteq> [] then Done (Inl (Restoring r2), cx2) else retry_restored env P H r2 sc cx2)"
    if "length (rt_block_data r2) + length (rt_pending r2) \<le> REPLICATION_FACTOR" "rt_request r2 = rt_request r" for r2 cx2
    using that r(2) retry_restored_returns [of P r2 H, OF _ assms(2)] by (simp add: retry_wf_def retry_returns_def)
  show ?thesis
  proof (cases "\<exists>p call resp pending. ev = Response p call (Inr resp) \<and> find_and_remove (\<lambda>c. c = call) (rt_pending r) = Some (call, pending)")
    case True
    then obtain p call resp pending where ev: "ev = Response p call (Inr resp)"
      and fr: "find_and_remove (\<lambda>c. c = call) (rt_pending r) = Some (call, pending)" by blast
    let ?r1 = "r\<lparr>rt_pending := pending\<rparr>"
    have wf1: "Suc (length (rt_block_data ?r1) + length (rt_pending ?r1)) \<le> REPLICATION_FACTOR"
      using r(1) find_and_remove_length [OF fr] by simp
    show ?thesis
    proof (cases "rt_topic r")
      case (TProfile i)
      then show ?thesis using ev fr Restoring wf1 next_step [of ?r1] by (simp add: retry_resume_def Let_def)
    next
      case (TChat name)
      obtain r2 where "collect_block resp ?r1 = Done r2" "rt_request r2 = rt_request ?r1"
        "length (rt_block_data r2) + length (rt_pending r2) \<le> REPLICATION_FACTOR"
        using collect_block_wf [OF wf1, of resp] by blast
      then show ?thesis using ev fr Restoring TChat next_step [of r2] by (simp add: retry_resume_def Let_def)
    qed
  next
    case False
    have "retry_resume env P H self sc ev cx = Done (Inl self, cx)"
    proof (cases ev)
      case (Response p call res)
      then obtain resp where res: "res = Inr resp" using assms(4) by (cases res) auto
      have "find_and_remove (\<lambda>c. c = call) (rt_pending r) = Some x \<Longrightarrow> fst x = call" for x
        by (simp add: find_and_remove_def position_Some_iff split: option.splits) force
      then have "find_and_remove (\<lambda>c. c = call) (rt_pending r) = None"
        using False Response res by (cases "find_and_remove (\<lambda>c. c = call) (rt_pending r)") force+
      then show ?thesis using Response Restoring by (simp add: retry_resume_def)
    qed (simp add: retry_resume_def Restoring)
    then show ?thesis using assms(1) by (simp add: retry_returns_def)
  qed
qed

lemma retry_execute_wf:
  assumes "retry_execute env P H sc req cx = Done (Inl self, cx')" and "dec_req P (enc_req P req) = Some (req, rest)"
  shows "retry_wf P self"
proof -
  obtain valid where v: "is_valid_topic (ne_peers (re_net env)) (cx_table cx) (topic_as_bytes (pt_topic P req)) (cx_us cx) = Done valid"
    using assms(1) by (auto simp: retry_execute_def Let_def run_simps)
  show ?thesis
  proof (cases "stored_here (pt_topic P req) cx")
    case True
    then have valid and "run_bind (h_execute H sc req cx) (retry_continue (pt_topic P req)) = Done (Inl self, cx')"
      using assms(1) v by (auto simp: retry_execute_def Let_def split: if_splits)
    then have "retry_returns P (run_bind (h_execute H sc req cx) (retry_continue (pt_topic P req)))"
      by (intro bind_continue_returns) auto
    with \<open>run_bind _ _ = _\<close> show ?thesis by (simp add: retry_returns_def)
  next
    case False
    then obtain packet calls cx1 where "ask_replicators (re_net env) packet (pt_topic P req) cx = Done (calls, cx1)"
      and self: "self = Restoring \<lparr>rt_topic = pt_topic P req, rt_pending = calls, rt_request = enc_req P req, rt_messages = [], rt_block_data = []\<rparr>"
      using assms(1) v by (auto simp: retry_execute_def Let_def run_simps split: if_splits)
    then have "length calls \<le> REPLICATION_FACTOR" by (auto simp: ask_replicators_def run_simps split_beta)
    then show ?thesis using self assms(2) by (simp add: retry_wf_def)
  qed
qed

subsection \<open>Properties\<close>

text \<open>Restoring cannot corrupt profiles: if the wrapped handler keeps every stored profile under the hash of its key,
  signed, and never sets a vault back, so does the retrying handler, whatever bytes the other replicators send.\<close>
theorem retry_keeps_profiles:
  assumes "\<And>sc req cx. guarded env cx (h_execute H sc req cx)" and "\<And>h sc ev cx. guarded env cx (h_resume H h sc ev cx)"
  shows "guarded env cx (retry_execute env P H sc req cx) \<and> guarded env cx (retry_resume env P H self sc ev cx)"
  using retry_execute_guarded [of env H, OF assms(1)] retry_resume_guarded [of env H, OF assms] by blast


text \<open>An inner error of a retrying handler does not survive the wire: errors are enumerations of one tag byte, written
  without the tag that decoding expects in front of them, so the first of them is read as \<open>NotFound\<close> and any other
  does not decode.\<close>
theorem inner_error_garbled:
  assumes "enc vec_ops e [] = (True, [t])" and "dec [] = None"
  shows "\<exists>bs. to_bytes (encode_not_found enc) (NFInner e) = Done bs \<and>
    decode_not_found dec bs = (if t = 0 then Some (NFNotFound, []) else None)"
  using assms by (simp add: to_bytes_def encode_not_found_def decode_not_found_def)

definition demo_retry_env :: "u256 retry_env" where
  "demo_retry_env = \<lparr>re_net = demo_net, re_lib = id_lib, re_verify = (\<lambda>_ _ _. True), re_sign_size = 1, re_enc_size = 1, re_sig_size = 1\<rparr>"

lemma demo_handler_guarded:
  "guarded demo_retry_env cx (h_execute demo_handler sc req cx)" "guarded demo_retry_env cx (h_resume demo_handler h sc ev cx)"
  by (simp_all add: demo_handler_def guarded_Done)

theorem retry_keeps_profiles_witness:
  "guarded demo_retry_env demo_cx (retry_execute demo_retry_env demo_protocol demo_handler demo_scope () demo_cx)"
  using retry_keeps_profiles [of demo_retry_env demo_handler, OF demo_handler_guarded] by blast


theorem inner_error_garbled_witness:
  "\<exists>bs. to_bytes (encode_not_found encode_u8) (NFInner 2) = Done bs \<and> decode_not_found decode_u8 bs = None"
  using inner_error_garbled [of encode_u8 2 2 decode_u8] by (simp add: encode_u8_def vec_ops_def)

end
