(* ===== verification/Server.thy ===== *)
theory Server
  imports Retry
begin

section \<open>The server (\<open>nodes/server/src/main.rs\<close>, \<open>handlers.rs\<close>)\<close>

text \<open>
  The dispatch of requests: \<open>compose_handlers!\<close> over the pending handlers of each protocol, the events of
  the swarm and the messages of the clients. A nest is one entry of the macro: its prefix and the decoder,
  \<open>execute\<close> and \<open>resume\<close> of its handler (the handlers of all protocols share the type \<open>'h\<close>, their requests
  \<open>'req\<close>). The steps return the answer they give beside the new server.
\<close>

record ('cx, 'path, 'peer, 'ev, 'req, 'h) nest =
  ns_prefix :: u8
  ns_decode :: "bytes \<Rightarrow> 'req option"
  ns_execute :: "'cx \<Rightarrow> ('path, 'peer) request_origin \<Rightarrow> call \<Rightarrow> u8 \<Rightarrow> 'req \<Rightarrow> (('h + bytes) \<times> 'cx) run"
  ns_resume :: "'cx \<Rightarrow> ('path, 'peer) request_origin \<Rightarrow> call \<Rightarrow> u8 \<Rightarrow> 'h \<Rightarrow> 'ev \<Rightarrow> (('h + bytes) \<times> 'cx) run"

text \<open>\<open>Handler::execute_and_encode\<close> and \<open>resume_and_encode\<close>: the nest of a handler, given the codec of its errors. The wrappers
  of the other theories are handlers again, so that \<open>ReplRetry<T>\<close> is \<open>repl_handler\<close> of \<open>retry_handler\<close>.\<close>

definition handler_nest ::
  "('req, 'e, 'r) protocol \<Rightarrow> ('e \<Rightarrow> bytes) \<Rightarrow> ('addr, 'peer, 'conn, 's, 'err, 'path, 'req, 'h, 'e, 'r) handler \<Rightarrow>
   (('addr, 'peer, 'conn, 's, 'err, 'path) server_cx, 'path, 'peer, ('peer, 'err) Rpc.rpc_event, 'req, 'h) nest" where
  "handler_nest P enc_err H =
     \<lparr>ns_prefix = pt_prefix P, ns_decode = (\<lambda>bs. map_option fst (dec_req P bs)),
      ns_execute = (\<lambda>cx origin call tag req. run_bind (h_execute H \<lparr>sc_origin = origin, sc_call = call, sc_prefix = tag\<rparr> req cx)
        (\<lambda>(r, cx'). Done (map_sum (\<lambda>h. h) (result_bytes (enc_resp P) enc_err) r, cx'))),
      ns_resume = (\<lambda>cx origin call tag h ev. run_bind (h_resume H h \<lparr>sc_origin = origin, sc_call = call, sc_prefix = tag\<rparr> ev cx)
        (\<lambda>(r, cx'). Done (map_sum (\<lambda>h. h) (result_bytes (enc_resp P) enc_err) r, cx')))\<rparr>"

definition repl_handler ::
  "'peer net_env \<Rightarrow> ('req, 'e, 'r) protocol \<Rightarrow> ('addr, 'peer, 'conn, 's, 'err, 'path, 'req, 'h, 'e, 'r) handler \<Rightarrow>
   ('addr, 'peer, 'conn, 's, 'err, 'path, 'req, 'h repl, 'e repl_error, 'r) handler" where
  "repl_handler env P H = \<lparr>h_execute = repl_execute env P H, h_resume = repl_resume env P H\<rparr>"

definition retry_handler ::
  "'peer retry_env \<Rightarrow> ('req, 'e, 'r) protocol \<Rightarrow> ('addr, 'peer, 'conn, 's, 'err, 'path, 'req, 'h, 'e, 'r) handler \<Rightarrow>
   ('addr, 'peer, 'conn, 's, 'err, 'path, 'req, 'h retry, 'e not_found_error, 'r) handler" where
  "retry_handler env P H = \<lparr>h_execute = retry_execute env P H, h_resume = retry_resume env P H\<rparr>"

type_synonym ('path, 'peer, 'h) pendings = "('path, 'peer, call, 'h) handler_instance list list"

fun compose_execute ::
  "('cx, 'path, 'peer, 'ev, 'req, 'h) nest list \<Rightarrow> 'cx \<Rightarrow> ('path, 'peer, call) handler_request \<Rightarrow> ('path, 'peer, 'h) pendings \<Rightarrow>
   (handler_exec_error + (bytes option \<times> 'cx \<times> ('path, 'peer, 'h) pendings)) run" where
  "compose_execute (n # ns) cx req (hs # hss) =
     (if ns_prefix n = hr_prefix req then
        run_bind (nest_execute (ns_decode n) (ns_execute n) cx req hs) (\<lambda>r.
          Done (map_sum (\<lambda>e. e) (\<lambda>(resp, cx', hs'). (resp, cx', hs' # hss)) r))
      else
        run_bind (compose_execute ns cx req hss) (\<lambda>r.
          Done (map_sum (\<lambda>e. e) (\<lambda>(resp, cx', hss'). (resp, cx', hs # hss')) r)))"
| "compose_execute _ cx req hss = Done (Inl UnknownPrefix)"

fun compose_try_complete ::
  "('cx, 'path, 'peer, 'ev, 'req, 'h) nest list \<Rightarrow> 'ev \<Rightarrow> 'cx \<Rightarrow> ('path, 'peer, 'h) pendings \<Rightarrow>
   ((('path, 'peer) request_origin \<times> call \<times> bytes) option \<times> 'cx \<times> ('path, 'peer, 'h) pendings) run" where
  "compose_try_complete (n # ns) ev cx (hs # hss) =
     run_bind (nest_try_complete (ns_resume n) ev cx hs) (\<lambda>(r, cx', hs').
       if r \<noteq> None then Done (r, cx', hs' # hss)
       else run_bind (compose_try_complete ns ev cx' hss) (\<lambda>(r, cx'', hss'). Done (r, cx'', hs' # hss')))"
| "compose_try_complete _ ev cx hss = Done (None, cx, hss)"

record ('addr, 'peer, 'conn, 's, 'err, 'path, 'h) server =
  sv_cx :: "('addr, 'peer, 'conn, 's, 'err, 'path) server_cx"
  sv_internal :: "('path, 'peer, 'h) pendings"
  sv_external :: "('path, 'peer, 'h) pendings"

record ('addr, 'peer, 'conn, 's, 'err, 'path, 'req, 'h) server_env =
  se_net :: "'peer net_env"
  se_accepts :: "('path, call) client_stream \<Rightarrow> bool"
  se_internal :: "(('addr, 'peer, 'conn, 's, 'err, 'path) server_cx, 'path, 'peer, ('peer, 'err) Rpc.rpc_event, 'req, 'h) nest list"
  se_external :: "(('addr, 'peer, 'conn, 's, 'err, 'path) server_cx, 'path, 'peer, ('peer, 'err) Rpc.rpc_event, 'req, 'h) nest list"

type_synonym ('path, 'peer) answer = "(('path, 'peer) request_origin \<times> call \<times> bytes) option"

definition respond_to_peer :: "'peer net_env \<Rightarrow> 'peer \<Rightarrow> call \<Rightarrow> bytes \<Rightarrow> ('addr, 'peer, 'conn, 's, 'err, 'path) server_cx \<Rightarrow>
    ('addr, 'peer, 'conn, 's, 'err, 'path) server_cx" where
  "respond_to_peer env peer call resp cx = cx\<lparr>cx_rpc := rpc_respond (ne_fits env) peer call resp (cx_rpc cx)\<rparr>"

definition write_to_client :: "(('path, call) client_stream \<Rightarrow> bool) \<Rightarrow> 'path \<Rightarrow> call \<Rightarrow> bytes \<Rightarrow>
    ('addr, 'peer, 'conn, 's, 'err, 'path) server_cx \<Rightarrow> (('addr, 'peer, 'conn, 's, 'err, 'path) server_cx) option" where
  "write_to_client accepts path call resp cx =
     (let cs = clients (cx_profiles cx) in
      case position (\<lambda>s. sm_id s = path) cs of
        None \<Rightarrow> None
      | Some i \<Rightarrow> Some (cx\<lparr>cx_profiles := (cx_profiles cx)\<lparr>clients := cs[i := snd (stream_write accepts (call, resp) (cs ! i))]\<rparr>\<rparr>))"

text \<open>A request of another server: members of the network only.\<close>

definition handle_rpc_request ::
  "('addr, 'peer, 'conn, 's, 'err, 'path, 'req, 'h) server_env \<Rightarrow> 'peer \<Rightarrow> call \<Rightarrow> bytes \<Rightarrow>
   ('addr, 'peer, 'conn, 's, 'err, 'path, 'h) server \<Rightarrow>
   (('path, 'peer) answer \<times> ('addr, 'peer, 'conn, 's, 'err, 'path, 'h) server) run" where
  "handle_rpc_request env peer call body sv =
     run_bind (table_get (ne_peers (se_net env)) (cx_table (sv_cx sv)) peer) (\<lambda>route.
       if route = None then Done (None, sv)
       else (case body of
           [] \<Rightarrow> Done (None, sv)
         | tag # body \<Rightarrow>
             run_bind (compose_execute (se_internal env) (sv_cx sv)
               \<lparr>hr_prefix = tag, hr_id = call, hr_origin = Server peer, hr_body = body\<rparr> (sv_internal sv)) (\<lambda>r.
             case r of
               Inl _ \<Rightarrow> Done (None, sv)
             | Inr (None, cx, hss) \<Rightarrow> Done (None, sv\<lparr>sv_cx := cx, sv_internal := hss\<rparr>)
             | Inr (Some resp, cx, hss) \<Rightarrow> Done (Some (Server peer, call, resp),
                 sv\<lparr>sv_cx := respond_to_peer (se_net env) peer call resp cx, sv_internal := hss\<rparr>))))"

text \<open>Any other event of the remote calls may complete a pending handler.\<close>

definition handle_completion ::
  "('addr, 'peer, 'conn, 's, 'err, 'path, 'req, 'h) server_env \<Rightarrow> ('peer, 'err) Rpc.rpc_event \<Rightarrow>
   ('addr, 'peer, 'conn, 's, 'err, 'path, 'h) server \<Rightarrow>
   (('path, 'peer) answer \<times> ('addr, 'peer, 'conn, 's, 'err, 'path, 'h) server) run" where
  "handle_completion env ev sv =
     run_bind (compose_try_complete (se_internal env) ev (sv_cx sv) (sv_internal sv)) (\<lambda>(r, cx1, int).
     run_bind (if r \<noteq> None then Done (r, cx1, sv_external sv)
               else compose_try_complete (se_external env) ev cx1 (sv_external sv)) (\<lambda>(r, cx2, ext).
       let sv' = sv\<lparr>sv_cx := cx2, sv_internal := int, sv_external := ext\<rparr> in
       case r of
         None \<Rightarrow> Done (None, sv')
       | Some (Client path, call, resp) \<Rightarrow>
           Done (r, (case write_to_client (se_accepts env) path call resp cx2 of None \<Rightarrow> sv' | Some cx3 \<Rightarrow> sv'\<lparr>sv_cx := cx3\<rparr>))
       | Some (Server peer, call, resp) \<Rightarrow>
           Done (r, sv'\<lparr>sv_cx := respond_to_peer (se_net env) peer call resp cx2\<rparr>)))"

definition push_client :: "'path \<Rightarrow> ('addr, 'peer, 'conn, 's, 'err, 'path) server_cx \<Rightarrow> ('addr, 'peer, 'conn, 's, 'err, 'path) server_cx" where
  "push_client path cx = cx\<lparr>cx_profiles := (cx_profiles cx)\<lparr>clients := \<lparr>sm_id = path, subscriptions = [], sm_out = []\<rparr> # clients (cx_profiles cx)\<rparr>\<rparr>"

datatype ('peer, 'err, 'path) swarm_event =
  BehaviourRpc "('peer, 'err) Rpc.rpc_event"
| InboundStream 'path
| OtherSwarmEvent

definition server_handle_event ::
  "('addr, 'peer, 'conn, 's, 'err, 'path, 'req, 'h) server_env \<Rightarrow> ('peer, 'err, 'path) swarm_event \<Rightarrow>
   ('addr, 'peer, 'conn, 's, 'err, 'path, 'h) server \<Rightarrow>
   (('path, 'peer) answer \<times> ('addr, 'peer, 'conn, 's, 'err, 'path, 'h) server) run" where
  "server_handle_event env event sv =
     (case event of
        BehaviourRpc (Rpc.Request peer call body) \<Rightarrow> handle_rpc_request env peer call body sv
      | BehaviourRpc ev \<Rightarrow> handle_completion env ev sv
      | InboundStream path \<Rightarrow> Done (None, sv\<lparr>sv_cx := push_client path (sv_cx sv)\<rparr>)
      | OtherSwarmEvent \<Rightarrow> Done (None, sv))"

definition decode_client_request :: "bytes \<Rightarrow> (u8 \<times> call \<times> bytes) option" where
  "decode_client_request bs = do {
     (tag, bs) \<leftarrow> decode_u8 bs;
     (call, bs) \<leftarrow> decode_usize bs;
     (body, bs) \<leftarrow> decode_reminder bs;
     Some (tag, call, body)
   }"

definition handle_client_message ::
  "('addr, 'peer, 'conn, 's, 'err, 'path, 'req, 'h) server_env \<Rightarrow> 'path \<Rightarrow> bytes option \<Rightarrow>
   ('addr, 'peer, 'conn, 's, 'err, 'path, 'h) server \<Rightarrow>
   (('path, 'peer) answer \<times> ('addr, 'peer, 'conn, 's, 'err, 'path, 'h) server) run" where
  "handle_client_message env path message sv =
     (case Option.bind message decode_client_request of
        None \<Rightarrow> Done (None, sv)
      | Some (tag, call, body) \<Rightarrow>
          run_bind (compose_execute (se_external env) (sv_cx sv)
            \<lparr>hr_prefix = tag, hr_id = call, hr_origin = Client path, hr_body = body\<rparr> (sv_external sv)) (\<lambda>r.
          case r of
            Inl _ \<Rightarrow> Done (None, sv)
          | Inr (None, cx, hss) \<Rightarrow> Done (None, sv\<lparr>sv_cx := cx, sv_external := hss\<rparr>)
          | Inr (Some resp, cx, hss) \<Rightarrow>
              run_bind (run_expect (write_to_client (se_accepts env) path call resp cx)) (\<lambda>cx'.
                Done (Some (Client path, call, resp), sv\<lparr>sv_cx := cx', sv_external := hss\<rparr>))))"

subsection \<open>Runs\<close>

datatype ('peer, 'err, 'path) server_input =
  SvClient 'path "bytes option"
| SvEvent "('peer, 'err, 'path) swarm_event"

fun server_step ::
  "('addr, 'peer, 'conn, 's, 'err, 'path, 'req, 'h) server_env \<Rightarrow> ('peer, 'err, 'path) server_input \<Rightarrow>
   ('addr, 'peer, 'conn, 's, 'err, 'path, 'h) server \<Rightarrow>
   (('path, 'peer) answer \<times> ('addr, 'peer, 'conn, 's, 'err, 'path, 'h) server) run" where
  "server_step env (SvClient path message) sv = handle_client_message env path message sv"
| "server_step env (SvEvent event) sv = server_handle_event env event sv"

fun server_run ::
  "('addr, 'peer, 'conn, 's, 'err, 'path, 'req, 'h) server_env \<Rightarrow> ('peer, 'err, 'path) server_input list \<Rightarrow>
   ('addr, 'peer, 'conn, 's, 'err, 'path, 'h) server \<Rightarrow>
   ((('path, 'peer) request_origin \<times> call) list \<times> ('addr, 'peer, 'conn, 's, 'err, 'path, 'h) server) run" where
  "server_run env [] sv = Done ([], sv)"
| "server_run env (i # is) sv =
     run_bind (server_step env i sv) (\<lambda>(r, sv'). run_bind (server_run env is sv') (\<lambda>(rs, sv'').
       Done ((case r of None \<Rightarrow> [] | Some (origin, call, _) \<Rightarrow> [(origin, call)]) @ rs, sv'')))"

text \<open>The request an input carries, by its origin and its call.\<close>

definition request_of :: "('peer, 'err, 'path) server_input \<Rightarrow> (('path, 'peer) request_origin \<times> call) multiset" where
  "request_of i = (case i of
     SvClient path message \<Rightarrow> (case Option.bind message decode_client_request of None \<Rightarrow> {#} | Some (_, call, _) \<Rightarrow> {#(Client path, call)#})
   | SvEvent (BehaviourRpc (Rpc.Request peer call _)) \<Rightarrow> {#(Server peer, call)#}
   | _ \<Rightarrow> {#})"

definition answer_of :: "('path, 'peer) answer \<Rightarrow> (('path, 'peer) request_origin \<times> call) multiset" where
  "answer_of r = (case r of None \<Rightarrow> {#} | Some (origin, call, _) \<Rightarrow> {#(origin, call)#})"

definition pendings_of :: "('path, 'peer, 'h) pendings \<Rightarrow> (('path, 'peer) request_origin \<times> call) multiset" where
  "pendings_of hss = \<Sum>\<^sub># (mset (map pending_of hss))"

definition server_pending :: "('addr, 'peer, 'conn, 's, 'err, 'path, 'h) server \<Rightarrow> (('path, 'peer) request_origin \<times> call) multiset" where
  "server_pending sv = pendings_of (sv_internal sv) + pendings_of (sv_external sv)"

lemma pendings_of_simps [simp]: "pendings_of [] = {#}" "pendings_of (hs # hss) = pending_of hs + pendings_of hss"
  by (simp_all add: pendings_of_def)

lemma map_sum_Inr_iff: "map_sum f g x = Inr y \<longleftrightarrow> (\<exists>z. x = Inr z \<and> y = g z)"
  by (cases x) auto

lemma compose_execute_pending:
  "compose_execute ns cx req hss = Done (Inr (resp, cx', hss')) \<Longrightarrow>
   pendings_of hss' + (if resp = None then {#} else {#(hr_origin req, hr_id req)#}) = add_mset (hr_origin req, hr_id req) (pendings_of hss)"
proof (induction ns cx req hss arbitrary: hss' rule: compose_execute.induct)
  case (1 n ns cx req hs hss)
  show ?case
  proof (cases "ns_prefix n = hr_prefix req")
    case True
    then obtain hs' where e: "nest_execute (ns_decode n) (ns_execute n) cx req hs = Done (Inr (resp, cx', hs'))" "hss' = hs' # hss"
      using "1.prems" by (auto simp: run_simps map_sum_Inr_iff)
    then show ?thesis using nest_execute_pending [OF e(1)] by (simp split: if_splits)
  next
    case False
    then obtain hss1 where e: "compose_execute ns cx req hss = Done (Inr (resp, cx', hss1))" "hss' = hs # hss1"
      using "1.prems" by (auto simp: run_simps map_sum_Inr_iff)
    then show ?thesis using "1.IH" [OF False e(1)] by (simp split: if_splits)
  qed
qed simp_all

lemma compose_try_complete_pending:
  "compose_try_complete ns ev cx hss = Done (r, cx', hss') \<Longrightarrow> pendings_of hss' + answer_of r = pendings_of hss"
proof (induction ns ev cx hss arbitrary: r hss' rule: compose_try_complete.induct)
  case (1 n ns ev cx hs hss)
  from "1.prems" obtain r1 cx1 hs1 where n: "nest_try_complete (ns_resume n) ev cx hs = Done (r1, cx1, hs1)"
    by (auto simp: run_simps)
  have p: "pending_of hs1 + answer_of r1 = pending_of hs"
    using nest_try_complete_pending [OF n] by (simp add: answer_of_def split: option.splits prod.splits)
  show ?case
  proof (cases "r1 = None")
    case True
    then obtain hss1 where e: "compose_try_complete ns ev cx1 hss = Done (r, cx', hss1)" "hss' = hs1 # hss1"
      using "1.prems" n by (auto simp: run_simps)
    then show ?thesis using "1.IH" [OF _ e(1), of None] p True by (simp add: answer_of_def)
  next
    case False
    then show ?thesis using "1.prems" n p by (auto simp: ac_simps)
  qed
qed (simp_all add: answer_of_def)

lemma client_message_accounts:
  assumes "handle_client_message env path message sv = Done (r, sv')"
  shows "answer_of r + server_pending sv' \<subseteq># request_of (SvClient path message) + server_pending sv"
proof (cases "Option.bind message decode_client_request")
  case None
  then show ?thesis using assms by (auto simp: handle_client_message_def answer_of_def request_of_def)
next
  case (Some x)
  obtain tag call body where x: "x = (tag, call, body)" by (cases x) auto
  let ?req = "\<lparr>hr_prefix = tag, hr_id = call, hr_origin = Client path, hr_body = body\<rparr>"
  obtain e where e: "compose_execute (se_external env) (sv_cx sv) ?req (sv_external sv) = Done e"
    using assms Some x by (auto simp: handle_client_message_def run_simps)
  show ?thesis
  proof (cases e)
    case (Inl err)
    then show ?thesis using assms Some x e by (auto simp: handle_client_message_def answer_of_def request_of_def)
  next
    case (Inr y)
    obtain resp cx hss where y: "y = (resp, cx, hss)" by (cases y) auto
    note p = compose_execute_pending [OF e [unfolded Inr y]]
    have "answer_of r = (if resp = None then {#} else {#(Client path, call)#})" "sv_internal sv' = sv_internal sv" "sv_external sv' = hss"
      using assms Some x e Inr y by (auto simp: handle_client_message_def answer_of_def run_simps split: option.splits)
    then show ?thesis using p Some x by (cases resp) (simp_all add: server_pending_def request_of_def ac_simps)
  qed
qed

lemma rpc_request_accounts:
  assumes "handle_rpc_request env peer call body sv = Done (r, sv')"
  shows "answer_of r + server_pending sv' \<subseteq># add_mset (Server peer, call) (server_pending sv)"
proof -
  obtain route where t: "table_get (ne_peers (se_net env)) (cx_table (sv_cx sv)) peer = Done route"
    using assms by (auto simp: handle_rpc_request_def run_simps)
  show ?thesis
  proof (cases "route = None \<or> body = []")
    case True
    then show ?thesis using assms t by (auto simp: handle_rpc_request_def answer_of_def split: list.splits)
  next
    case False
    then obtain tag body' where b: "body = tag # body'" "route \<noteq> None" by (cases body) auto
    let ?req = "\<lparr>hr_prefix = tag, hr_id = call, hr_origin = Server peer, hr_body = body'\<rparr>"
    obtain e where e: "compose_execute (se_internal env) (sv_cx sv) ?req (sv_internal sv) = Done e"
      using assms b t by (auto simp: handle_rpc_request_def run_simps)
    show ?thesis
    proof (cases e)
      case (Inl err)
      then show ?thesis using assms b t e by (auto simp: handle_rpc_request_def answer_of_def)
    next
      case (Inr y)
      obtain resp cx hss where y: "y = (resp, cx, hss)" by (cases y) auto
      note p = compose_execute_pending [OF e [unfolded Inr y]]
      have "answer_of r = (if resp = None then {#} else {#(Server peer, call)#})" "sv_external sv' = sv_external sv" "sv_internal sv' = hss"
        using assms b t e Inr y by (auto simp: handle_rpc_request_def answer_of_def run_simps split: option.splits)
      then show ?thesis using p by (cases resp) (simp_all add: server_pending_def ac_simps)
    qed
  qed
qed

lemma completion_accounts:
  assumes "handle_completion env ev sv = Done (r, sv')"
  shows "answer_of r + server_pending sv' = server_pending sv"
proof -
  obtain r1 cx1 int where i: "compose_try_complete (se_internal env) ev (sv_cx sv) (sv_internal sv) = Done (r1, cx1, int)"
    using assms by (auto simp: handle_completion_def run_simps)
  note pi = compose_try_complete_pending [OF i]
  obtain r2 cx2 ext where e: "(if r1 \<noteq> None then Done (r1, cx1, sv_external sv)
      else compose_try_complete (se_external env) ev cx1 (sv_external sv)) = Done (r2, cx2, ext)"
    using assms i by (auto simp: handle_completion_def run_simps)
  have pe: "pendings_of ext + answer_of r2 = pendings_of (sv_external sv) + answer_of r1"
    using e compose_try_complete_pending [of "se_external env" ev cx1 "sv_external sv" r2 cx2 ext]
    by (cases "r1 = None") (auto simp: answer_of_def)
  have "r = r2 \<and> sv_internal sv' = int \<and> sv_external sv' = ext"
  proof (cases r2)
    case None
    then show ?thesis using assms i e by (auto simp: handle_completion_def Let_def simp del: not_None_eq)
  next
    case (Some x)
    obtain origin call resp where "x = (origin, call, resp)" by (cases x) auto
    then show ?thesis using assms i e Some
      by (cases origin) (auto simp: handle_completion_def Let_def simp del: not_None_eq split: option.splits)
  qed
  then have "answer_of r + server_pending sv' = pendings_of int + (pendings_of ext + answer_of r2)"
    by (simp add: server_pending_def ac_simps)
  also have "\<dots> = (pendings_of int + answer_of r1) + pendings_of (sv_external sv)" unfolding pe by (simp add: ac_simps)
  finally show ?thesis unfolding pi server_pending_def .
qed

lemma server_step_accounts:
  assumes "server_step env i sv = Done (r, sv')"
  shows "answer_of r + server_pending sv' \<subseteq># request_of i + server_pending sv"
proof (cases i)
  case (SvClient path message)
  then show ?thesis using assms client_message_accounts by simp
next
  case (SvEvent event)
  show ?thesis
  proof (cases event)
    case (BehaviourRpc ev)
    show ?thesis
    proof (cases ev)
      case (Response p c x)
      then show ?thesis using assms SvEvent BehaviourRpc completion_accounts [of env ev sv r sv']
        by (simp add: server_handle_event_def)
    next
      case (Request p c x)
      then show ?thesis using assms SvEvent BehaviourRpc rpc_request_accounts [of env p c x sv r sv']
        by (simp add: server_handle_event_def request_of_def)
    qed
  qed (use assms SvEvent in \<open>auto simp: server_handle_event_def answer_of_def server_pending_def\<close>)
qed

lemma server_run_accounts:
  "server_run env is sv = Done (rs, sv') \<Longrightarrow>
   mset rs + server_pending sv' \<subseteq># (\<Sum>i\<leftarrow>is. request_of i) + server_pending sv"
proof (induction "is" arbitrary: sv rs)
  case (Cons i "is")
  obtain r sv1 where st: "server_step env i sv = Done (r, sv1)" using Cons.prems by (auto simp: run_simps)
  obtain rs1 where rn: "server_run env is sv1 = Done (rs1, sv')"
    and rs: "mset rs = answer_of r + mset rs1"
    using Cons.prems st by (auto simp: run_simps answer_of_def split: option.splits prod.splits)
  have "mset rs1 + server_pending sv' \<subseteq># (\<Sum>i\<leftarrow>is. request_of i) + server_pending sv1" using Cons.IH [OF rn] .
  then have "mset rs + server_pending sv' \<subseteq># (\<Sum>i\<leftarrow>is. request_of i) + (answer_of r + server_pending sv1)"
    unfolding rs by (simp add: ac_simps subset_mset.add_left_mono)
  also have "\<dots> \<subseteq># (\<Sum>i\<leftarrow>is. request_of i) + (request_of i + server_pending sv)"
    using server_step_accounts [OF st] by (rule subset_mset.add_left_mono)
  finally show ?case by (simp add: ac_simps)
qed simp

subsection \<open>Properties\<close>

definition server_start :: "('addr, 'peer, 'conn, 's, 'err, 'path) server_cx \<Rightarrow> nat \<Rightarrow> nat \<Rightarrow>
    ('addr, 'peer, 'conn, 's, 'err, 'path, 'h) server" where
  "server_start cx n m = \<lparr>sv_cx = cx, sv_internal = replicate n [], sv_external = replicate m []\<rparr>"

lemma pendings_of_empty: "pendings_of (replicate n []) = {#}"
  by (induction n) (simp_all add: pending_of_def)

text \<open>C13: No request is answered twice: along every run of a started server, with any handlers, the answers given and the
  requests still pending are together among the requests received, by origin and call and with multiplicity. So
  every answer goes back to an origin that asked, under the id it asked with, at most once.\<close>
theorem requests_answered_once:
  assumes "server_run env is (server_start cx n m) = Done (rs, sv)"
  shows "mset rs + server_pending sv \<subseteq># (\<Sum>i\<leftarrow>is. request_of i)"
  using server_run_accounts [OF assms] by (simp add: server_pending_def server_start_def pendings_of_empty)

text \<open>A peer that is not in the routing table is not served: its requests change nothing and get no answer.\<close>
theorem strangers_not_served:
  assumes "table_ok (cx_table (sv_cx sv))" and "peer_of (ne_peers (se_net env)) peer k"
    and "k \<notin> route_id ` set (cx_table (sv_cx sv))"
  shows "server_handle_event env (BehaviourRpc (Rpc.Request peer call body)) sv = Done (None, sv)"
proof -
  have "get_id (cx_table (sv_cx sv)) k = None"
    using get_id_laws [OF assms(1)] assms(3) by (auto simp: table_map_def map_of_eq_None_iff image_image)
  then show ?thesis
    by (simp add: server_handle_event_def handle_rpc_request_def table_get_peer [OF assms(2)])
qed

definition demo_replicated :: "(unit, unit repl_error, u8) protocol" where
  "demo_replicated = \<lparr>pt_prefix = 8, pt_topic = (\<lambda>_. TProfile [42]), enc_req = (\<lambda>_. []), dec_req = (\<lambda>bs. Some ((), bs)),
     enc_resp = (\<lambda>r. [r]), dec_resp = dec_resp demo_protocol, dec_err = (\<lambda>_. None)\<rparr>"

definition demo_server_env :: "(nat, u256, nat, unit, unit, nat, unit, unit repl) server_env" where
  "demo_server_env = \<lparr>se_net = demo_net, se_accepts = (\<lambda>_. True), se_internal = [],
     se_external = [handler_nest demo_replicated (\<lambda>_. []) (repl_handler demo_net demo_protocol demo_handler)]\<rparr>"

text \<open>A client asks; four replicators are asked, three of them confirm, the last answer comes late.\<close>

definition demo_inputs :: "(u256, unit, nat) server_input list" where
  "demo_inputs = [SvEvent (InboundStream 1), SvClient 1 (Some [8, 6]), SvEvent (BehaviourRpc (Response 9 0 (Inr [1, 7]))),
     SvEvent (BehaviourRpc (Response 5 1 (Inr [1, 7]))), SvEvent (BehaviourRpc (Response 1 2 (Inr [1, 7]))),
     SvEvent (BehaviourRpc (Response (- 3) 3 (Inr [1, 7])))]"

theorem requests_answered_once_witness:
  "\<exists>sv. server_run demo_server_env demo_inputs (server_start demo_cx 0 1) = Done ([(Client 1, 6)], sv) \<and>
     {#(Client 1, 6)#} + server_pending sv \<subseteq># (\<Sum>i\<leftarrow>demo_inputs. request_of i)"
proof -
  have "case server_run demo_server_env demo_inputs (server_start demo_cx 0 1) of Done (rs, _) \<Rightarrow> rs = [(Client 1, 6)] | Panic \<Rightarrow> False"
    by code_simp
  then obtain sv where r: "server_run demo_server_env demo_inputs (server_start demo_cx 0 1) = Done ([(Client 1, 6)], sv)"
    by (auto split: run.splits)
  show ?thesis using requests_answered_once [OF r] r by auto
qed

theorem strangers_not_served_witness:
  "server_handle_event demo_server_env (BehaviourRpc (Rpc.Request 6 0 [8])) (server_start demo_cx 0 1) =
     Done (None, server_start demo_cx 0 1)"
proof -
  have t: "cx_table (sv_cx (server_start demo_cx 0 1)) = small_table" by (simp add: server_start_def demo_cx_def)
  have p: "peer_of (ne_peers (se_net demo_server_env)) 6 6"
    by (simp add: peer_of_def small_env_def demo_server_env_def demo_net_def)
  have "(6 :: u256) \<notin> route_id ` set small_table" by (simp add: small_table_def)
  then show ?thesis by (intro strangers_not_served [OF _ p, of "server_start demo_cx 0 1", unfolded t]) (simp_all add: table_ok_small)
qed

end
