(* ===== verification/Packets.thy ===== *)
theory Packets
  imports Codec "HOL-Library.Monad_Syntax"
begin

section \<open>Packets over byte streams (\<open>component-utils/src/stream.rs\<close>)\<close>

text \<open>
  \<open>PacketReader\<close> cuts the packets out of a byte stream that delivers them in pieces of any size, and
  \<open>PacketWriter\<close> queues packets in a buffer of fixed capacity, which it uses as a ring, until the stream takes
  them. The stream under a reader is the list of what its polls will return; the stream under a
  writer is a function of its own state. Wakers are left out.
\<close>

datatype 'a poll = Pending | Ready 'a

datatype io_error = UnexpectedEof | WriteZero | StreamError

subsection \<open>The reader\<close>

datatype read_item = Chunk bytes | NotReady | ReadFail

record packet_reader =
  read_buffer :: bytes
  read_offset :: nat

definition PACKET_LEN_WIDTH :: nat where
  "PACKET_LEN_WIDTH = 2"

text \<open>\<open>AsyncRead::poll_read\<close> into a slice of \<open>n\<close> bytes: at most \<open>n\<close> bytes of the next piece, the rest of it stays.
  An empty piece is the end of the stream.\<close>

fun poll_read :: "nat \<Rightarrow> read_item list \<Rightarrow> (io_error + bytes) poll \<times> read_item list" where
  "poll_read n [] = (Pending, [])"
| "poll_read n (NotReady # src) = (Pending, src)"
| "poll_read n (ReadFail # src) = (Ready (Inl StreamError), src)"
| "poll_read n (Chunk c # src) =
     (Ready (Inr (take n c)), if length c \<le> n then src else Chunk (drop n c) # src)"

text \<open>\<open>read_buffer[off..]\<close> overwritten with the bytes read.\<close>

definition fill :: "bytes \<Rightarrow> nat \<Rightarrow> bytes \<Rightarrow> bytes" where
  "fill buf off bs = take off buf @ bs @ drop (off + length bs) buf"

function read_loop :: "nat \<Rightarrow> packet_reader \<Rightarrow> read_item list \<Rightarrow> (io_error + unit) poll \<times> packet_reader \<times> read_item list" where
  "read_loop amount r src =
     (if amount \<le> read_offset r then (Ready (Inr ()), r, src)
      else (case poll_read (amount - read_offset r) src of
          (Pending, src') \<Rightarrow> (Pending, r, src')
        | (Ready (Inl e), src') \<Rightarrow> (Ready (Inl e), r, src')
        | (Ready (Inr bs), src') \<Rightarrow>
            if bs = [] then (Ready (Inl UnexpectedEof), r, src')
            else read_loop amount (r\<lparr>read_buffer := fill (read_buffer r) (read_offset r) bs,
              read_offset := read_offset r + length bs\<rparr>) src'))"
  by pat_completeness auto
termination
proof (relation "measure (\<lambda>(amount, r, src). amount - read_offset r)", goal_cases)
  case (2 amount r src x src' res bs)
  then have "0 < length bs" by simp
  then have "amount - (read_offset r + length bs) < amount - read_offset r" using 2(1) by linarith
  then show ?case by simp
qed simp

declare read_loop.simps [simp del]

definition poll_read_exact :: "nat \<Rightarrow> packet_reader \<Rightarrow> read_item list \<Rightarrow> (io_error + unit) poll \<times> packet_reader \<times> read_item list" where
  "poll_read_exact amount r src =
     (if amount \<le> read_offset r then (Ready (Inr ()), r, src)
      else read_loop amount (if length (read_buffer r) < amount
        then r\<lparr>read_buffer := read_buffer r @ replicate (amount - length (read_buffer r)) 0\<rparr> else r) src)"

definition poll_packet :: "packet_reader \<Rightarrow> read_item list \<Rightarrow> (io_error + bytes) poll \<times> packet_reader \<times> read_item list" where
  "poll_packet r src =
     (case poll_read_exact PACKET_LEN_WIDTH r src of
        (Pending, r1, src1) \<Rightarrow> (Pending, r1, src1)
      | (Ready (Inl e), r1, src1) \<Rightarrow> (Ready (Inl e), r1, src1)
      | (Ready (Inr _), r1, src1) \<Rightarrow>
          let packet_size = decode_len (read_buffer r1 ! 0) (read_buffer r1 ! 1) in
          (case poll_read_exact (packet_size + PACKET_LEN_WIDTH) r1 src1 of
             (Pending, r2, src2) \<Rightarrow> (Pending, r2, src2)
           | (Ready (Inl e), r2, src2) \<Rightarrow> (Ready (Inl e), r2, src2)
           | (Ready (Inr _), r2, src2) \<Rightarrow>
               (Ready (Inr (take packet_size (drop PACKET_LEN_WIDTH (read_buffer r2)))), r2\<lparr>read_offset := 0\<rparr>, src2)))"

text \<open>The bytes a stream has left, and a stream without errors that has not ended.\<close>

definition data_of :: "read_item list \<Rightarrow> bytes" where
  "data_of src = concat (map (\<lambda>i. case i of Chunk c \<Rightarrow> c | _ \<Rightarrow> []) src)"

definition alive :: "read_item list \<Rightarrow> bool" where
  "alive src = list_all (\<lambda>i. case i of Chunk c \<Rightarrow> c \<noteq> [] | NotReady \<Rightarrow> True | ReadFail \<Rightarrow> False) src"

text \<open>What a reader holds of the packet it is reading, and what it will read next.\<close>

definition reader_ok :: "packet_reader \<Rightarrow> bool" where
  "reader_ok r \<longleftrightarrow> read_offset r \<le> length (read_buffer r)"

definition unread :: "packet_reader \<Rightarrow> read_item list \<Rightarrow> bytes" where
  "unread r src = take (read_offset r) (read_buffer r) @ data_of src"

definition read_work :: "packet_reader \<Rightarrow> read_item list \<Rightarrow> nat" where
  "read_work r src = length (unread r src) + length src"

lemma fill_simps: "off \<le> length buf \<Longrightarrow> off + length bs \<le> length buf \<Longrightarrow>
   take (off + length bs) (fill buf off bs) = take off buf @ bs \<and> length (fill buf off bs) = length buf"
  by (simp add: fill_def)

lemma poll_read_alive:
  assumes "alive src" and "0 < n" and "poll_read n src = (res, src')"
  shows "(res = Pending \<and> alive src' \<and> data_of src' = data_of src \<and> (src' = [] \<and> src = [] \<or> length src' < length src)) \<or>
    (\<exists>bs. res = Ready (Inr bs) \<and> bs \<noteq> [] \<and> length bs \<le> n \<and> alive src' \<and> data_of src = bs @ data_of src' \<and> length src' \<le> length src)"
  using assms by (cases "(n, src)" rule: poll_read.cases) (auto simp: alive_def data_of_def split: if_splits)

lemma read_loop_spec:
  assumes "read_loop amount r src = (res, r', src')" and "alive src" and "reader_ok r" and "amount \<le> length (read_buffer r)"
  shows "reader_ok r' \<and> alive src' \<and> unread r' src' = unread r src \<and> length (read_buffer r') = length (read_buffer r) \<and>
    ((res = Ready (Inr ()) \<and> amount \<le> read_offset r' \<and> length src' \<le> length src \<and> (read_offset r \<le> amount \<longrightarrow> read_offset r' = amount)) \<or>
     (res = Pending \<and> read_offset r' < amount \<and> (src' = [] \<or> length src' < length src)))"
  using assms
proof (induction amount r src arbitrary: res r' src' rule: read_loop.induct)
  case (1 amount r src)
  show ?case
  proof (cases "amount \<le> read_offset r")
    case True
    then show ?thesis using "1.prems" by (auto simp: read_loop.simps)
  next
    case False
    obtain p src1 where p: "poll_read (amount - read_offset r) src = (p, src1)" by force
    from poll_read_alive [OF "1.prems"(2) _ p] False
    consider "p = Pending" "alive src1" "data_of src1 = data_of src" "src1 = [] \<or> length src1 < length src"
      | bs where "p = Ready (Inr bs)" "bs \<noteq> []" "length bs \<le> amount - read_offset r" "alive src1" "data_of src = bs @ data_of src1"
        "length src1 \<le> length src"
      by auto
    then show ?thesis
    proof cases
      case 1
      then show ?thesis using "1.prems" False p by (auto simp: read_loop.simps unread_def)
    next
      case (2 bs)
      let ?r1 = "r\<lparr>read_buffer := fill (read_buffer r) (read_offset r) bs, read_offset := read_offset r + length bs\<rparr>"
      have f: "take (read_offset r + length bs) (fill (read_buffer r) (read_offset r) bs) = take (read_offset r) (read_buffer r) @ bs"
        "length (fill (read_buffer r) (read_offset r) bs) = length (read_buffer r)"
        using fill_simps [of "read_offset r" "read_buffer r" bs] "1.prems"(3,4) 2(3) False by (auto simp: reader_ok_def)
      have u: "unread ?r1 src1 = unread r src" using f(1) 2(5) by (simp add: unread_def)
      have "read_loop amount ?r1 src1 = (res, r', src')" using "1.prems"(1) False p 2(1,2) by (simp add: read_loop.simps [of amount r])
      note IH = "1.IH" [OF False p [symmetric] 2(1) refl 2(2) this 2(4)]
      have "reader_ok ?r1" using f(2) 2(3) False "1.prems"(4) by (simp add: reader_ok_def)
      then show ?thesis using IH f(2) u 2(3,6) "1.prems"(4) by auto
    qed
  qed
qed

lemma poll_read_exact_spec:
  assumes "poll_read_exact amount r src = (res, r', src')" and "alive src" and "reader_ok r"
  shows "reader_ok r' \<and> alive src' \<and> unread r' src' = unread r src \<and>
    ((res = Ready (Inr ()) \<and> amount \<le> read_offset r' \<and> length src' \<le> length src \<and> (read_offset r \<le> amount \<longrightarrow> read_offset r' = amount)) \<or>
     (res = Pending \<and> read_offset r' < amount \<and> (src' = [] \<or> length src' < length src)))"
proof (cases "amount \<le> read_offset r")
  case True
  then show ?thesis using assms by (auto simp: poll_read_exact_def)
next
  case False
  let ?r1 = "if length (read_buffer r) < amount
    then r\<lparr>read_buffer := read_buffer r @ replicate (amount - length (read_buffer r)) 0\<rparr> else r"
  have "read_loop amount ?r1 src = (res, r', src')" using assms(1) False by (simp add: poll_read_exact_def)
  moreover have "reader_ok ?r1" "amount \<le> length (read_buffer ?r1)" "read_offset ?r1 = read_offset r" "unread ?r1 src = unread r src"
    using assms(3) by (auto simp: reader_ok_def unread_def)
  ultimately show ?thesis using read_loop_spec [of amount ?r1 src res r' src'] assms(2) by (simp split del: if_split)
qed

text \<open>A packet on the wire, and the length the first two bytes announce.\<close>

definition packet_bytes :: "bytes \<Rightarrow> bytes" where
  "packet_bytes p = encode_len (length p) @ p"

definition announced :: "bytes \<Rightarrow> nat" where
  "announced bs = decode_len (bs ! 0) (bs ! 1) + PACKET_LEN_WIDTH"

definition frame_ok :: "packet_reader \<Rightarrow> bool" where
  "frame_ok r \<longleftrightarrow> read_offset r \<le> PACKET_LEN_WIDTH \<or> read_offset r \<le> announced (read_buffer r)"

text \<open>No whole packet.\<close>

definition incomplete :: "bytes \<Rightarrow> bool" where
  "incomplete bs \<longleftrightarrow> length bs < PACKET_LEN_WIDTH \<or> length bs < announced bs"

lemma encode_decode_len: "encode_len (decode_len a b) = [a, b]"
  unfolding encode_len_def decode_len_def u16_to_be_bytes_def u16_from_be_bytes_def
  using bit_imp_le_length [of b] by (auto intro!: bit_word_eqI simp: bit_simps) (fastforce dest: bit_imp_le_length)+

lemma decode_len_bound: "decode_len a b < 65536"
  using unat_less_exp [of "u16_from_be_bytes a b"] by (simp add: decode_len_def)

lemma announced_append: "2 \<le> length xs \<Longrightarrow> announced (xs @ ys) = announced xs"
  by (cases xs; cases "tl xs") (auto simp: announced_def)

lemma announced_take: "2 \<le> n \<Longrightarrow> n \<le> length xs \<Longrightarrow> announced (take n xs) = announced xs"
  by (simp add: announced_def)

lemma unread_ge:
  "reader_ok r \<Longrightarrow> 2 \<le> read_offset r \<Longrightarrow> announced (unread r src) = announced (read_buffer r)"
  by (simp add: unread_def reader_ok_def announced_append announced_take)

lemma poll_packet_spec:
  assumes "poll_packet r src = (res, r', src')" and "alive src" and "reader_ok r" and "frame_ok r"
  shows "reader_ok r' \<and> frame_ok r' \<and> alive src' \<and>
    ((\<exists>p. res = Ready (Inr p) \<and> length p < 65536 \<and> unread r src = packet_bytes p @ unread r' src' \<and> length src' \<le> length src) \<or>
     (res = Pending \<and> unread r' src' = unread r src \<and> (src' = [] \<longrightarrow> incomplete (unread r' src')) \<and>
        (src' = [] \<or> length src' < length src)))"
proof -
  obtain res1 r1 src1 where e1: "poll_read_exact PACKET_LEN_WIDTH r src = (res1, r1, src1)" by (metis prod_cases3)
  note s1 = poll_read_exact_spec [OF e1 assms(2,3)]
  show ?thesis
  proof (cases "res1 = Pending")
    case True
    then have out: "res = Pending" "r' = r1" "src' = src1" "read_offset r1 < PACKET_LEN_WIDTH"
      using assms(1) e1 s1 by (auto simp: poll_packet_def)
    then have "incomplete (unread r1 src1)" if "src1 = []"
    proof -
      have "reader_ok r1" using s1 by simp
      then show ?thesis using that out(4) by (simp add: incomplete_def unread_def data_of_def reader_ok_def)
    qed
    then show ?thesis using out s1 True by (auto simp: frame_ok_def)
  next
    case False
    then have res1: "res1 = Ready (Inr ())" and o1: "2 \<le> read_offset r1" using s1 by (auto simp: PACKET_LEN_WIDTH_def)
    let ?n = "decode_len (read_buffer r1 ! 0) (read_buffer r1 ! 1)"
    have n: "?n + PACKET_LEN_WIDTH = announced (read_buffer r1)" by (simp add: announced_def)
    have u1: "announced (unread r1 src1) = announced (read_buffer r1)" using unread_ge s1 o1 by blast
    have fr: "read_offset r1 \<le> announced (read_buffer r1)"
    proof (cases "read_offset r \<le> PACKET_LEN_WIDTH")
      case True
      then show ?thesis using s1 res1 by (simp add: announced_def)
    next
      case False
      then have "r1 = r" using e1 by (simp add: poll_read_exact_def)
      then show ?thesis using assms(4) False by (simp add: frame_ok_def)
    qed
    obtain res2 r2 src2 where e2: "poll_read_exact (?n + PACKET_LEN_WIDTH) r1 src1 = (res2, r2, src2)" by (metis prod_cases3)
    have s1': "alive src1" "reader_ok r1" using s1 by auto
    note s2 = poll_read_exact_spec [OF e2 s1']
    have same: "unread r2 src2 = unread r src" using s1 s2 by simp
    show ?thesis
    proof (cases "res2 = Pending")
      case True
      then have out: "res = Pending" "r' = r2" "src' = src2" using assms(1) e1 e2 res1 by (auto simp: poll_packet_def Let_def)
      have "frame_ok r2"
      proof (cases "2 \<le> read_offset r2")
        case big: True
        then have "announced (read_buffer r2) = announced (unread r2 src2)" using unread_ge s2 by metis
        then show ?thesis using s2 True u1 n by (simp add: frame_ok_def s1)
      qed (simp add: frame_ok_def PACKET_LEN_WIDTH_def)
      moreover have "incomplete (unread r2 src2)" if "src2 = []"
      proof -
        have "reader_ok r2" using s2 by simp
        then have "length (unread r2 src2) = read_offset r2" using that by (simp add: unread_def data_of_def reader_ok_def)
        moreover have "announced (unread r2 src2) = announced (read_buffer r1)" using s2 u1 by simp
        ultimately show ?thesis using s2 True n by (simp add: incomplete_def)
      qed
      ultimately show ?thesis using out s1 s2 True res1 same by auto
    next
      case False
      then have res2: "res2 = Ready (Inr ())" and off: "read_offset r2 = ?n + PACKET_LEN_WIDTH" using s2 fr n by auto
      let ?p = "take ?n (drop PACKET_LEN_WIDTH (read_buffer r2))"
      have out: "res = Ready (Inr ?p)" "r' = r2\<lparr>read_offset := 0\<rparr>" "src' = src2"
        using assms(1) e1 e2 res1 res2 by (auto simp: poll_packet_def Let_def)
      have len: "?n + 2 \<le> length (read_buffer r2)" using s2 off by (simp add: reader_ok_def PACKET_LEN_WIDTH_def)
      have "announced (read_buffer r2) = announced (read_buffer r1)"
        using unread_ge [of r2 src2] s2 off u1 by (simp add: PACKET_LEN_WIDTH_def)
      then have "decode_len (read_buffer r2 ! 0) (read_buffer r2 ! 1) = ?n" by (simp add: announced_def)
      then have "encode_len ?n = [read_buffer r2 ! 0, read_buffer r2 ! 1]" using encode_decode_len by metis
      moreover have "take (?n + 2) (read_buffer r2) = [read_buffer r2 ! 0, read_buffer r2 ! 1] @ ?p"
        using len by (cases "read_buffer r2"; cases "tl (read_buffer r2)") (auto simp: PACKET_LEN_WIDTH_def)
      moreover have "length ?p = ?n" using len by (simp add: PACKET_LEN_WIDTH_def)
      ultimately have "unread r src = packet_bytes ?p @ unread (r2\<lparr>read_offset := 0\<rparr>) src2"
        using same off by (simp add: unread_def packet_bytes_def PACKET_LEN_WIDTH_def)
      moreover have "length ?p < 65536" using \<open>length ?p = ?n\<close> decode_len_bound by simp
      ultimately show ?thesis using out s1 s2 res1 res2 by (auto simp: reader_ok_def frame_ok_def)
    qed
  qed
qed

text \<open>Polling until the stream has nothing left.\<close>

fun read_packets :: "nat \<Rightarrow> packet_reader \<Rightarrow> read_item list \<Rightarrow> bytes list" where
  "read_packets 0 r src = []"
| "read_packets (Suc fuel) r src =
     (case poll_packet r src of
        (Ready (Inr p), r', src') \<Rightarrow> p # read_packets fuel r' src'
      | (Ready (Inl _), r', src') \<Rightarrow> []
      | (Pending, r', src') \<Rightarrow> if src' = [] then [] else read_packets fuel r' src')"

lemma announced_packet: "length p < 65536 \<Longrightarrow> announced (packet_bytes p @ bs) = length p + 2"
proof -
  assume "length p < 65536"
  then have "decode_len (encode_len (length p) ! 0) (encode_len (length p) ! 1) = length p"
    using u16_be_bytes_roundtrip [of "of_nat (length p)"] by (simp add: encode_len_def decode_len_def unat_of_nat_less u16_to_be_bytes_def)
  moreover have "length (encode_len (length p)) = 2" by (simp add: encode_len_def)
  ultimately show ?thesis by (simp add: announced_def packet_bytes_def nth_append PACKET_LEN_WIDTH_def)
qed

lemma length_packet_bytes [simp]: "length (packet_bytes p) = length p + 2"
  by (simp add: packet_bytes_def encode_len_def)

lemma first_packet_unique:
  assumes "packet_bytes p @ xs = packet_bytes q @ ys" and "length p < 65536" and "length q < 65536"
  shows "p = q \<and> xs = ys"
proof -
  have "length p = length q" using announced_packet [of p xs] announced_packet [of q ys] assms by simp
  then show ?thesis using assms(1) by (simp add: packet_bytes_def)
qed

lemma read_packets_all:
  assumes "alive src" and "reader_ok r" and "frame_ok r" and "unread r src = concat (map packet_bytes ps)"
    and "\<forall>p\<in>set ps. length p < 65536" and "read_work r src < fuel"
  shows "read_packets fuel r src = ps"
  using assms
proof (induction fuel arbitrary: r src ps)
  case (Suc fuel)
  obtain res r' src' where e: "poll_packet r src = (res, r', src')" by (metis prod_cases3)
  note s = poll_packet_spec [OF e Suc.prems(1-3)]
  from s consider (got) p where "res = Ready (Inr p)" "length p < 65536" "unread r src = packet_bytes p @ unread r' src'" "length src' \<le> length src"
    | (wait) "res = Pending" "unread r' src' = unread r src" "src' = [] \<longrightarrow> incomplete (unread r' src')"
      "src' = [] \<or> length src' < length src" by blast
  then show ?case
  proof cases
    case got
    then have "ps \<noteq> []" using Suc.prems(4) by (auto simp: packet_bytes_def encode_len_def u16_to_be_bytes_def)
    then obtain q qs where ps: "ps = q # qs" by (cases ps) auto
    then have "p = q \<and> unread r' src' = concat (map packet_bytes qs)"
      using first_packet_unique [of p "unread r' src'" q "concat (map packet_bytes qs)"] got Suc.prems(4,5) by simp
    moreover have "read_work r' src' < fuel" using Suc.prems(6) got by (simp add: read_work_def)
    ultimately show ?thesis using Suc.IH [of src' r' qs] s e got ps Suc.prems(5) by simp
  next
    case wait
    show ?thesis
    proof (cases "src' = []")
      case True
      have "ps = []"
      proof (rule ccontr)
        assume "ps \<noteq> []"
        then obtain q qs where ps: "ps = q # qs" by (cases ps) auto
        then have "announced (unread r src) = length q + 2" "length q + 2 \<le> length (unread r src)"
          using announced_packet Suc.prems(4,5) by simp_all
        then show False using wait True by (simp add: incomplete_def PACKET_LEN_WIDTH_def)
      qed
      then show ?thesis using e wait True by simp
    next
      case False
      then have "read_work r' src' < fuel" using Suc.prems(6) wait by (auto simp: read_work_def)
      then show ?thesis using Suc.IH [of src' r' ps] s e wait False Suc.prems(4,5) by simp
    qed
  qed
qed simp

subsection \<open>The writer\<close>

text \<open>
  The memory of the vector has the length of its capacity; \<open>pw_len\<close> bytes of it belong to the vector. The queued bytes
  are those from \<open>pw_start\<close> to \<open>pw_end\<close>, or around the end of the vector when \<open>pw_end\<close> is the smaller one.
\<close>

record packet_writer =
  pw_mem :: bytes
  pw_len :: nat
  pw_start :: nat
  pw_end :: nat

definition writer_new :: "nat \<Rightarrow> packet_writer" where
  "writer_new cap = \<lparr>pw_mem = replicate cap 0, pw_len = 0, pw_start = 0, pw_end = 0\<rparr>"

text \<open>\<open>PacketWriterGuard\<close>: \<open>Extending own e\<close> writes behind the vector, \<open>own\<close> telling whether \<open>end\<close> is the writer's own field;
  \<open>Replacing written a b\<close> writes to the range from \<open>a\<close> to \<open>b\<close>.\<close>

datatype writer_guard = Extending bool nat | Replacing nat nat nat

definition guard :: "packet_writer \<Rightarrow> packet_writer \<times> writer_guard" where
  "guard w =
     (let free_cap = length (pw_mem w) - pw_len w;
          (a, b) = (if pw_end w < pw_start w then (pw_end w, pw_start w) else (0, pw_start w)) in
      if free_cap < b - a
      then (w\<lparr>pw_end := pw_end w * (if pw_len w \<noteq> pw_end w then 1 else 0)\<rparr>, Replacing 0 a b)
      else (w, if pw_start w \<le> pw_end w then Extending True (pw_end w) else Extending False (pw_len w)))"

text \<open>A codec writes a value in pieces, each of which fits or fails; what was written before a failure stays.\<close>

fun write_chunks :: "bytes \<Rightarrow> nat \<Rightarrow> nat \<Rightarrow> bytes list \<Rightarrow> bool \<times> bytes \<times> nat" where
  "write_chunks mem pos limit [] = (True, mem, pos)"
| "write_chunks mem pos limit (c # cs) =
     (if limit < pos + length c then (False, mem, pos)
      else write_chunks (fill mem pos c) (pos + length c) limit cs)"

text \<open>\<open>PacketWriterGuard::write\<close>: the range written, or a failure.\<close>

definition guard_write :: "bytes list \<Rightarrow> packet_writer \<times> writer_guard \<Rightarrow> (nat \<times> nat) option \<times> packet_writer \<times> writer_guard" where
  "guard_write value wg =
     (case wg of
        (w, Extending own e) \<Rightarrow>
          (case write_chunks (pw_mem w) e (length (pw_mem w)) value of
             (ok, mem, pos) \<Rightarrow>
               let e' = (if ok then pos else pw_len w);
                   w' = w\<lparr>pw_mem := mem, pw_end := if own then e' else pw_end w\<rparr> in
               (if ok then Some (e, pos - e) else None, w', Extending own e'))
      | (w, Replacing written a b) \<Rightarrow>
          (case write_chunks (pw_mem w) a b value of
             (ok, mem, pos) \<Rightarrow>
               (if ok then Some (a, pos - a) else None, w\<lparr>pw_mem := mem\<rparr>, Replacing (if ok then written + (pos - a) else 0) pos b)))"

definition guard_drop :: "packet_writer \<times> writer_guard \<Rightarrow> packet_writer" where
  "guard_drop wg =
     (case wg of
        (w, Extending own e) \<Rightarrow> w\<lparr>pw_len := e\<rparr>
      | (w, Replacing written a b) \<Rightarrow> w\<lparr>pw_end := pw_end w + written\<rparr>)"

text \<open>\<open>write_packet\<close>: two bytes are reserved and filled in once the length is known.\<close>

definition write_packet :: "packet_writer \<Rightarrow> bytes list \<Rightarrow> bool \<times> packet_writer" where
  "write_packet w message =
     (case guard_write [[0], [0]] (guard w) of
        (None, wg) \<Rightarrow> (False, guard_drop wg)
      | (Some (at, _), wg) \<Rightarrow>
          (case guard_write message wg of
             (None, wg') \<Rightarrow> (False, guard_drop wg')
           | (Some (_, len), (w', g)) \<Rightarrow> (True, guard_drop (w'\<lparr>pw_mem := fill (pw_mem w') at (encode_len len)\<rparr>, g))))"

definition writable_parts :: "packet_writer \<Rightarrow> bytes \<times> bytes" where
  "writable_parts w =
     (if pw_end w < pw_start w then (take (pw_len w - pw_start w) (drop (pw_start w) (pw_mem w)), take (pw_end w) (pw_mem w))
      else (take (pw_end w - pw_start w) (drop (pw_start w) (pw_mem w)), []))"

definition writer_is_empty :: "packet_writer \<Rightarrow> bool" where
  "writer_is_empty w \<longleftrightarrow> pw_len w = 0"

datatype write_result = WPending | WFail | WOk nat

text \<open>\<open>poll\<close>: the loop ends when nothing is queued, or the stream is not ready or fails. The stream is its write function and
  its state; \<open>None\<close> would be a loop that never ends.\<close>

partial_function (option) writer_poll ::
  "('d \<Rightarrow> bytes \<Rightarrow> write_result \<times> 'd) \<Rightarrow> packet_writer \<Rightarrow> 'd \<Rightarrow> ((io_error + unit) poll \<times> packet_writer \<times> 'd) option" where
  "writer_poll dest w d =
     (let (l, r) = writable_parts w;
          some_bytes = (if l \<noteq> [] then l else r) in
      if some_bytes = [] then
        let w1 = (if pw_start w = pw_end w then w\<lparr>pw_start := 0, pw_end := 0\<rparr> else w);
            w2 = (if pw_start w1 \<le> pw_end w1 then w1\<lparr>pw_len := min (pw_len w1) (pw_end w1)\<rparr> else w1) in
        Some (Ready (Inr ()), w2, d)
      else (case dest d some_bytes of
          (WPending, d') \<Rightarrow> Some (Pending, w, d')
        | (WFail, d') \<Rightarrow> Some (Ready (Inl StreamError), w, d')
        | (WOk n, d') \<Rightarrow>
            if n = 0 then Some (Ready (Inl WriteZero), w, d')
            else let s = pw_start w + n in
              writer_poll dest (w\<lparr>pw_start := s - pw_len w * (if pw_len w < s then 1 else 0)\<rparr>) d'))"

definition write_bytes :: "bytes \<Rightarrow> packet_writer \<times> writer_guard \<Rightarrow> (nat \<times> nat) option \<times> packet_writer \<times> writer_guard" where
  "write_bytes bs = guard_write [bs]"

text \<open>\<open>ClosingStream\<close>: the last byte of a stream tells why it is closed. \<open>AsocStream\<close> names the items of a stream.\<close>

definition closing_poll :: "('d \<Rightarrow> bytes \<Rightarrow> write_result \<times> 'd) \<Rightarrow> 8 word \<Rightarrow> 'd \<Rightarrow> (io_error + unit) poll \<times> 'd" where
  "closing_poll dest err d =
     (case dest d [err] of
        (WPending, d') \<Rightarrow> (Pending, d')
      | (WFail, d') \<Rightarrow> (Ready (Inl StreamError), d')
      | (WOk n, d') \<Rightarrow> (Ready (if n = 0 then Inl WriteZero else Inr ()), d'))"

record ('a, 's) asoc_stream =
  as_inner :: 's
  as_assoc :: 'a

definition asoc_poll_next :: "('s \<Rightarrow> 'i option poll \<times> 's) \<Rightarrow> ('a, 's) asoc_stream \<Rightarrow> ('a \<times> 'i) option poll \<times> ('a, 's) asoc_stream" where
  "asoc_poll_next poll_next st =
     (case poll_next (as_inner st) of
        (Pending, inner) \<Rightarrow> (Pending, st\<lparr>as_inner := inner\<rparr>)
      | (Ready opt, inner) \<Rightarrow> (Ready (map_option (\<lambda>item. (as_assoc st, item)) opt), st\<lparr>as_inner := inner\<rparr>))"

definition queued :: "packet_writer \<Rightarrow> bytes" where
  "queued w = fst (writable_parts w) @ snd (writable_parts w)"

definition writer_ok :: "packet_writer \<Rightarrow> bool" where
  "writer_ok w \<longleftrightarrow> pw_len w \<le> length (pw_mem w) \<and> pw_start w \<le> pw_len w \<and> pw_end w \<le> pw_len w"

text \<open>What \<open>AsyncWrite\<close> promises: it takes a prefix of the bytes offered, all others it leaves.\<close>

definition takes_prefix :: "('d \<Rightarrow> bytes \<Rightarrow> write_result \<times> 'd) \<Rightarrow> ('d \<Rightarrow> bytes) \<Rightarrow> bool" where
  "takes_prefix dest taken \<longleftrightarrow> (\<forall>d bs r d'. dest d bs = (r, d') \<longrightarrow>
     (case r of WOk n \<Rightarrow> n \<le> length bs \<and> taken d' = taken d @ take n bs | _ \<Rightarrow> taken d' = taken d))"

lemma slice_split:
  assumes "s + n \<le> e"
  shows "take (e - s) (drop s xs) = take n (drop s xs) @ take (e - (s + n)) (drop (s + n) xs)"
    and "take n (take (e - s) (drop s xs)) = take n (drop s xs)"
proof -
  show "take n (take (e - s) (drop s xs)) = take n (drop s xs)" using assms by (simp add: min_absorb1)
  have "e - s = n + (e - (s + n))" "drop (s + n) xs = drop n (drop s xs)" using assms by (simp_all add: add.commute)
  then show "take (e - s) (drop s xs) = take n (drop s xs) @ take (e - (s + n)) (drop (s + n) xs)"
    by (simp only: take_add)
qed

text \<open>One turn of the loop: a prefix of the queue leaves it.\<close>

lemma writer_advance:
  assumes ok: "writer_ok w" and lr: "writable_parts w = (l, r)" and n: "0 < n" "n \<le> length (if l \<noteq> [] then l else r)"
    and w': "w' = w\<lparr>pw_start := pw_start w + n - pw_len w * (if pw_len w < pw_start w + n then 1 else 0)\<rparr>"
  shows "writer_ok w'" and "queued w = take n (if l \<noteq> [] then l else r) @ queued w'"
proof -
  have "writer_ok w' \<and> queued w = take n (if l \<noteq> [] then l else r) @ queued w'"
  proof (cases "pw_end w < pw_start w")
    case True
    have l: "l = take (pw_len w - pw_start w) (drop (pw_start w) (pw_mem w))" and r: "r = take (pw_end w) (pw_mem w)"
      using lr True by (auto simp: writable_parts_def)
    show ?thesis
    proof (cases "l = []")
      case empty: True
      then have s: "pw_start w = pw_len w" using l ok by (auto simp: writer_ok_def)
      have n': "n \<le> pw_end w" using n(2) empty r ok by (simp add: writer_ok_def)
      then have "w' = w\<lparr>pw_start := n\<rparr>" using w' s n(1) by simp
      then show ?thesis using n' ok empty lr r True s
        by (auto simp: queued_def writable_parts_def writer_ok_def take_drop) (metis append_take_drop_id min.absorb1 take_take)
    next
      case False
      then have n': "pw_start w + n \<le> pw_len w" using n(2) l ok by (auto simp: writer_ok_def)
      then have "w' = w\<lparr>pw_start := pw_start w + n\<rparr>" using w' by simp
      moreover have "writer_ok (w\<lparr>pw_start := pw_start w + n\<rparr>)" using n' ok by (simp add: writer_ok_def)
      moreover have "queued w = take n l @ queued (w\<lparr>pw_start := pw_start w + n\<rparr>)"
        unfolding l slice_split(2) [OF n'] using True slice_split(1) [OF n', of "pw_mem w"]
        by (simp add: queued_def writable_parts_def)
      ultimately show ?thesis using False by simp
    qed
  next
    case False
    have l: "l = take (pw_end w - pw_start w) (drop (pw_start w) (pw_mem w))" and r: "r = []"
      using lr False by (auto simp: writable_parts_def)
    have "l \<noteq> []" using n r by auto
    then have n': "pw_start w + n \<le> pw_end w" using n(2) l ok False by (auto simp: writer_ok_def)
    then have "w' = w\<lparr>pw_start := pw_start w + n\<rparr>" using w' ok by (simp add: writer_ok_def)
    moreover have "writer_ok (w\<lparr>pw_start := pw_start w + n\<rparr>)" using n' ok by (simp add: writer_ok_def)
    moreover have "queued w = take n l @ queued (w\<lparr>pw_start := pw_start w + n\<rparr>)"
      unfolding l slice_split(2) [OF n'] using False n' slice_split(1) [OF n', of "pw_mem w"]
      by (simp add: queued_def writable_parts_def)
    ultimately show ?thesis using \<open>l \<noteq> []\<close> by simp
  qed
  then show "writer_ok w'" and "queued w = take n (if l \<noteq> [] then l else r) @ queued w'" by auto
qed

lemma writer_poll_spec:
  assumes "takes_prefix dest taken" and "writer_ok w"
  shows "\<exists>res w' d'. writer_poll dest w d = Some (res, w', d') \<and> writer_ok w' \<and> taken d @ queued w = taken d' @ queued w' \<and>
    (res = Ready (Inr ()) \<longrightarrow> queued w' = [])"
  using assms(2)
proof (induction "length (queued w)" arbitrary: w d rule: less_induct)
  case less
  obtain l r where lr: "writable_parts w = (l, r)" by force
  let ?bs = "if l \<noteq> [] then l else r"
  show ?case
  proof (cases "?bs = []")
    case True
    then have "l = []" "r = []" by (auto split: if_splits)
    then have q: "queued w = []" using lr by (simp add: queued_def)
    define w' where "w' = (if pw_start w = pw_end w then w\<lparr>pw_start := 0, pw_end := 0, pw_len := 0\<rparr>
        else if pw_start w \<le> pw_end w then w\<lparr>pw_len := min (pw_len w) (pw_end w)\<rparr> else w)"
    have w': "writer_poll dest w d = Some (Ready (Inr ()), w', d)"
      using lr \<open>l = []\<close> \<open>r = []\<close> by (subst writer_poll.simps) (simp add: Let_def w'_def)
    have "writer_ok w' \<and> queued w' = []" unfolding w'_def
      using less.prems lr \<open>l = []\<close> \<open>r = []\<close> by (auto simp: writer_ok_def queued_def writable_parts_def split: if_splits)
    then show ?thesis using w' q by auto
  next
    case False
    obtain res d1 where d: "dest d ?bs = (res, d1)" by force
    note t = assms(1) [unfolded takes_prefix_def, rule_format, OF d]
    have stop: "\<exists>r'. writer_poll dest w d = Some (r', w, d1) \<and> r' \<noteq> Ready (Inr ())" if "\<And>n. res = WOk n \<Longrightarrow> n = 0"
      using that lr d False by (subst writer_poll.simps) (cases res; auto simp: Let_def split: if_splits)
    show ?thesis
    proof (cases "\<exists>n. res = WOk n \<and> n \<noteq> 0")
      case True
      then obtain n where n: "res = WOk n" "0 < n" by blast
      let ?w = "w\<lparr>pw_start := pw_start w + n - pw_len w * (if pw_len w < pw_start w + n then 1 else 0)\<rparr>"
      have le: "n \<le> length ?bs" and tk: "taken d1 = taken d @ take n ?bs" using t n by auto
      note adv = writer_advance [OF less.prems lr n(2) le refl]
      have "length (queued ?w) < length (queued w)" using adv(2) n(2) le by simp
      then obtain res' w' d' where IH: "writer_poll dest ?w d1 = Some (res', w', d')" "writer_ok w'"
        "taken d1 @ queued ?w = taken d' @ queued w'" "res' = Ready (Inr ()) \<longrightarrow> queued w' = []"
        using less.hyps [OF _ adv(1), of d1] by blast
      have "writer_poll dest w d = writer_poll dest ?w d1"
        using lr d n False by (subst writer_poll.simps) (simp add: Let_def split del: if_split)
      moreover have "taken d @ queued w = taken d' @ queued w'" using IH(3) tk adv(2) by simp
      ultimately show ?thesis using IH by metis
    next
      case False
      then obtain r' where "writer_poll dest w d = Some (r', w, d1)" "r' \<noteq> Ready (Inr ())" using stop by blast
      moreover have "taken d1 = taken d" using t False by (cases res) auto
      ultimately show ?thesis using less.prems by auto
    qed
  qed
qed

lemma fill_fill:
  "pos + length a + length b \<le> length mem \<Longrightarrow> fill (fill mem pos a) (pos + length a) b = fill mem pos (a @ b)"
  by (simp add: fill_def ac_simps)

lemma length_fill: "pos + length bs \<le> length mem \<Longrightarrow> length (fill mem pos bs) = length mem"
  by (simp add: fill_def)

lemma fill_empty: "fill mem pos [] = mem"
  by (simp add: fill_def)

lemma drop_fill: "pos + length bs \<le> s \<Longrightarrow> pos \<le> length mem \<Longrightarrow> drop s (fill mem pos bs) = drop s mem"
  by (simp add: fill_def)

lemma take_fill: "pos \<le> length mem \<Longrightarrow> take (pos + length bs) (fill mem pos bs) = take pos mem @ bs"
  "pos \<le> length mem \<Longrightarrow> take pos (fill mem pos bs) = take pos mem"
  by (simp_all add: fill_def)

text \<open>All pieces fit, or the memory outside the range is untouched.\<close>

lemma write_chunks_spec:
  "pos \<le> limit \<Longrightarrow> limit \<le> length mem \<Longrightarrow>
   write_chunks mem pos limit cs = (if pos + length (concat cs) \<le> limit then (True, fill mem pos (concat cs), pos + length (concat cs))
     else (False, snd (write_chunks mem pos limit cs)))"
proof (induction cs arbitrary: mem pos)
  case (Cons c cs)
  show ?case
  proof (cases "limit < pos + length c")
    case False
    then have "write_chunks mem pos limit (c # cs) = write_chunks (fill mem pos c) (pos + length c) limit cs" by simp
    moreover have "limit \<le> length (fill mem pos c)" using Cons.prems False by (simp add: length_fill)
    ultimately show ?thesis using Cons.IH [of "pos + length c" "fill mem pos c"] False Cons.prems
      by (auto simp: fill_fill add.assoc)
  qed auto
qed (simp add: fill_empty)

lemma write_chunks_failed:
  "pos \<le> limit \<Longrightarrow> limit \<le> length mem \<Longrightarrow> write_chunks mem pos limit cs = (ok, mem', pos') \<Longrightarrow>
   length mem' = length mem \<and> pos \<le> pos' \<and> pos' \<le> limit \<and> take pos mem' = take pos mem \<and> drop limit mem' = drop limit mem"
proof (induction cs arbitrary: mem pos)
  case (Cons c cs)
  show ?case
  proof (cases "limit < pos + length c")
    case False
    have f: "length (fill mem pos c) = length mem" using Cons.prems False by (simp add: length_fill)
    have "take (pos + length c) mem' = take (pos + length c) (fill mem pos c) \<and> drop limit mem' = drop limit (fill mem pos c) \<and>
      length mem' = length mem \<and> pos + length c \<le> pos' \<and> pos' \<le> limit"
      using Cons.IH [of "pos + length c" "fill mem pos c"] Cons.prems False f by simp
    moreover from this have "take pos mem' = take pos (fill mem pos c)" by (metis le_add1 min.absorb1 take_take)
    moreover have "take pos (fill mem pos c) = take pos mem" "drop limit (fill mem pos c) = drop limit mem"
      using Cons.prems False by (simp_all add: fill_def)
    ultimately show ?thesis by simp
  qed (use Cons.prems in auto)
qed simp

lemma write_chunks_fit:
  "pos + length (concat cs) \<le> limit \<Longrightarrow> limit \<le> length mem \<Longrightarrow>
   write_chunks mem pos limit cs = (True, fill mem pos (concat cs), pos + length (concat cs))"
  using write_chunks_spec [of pos limit mem cs] by simp

lemma write_chunks_over:
  assumes "pos \<le> limit" and "limit \<le> length mem" and "limit < pos + length (concat cs)"
  obtains mem' pos' where "write_chunks mem pos limit cs = (False, mem', pos')" and "length mem' = length mem"
    and "take pos mem' = take pos mem" and "drop limit mem' = drop limit mem"
proof -
  obtain ok mem' pos' where w: "write_chunks mem pos limit cs = (ok, mem', pos')" by (metis prod_cases3)
  then have "\<not> ok" using write_chunks_spec [OF assms(1,2), of cs] assms(3) by simp
  then show thesis using that w write_chunks_failed [OF assms(1,2) w] by simp
qed

text \<open>The hole a packet may replace, and when it does.\<close>

definition room :: "packet_writer \<Rightarrow> nat" where
  "room w = (if pw_end w < pw_start w then pw_start w - pw_end w else pw_start w)"

definition replaces :: "packet_writer \<Rightarrow> bool" where
  "replaces w \<longleftrightarrow> length (pw_mem w) - pw_len w < room w"

lemma fill_header:
  "length h = length z \<Longrightarrow> pos + length z + length m \<le> length mem \<Longrightarrow> fill (fill mem pos (z @ m)) pos h = fill mem pos (h @ m)"
  by (simp add: fill_def ac_simps)

lemma write_packet_extending:
  assumes ok: "writer_ok w" and g: "\<not> replaces w" and e: "e = (if pw_start w \<le> pw_end w then pw_end w else pw_len w)"
    and m: "m = concat message"
  shows "e + 2 + length m \<le> length (pw_mem w) \<Longrightarrow> write_packet w message =
      (True, w\<lparr>pw_mem := fill (pw_mem w) e (packet_bytes m), pw_len := e + 2 + length m,
        pw_end := if pw_start w \<le> pw_end w then e + 2 + length m else pw_end w\<rparr>)"
    and "length (pw_mem w) < e + 2 + length m \<Longrightarrow> \<exists>mem. write_packet w message =
      (False, w\<lparr>pw_mem := mem, pw_end := if pw_start w \<le> pw_end w then pw_len w else pw_end w\<rparr>) \<and>
      length mem = length (pw_mem w) \<and> take e mem = take e (pw_mem w)"
proof -
  let ?own = "pw_start w \<le> pw_end w" and ?cap = "length (pw_mem w)"
  have gd: "guard w = (w, Extending ?own e)"
    using g by (simp add: guard_def replaces_def room_def e split: if_splits)
  have le: "e \<le> ?cap" using ok e by (simp add: writer_ok_def split: if_splits)
  have c1: "write_chunks (pw_mem w) e ?cap [[0], [0]] = (True, fill (pw_mem w) e [0, 0], e + 2)" if "e + 2 \<le> ?cap"
    using write_chunks_fit [of e "[[0], [0]]" ?cap "pw_mem w"] that by simp
  show "write_packet w message = (True, w\<lparr>pw_mem := fill (pw_mem w) e (packet_bytes m), pw_len := e + 2 + length m,
        pw_end := if ?own then e + 2 + length m else pw_end w\<rparr>)" if fits: "e + 2 + length m \<le> ?cap"
  proof -
    let ?mem1 = "fill (pw_mem w) e [0, 0]"
    have w1: "guard_write [[0], [0]] (guard w) = (Some (e, 2), w\<lparr>pw_mem := ?mem1, pw_end := if ?own then e + 2 else pw_end w\<rparr>, Extending ?own (e + 2))"
      using fits by (simp add: gd guard_write_def c1 del: write_chunks.simps)
    have l1: "length ?mem1 = ?cap" using fits by (simp add: length_fill)
    have "write_chunks ?mem1 (e + 2) ?cap message = (True, fill ?mem1 (e + 2) m, e + 2 + length m)"
      using write_chunks_fit [of "e + 2" message ?cap ?mem1] fits l1 m by simp
    then have w2: "guard_write message (w\<lparr>pw_mem := ?mem1, pw_end := if ?own then e + 2 else pw_end w\<rparr>, Extending ?own (e + 2)) =
        (Some (e + 2, length m), w\<lparr>pw_mem := fill ?mem1 (e + 2) m, pw_end := if ?own then e + 2 + length m else pw_end w\<rparr>,
         Extending ?own (e + 2 + length m))"
      using l1 by (simp add: guard_write_def)
    have "fill (fill ?mem1 (e + 2) m) e (encode_len (length m)) = fill (pw_mem w) e (packet_bytes m)"
      using fill_fill [of e "[0, 0]" m "pw_mem w"] fill_header [of "encode_len (length m)" "[0, 0]" e m "pw_mem w"] fits
      by (simp add: packet_bytes_def encode_len_def)
    then show ?thesis using w1 w2 by (simp add: write_packet_def guard_drop_def)
  qed
  show "\<exists>mem. write_packet w message = (False, w\<lparr>pw_mem := mem, pw_end := if ?own then pw_len w else pw_end w\<rparr>) \<and>
      length mem = ?cap \<and> take e mem = take e (pw_mem w)" if over: "?cap < e + 2 + length m"
  proof (cases "e + 2 \<le> ?cap")
    case True
    let ?mem1 = "fill (pw_mem w) e [0, 0]"
    have w1: "guard_write [[0], [0]] (guard w) = (Some (e, 2), w\<lparr>pw_mem := ?mem1, pw_end := if ?own then e + 2 else pw_end w\<rparr>, Extending ?own (e + 2))"
      using True by (simp add: gd guard_write_def c1 del: write_chunks.simps)
    have l1: "length ?mem1 = ?cap" using True by (simp add: length_fill)
    have "?cap < e + 2 + length (concat message)" "e + 2 \<le> ?cap" "?cap \<le> length ?mem1" using over True l1 m by simp_all
    then obtain mem pos where c2: "write_chunks ?mem1 (e + 2) ?cap message = (False, mem, pos)"
      and f: "length mem = length ?mem1" "take (e + 2) mem = take (e + 2) ?mem1"
      using write_chunks_over [of "e + 2" ?cap ?mem1 message] by blast
    have "take e mem = take e ?mem1" using f(2) by (metis le_add1 min.absorb1 take_take)
    also have "\<dots> = take e (pw_mem w)" using le by (simp add: fill_def)
    finally show ?thesis using w1 c2 f(1) l1
      by (intro exI [of _ mem]) (simp add: write_packet_def guard_write_def guard_drop_def Let_def)
  next
    case False
    then obtain mem pos where c2: "write_chunks (pw_mem w) e ?cap [[0], [0]] = (False, mem, pos)"
      and "length mem = ?cap" "take e mem = take e (pw_mem w)"
      using write_chunks_over [OF le order_refl, of "[[0], [0]]"] by auto
    then show ?thesis using c2
      by (intro exI [of _ mem]) (simp add: write_packet_def gd guard_write_def guard_drop_def Let_def)
  qed
qed

lemma write_packet_replacing:
  assumes ok: "writer_ok w" and g: "replaces w" and a: "a = (if pw_end w < pw_start w then pw_end w else 0)"
    and m: "m = concat message" and e: "e = (if pw_len w = pw_end w then 0 else pw_end w)"
  shows "2 + length m \<le> room w \<Longrightarrow> write_packet w message =
      (True, w\<lparr>pw_mem := fill (pw_mem w) a (packet_bytes m), pw_end := e + 2 + length m\<rparr>)"
    and "room w < 2 + length m \<Longrightarrow> \<exists>mem. write_packet w message = (False, w\<lparr>pw_mem := mem, pw_end := e\<rparr>) \<and>
      length mem = length (pw_mem w) \<and> take a mem = take a (pw_mem w) \<and> drop (pw_start w) mem = drop (pw_start w) (pw_mem w)"
proof -
  let ?b = "pw_start w" and ?w = "w\<lparr>pw_end := e\<rparr>"
  have ab: "a \<le> ?b" "?b \<le> length (pw_mem w)" "?b - a = room w" using ok a by (auto simp: room_def writer_ok_def)
  have gd: "guard w = (?w, Replacing 0 a ?b)"
    using g a e by (auto simp: guard_def replaces_def room_def split: if_splits)
  have c1: "write_chunks (pw_mem w) a ?b [[0], [0]] = (True, fill (pw_mem w) a [0, 0], a + 2)" if "a + 2 \<le> ?b"
    using write_chunks_fit [of a "[[0], [0]]" ?b "pw_mem w"] that ab(2) by simp
  show "write_packet w message = (True, w\<lparr>pw_mem := fill (pw_mem w) a (packet_bytes m), pw_end := e + 2 + length m\<rparr>)"
    if fits: "2 + length m \<le> room w"
  proof -
    let ?mem1 = "fill (pw_mem w) a [0, 0]"
    have w1: "guard_write [[0], [0]] (guard w) = (Some (a, 2), ?w\<lparr>pw_mem := ?mem1\<rparr>, Replacing 2 (a + 2) ?b)"
      using fits ab by (simp add: gd guard_write_def c1 del: write_chunks.simps)
    have l1: "length ?mem1 = length (pw_mem w)" using fits ab by (simp add: length_fill)
    have "write_chunks ?mem1 (a + 2) ?b message = (True, fill ?mem1 (a + 2) m, a + 2 + length m)"
      using write_chunks_fit [of "a + 2" message ?b ?mem1] fits l1 m ab by simp
    then have w2: "guard_write message (?w\<lparr>pw_mem := ?mem1\<rparr>, Replacing 2 (a + 2) ?b) =
        (Some (a + 2, length m), ?w\<lparr>pw_mem := fill ?mem1 (a + 2) m\<rparr>, Replacing (2 + length m) (a + 2 + length m) ?b)"
      by (simp add: guard_write_def)
    have "fill (fill ?mem1 (a + 2) m) a (encode_len (length m)) = fill (pw_mem w) a (packet_bytes m)"
      using fill_fill [of a "[0, 0]" m "pw_mem w"] fill_header [of "encode_len (length m)" "[0, 0]" a m "pw_mem w"] fits ab
      by (simp add: packet_bytes_def encode_len_def)
    then show ?thesis using w1 w2 by (simp add: write_packet_def guard_drop_def)
  qed
  show "\<exists>mem. write_packet w message = (False, w\<lparr>pw_mem := mem, pw_end := e\<rparr>) \<and>
      length mem = length (pw_mem w) \<and> take a mem = take a (pw_mem w) \<and> drop ?b mem = drop ?b (pw_mem w)"
    if over: "room w < 2 + length m"
  proof (cases "a + 2 \<le> ?b")
    case True
    let ?mem1 = "fill (pw_mem w) a [0, 0]"
    have w1: "guard_write [[0], [0]] (guard w) = (Some (a, 2), ?w\<lparr>pw_mem := ?mem1\<rparr>, Replacing 2 (a + 2) ?b)"
      using True by (simp add: gd guard_write_def c1 del: write_chunks.simps)
    have l1: "length ?mem1 = length (pw_mem w)" using True ab by (simp add: length_fill)
    have "?b < a + 2 + length (concat message)" "?b \<le> length ?mem1" using over ab l1 m by simp_all
    then obtain mem pos where c2: "write_chunks ?mem1 (a + 2) ?b message = (False, mem, pos)"
      and f: "length mem = length ?mem1" "take (a + 2) mem = take (a + 2) ?mem1" "drop ?b mem = drop ?b ?mem1"
      using write_chunks_over [of "a + 2" ?b ?mem1 message] True by blast
    have "take a mem = take a ?mem1" using f(2) by (metis le_add1 min.absorb1 take_take)
    moreover have "take a ?mem1 = take a (pw_mem w)" using ab by (simp add: take_fill)
    moreover have "drop ?b ?mem1 = drop ?b (pw_mem w)" using ab(1,2) True by (intro drop_fill) simp_all
    ultimately show ?thesis using w1 c2 f l1
      by (intro exI [of _ mem]) (simp add: write_packet_def guard_write_def guard_drop_def)
  next
    case False
    then obtain mem pos where c2: "write_chunks (pw_mem w) a ?b [[0], [0]] = (False, mem, pos)"
      and "length mem = length (pw_mem w)" "take a mem = take a (pw_mem w)" "drop ?b mem = drop ?b (pw_mem w)"
      using write_chunks_over [OF ab(1,2), of "[[0], [0]]"] by auto
    then show ?thesis using c2
      by (intro exI [of _ mem]) (simp add: write_packet_def gd guard_write_def guard_drop_def)
  qed
qed

text \<open>The queue is laid out without stale bytes behind its end.\<close>

definition tidy :: "packet_writer \<Rightarrow> bool" where
  "tidy w \<longleftrightarrow> (if pw_end w < pw_start w then replaces w else pw_end w = pw_len w)"

lemma queued_straight: "pw_start w \<le> pw_end w \<Longrightarrow> queued w = take (pw_end w - pw_start w) (drop (pw_start w) (pw_mem w))"
  by (simp add: queued_def writable_parts_def)

lemma queued_wrapped:
  "pw_end w < pw_start w \<Longrightarrow> queued w = take (pw_len w - pw_start w) (drop (pw_start w) (pw_mem w)) @ take (pw_end w) (pw_mem w)"
  by (simp add: queued_def writable_parts_def)

lemma take_drop_eq: "take k xs = take k ys \<Longrightarrow> take (k - s) (drop s xs) = take (k - s) (drop s ys)"
  by (simp add: take_drop [symmetric] drop_take [symmetric])

lemma writer_fifo_extending:
  assumes ok: "writer_ok w" and t: "pw_start w \<le> pw_end w" "pw_end w = pw_len w" and g: "\<not> replaces w"
    and w': "write_packet w message = (b, w')"
  shows "writer_ok w' \<and> queued w' = (if b then queued w @ packet_bytes (concat message) else queued w)"
proof -
  define m where "m = concat message"
  have le: "pw_end w \<le> length (pw_mem w)" using ok t by (simp add: writer_ok_def)
  note ext = write_packet_extending [OF ok g refl m_def, unfolded if_P [OF t(1)]]
  show ?thesis
  proof (cases "pw_end w + 2 + length m \<le> length (pw_mem w)")
    case True
    then have b: b "w' = w\<lparr>pw_mem := fill (pw_mem w) (pw_end w) (packet_bytes m), pw_len := pw_end w + 2 + length m,
        pw_end := pw_end w + 2 + length m\<rparr>" using ext(1) w' by auto
    have "take (pw_end w + 2 + length m) (fill (pw_mem w) (pw_end w) (packet_bytes m)) = take (pw_end w) (pw_mem w) @ packet_bytes m"
      using take_fill(1) [OF le, of "packet_bytes m"] by (simp add: ac_simps)
    from arg_cong [OF this, of "drop (pw_start w)"]
    have "take (pw_end w + 2 + length m - pw_start w) (drop (pw_start w) (fill (pw_mem w) (pw_end w) (packet_bytes m))) =
        take (pw_end w - pw_start w) (drop (pw_start w) (pw_mem w)) @ packet_bytes m"
      using t le by (simp add: drop_take)
    then show ?thesis using b True t ok
      by (simp add: queued_straight writer_ok_def length_fill m_def)
  next
    case False
    then obtain mem where b: "\<not> b" "w' = w\<lparr>pw_mem := mem, pw_end := pw_len w\<rparr>" "length mem = length (pw_mem w)"
      "take (pw_end w) mem = take (pw_end w) (pw_mem w)"
      using ext(2) w' by auto
    then show ?thesis using t ok take_drop_eq [OF b(4), of "pw_start w"] by (simp add: queued_straight writer_ok_def)
  qed
qed

lemma writer_fifo_replacing:
  assumes ok: "writer_ok w" and t: "pw_end w < pw_start w \<or> pw_end w = pw_len w" and g: "replaces w"
    and w': "write_packet w message = (b, w')"
  shows "writer_ok w' \<and> queued w' = (if b then (if 2 + length (concat message) = room w then [] else queued w @ packet_bytes (concat message))
    else queued w)"
proof -
  define m where "m = concat message"
  define a where "a = (if pw_end w < pw_start w then pw_end w else 0)"
  define e where "e = (if pw_len w = pw_end w then 0 else pw_end w)"
  have s: "0 < pw_start w" using g by (auto simp: replaces_def room_def split: if_splits)
  have ea: "e = a" using t ok by (auto simp: e_def a_def writer_ok_def)
  have as: "a < pw_start w" "pw_start w - a = room w" using s by (auto simp: a_def room_def)
  have q: "queued w = take (pw_len w - pw_start w) (drop (pw_start w) (pw_mem w)) @ take a (pw_mem w)"
    using t by (auto simp: a_def queued_wrapped queued_straight)
  have sl: "pw_start w \<le> pw_len w" "pw_len w \<le> length (pw_mem w)" using ok by (auto simp: writer_ok_def)
  note rep = write_packet_replacing [OF ok g a_def m_def e_def]
  show ?thesis
  proof (cases "2 + length m \<le> room w")
    case True
    then have b: b "w' = w\<lparr>pw_mem := fill (pw_mem w) a (packet_bytes m), pw_end := a + 2 + length m\<rparr>" using rep(1) w' ea by auto
    have fit: "a + length (packet_bytes m) \<le> length (pw_mem w)" "a + 2 + length m \<le> pw_start w" using True as sl by auto
    have ok': "writer_ok w'" using b(2) fit sl by (simp add: writer_ok_def length_fill)
    show ?thesis
    proof (cases "2 + length m = room w")
      case eq: True
      then have "a + 2 + length m = pw_start w" using as by simp
      then show ?thesis using b ok' eq by (simp add: queued_straight m_def)
    next
      case False
      then have "a + 2 + length m < pw_start w" using True as by simp
      moreover have "take (a + 2 + length m) (fill (pw_mem w) a (packet_bytes m)) = take a (pw_mem w) @ packet_bytes m"
        using take_fill(1) [of a "pw_mem w" "packet_bytes m"] fit by (simp add: ac_simps)
      moreover have "drop (pw_start w) (fill (pw_mem w) a (packet_bytes m)) = drop (pw_start w) (pw_mem w)"
        using fit by (intro drop_fill) simp_all
      ultimately show ?thesis using b ok' q False by (simp add: queued_wrapped m_def)
    qed
  next
    case False
    then obtain mem where b: "\<not> b" "w' = w\<lparr>pw_mem := mem, pw_end := a\<rparr>" "length mem = length (pw_mem w)"
      "take a mem = take a (pw_mem w)" "drop (pw_start w) mem = drop (pw_start w) (pw_mem w)"
      using rep(2) w' ea by auto
    then show ?thesis using as q sl ok by (simp add: queued_wrapped writer_ok_def)
  qed
qed

subsection \<open>Properties\<close>

definition reader_new :: packet_reader where
  "reader_new = \<lparr>read_buffer = [], read_offset = 0\<rparr>"

text \<open>C20: A reader gets every packet: from a stream that carries packets of less than 64 KiB one after the other, in pieces of any
  size and with any delays between them, polling yields exactly these packets, in order.\<close>
theorem packets_delivered:
  assumes "alive src" and "data_of src = concat (map packet_bytes ps)" and "\<forall>p\<in>set ps. length p < 65536"
    and "length (data_of src) + length src < fuel"
  shows "read_packets fuel reader_new src = ps"
  using assms by (intro read_packets_all) (simp_all add: reader_new_def reader_ok_def frame_ok_def unread_def read_work_def)

lemma packets_delivered_witness:
  "read_packets 10 reader_new [Chunk [0], NotReady, Chunk [1, 7, 0], Chunk [0]] = [[7], []]"
  by (rule packets_delivered)
    (simp_all add: alive_def data_of_def packet_bytes_def encode_len_def u16_to_be_bytes_def)




text \<open>A stream that takes the given numbers of bytes and is then not ready.\<close>

fun script_dest :: "nat list \<times> bytes \<Rightarrow> bytes \<Rightarrow> write_result \<times> nat list \<times> bytes" where
  "script_dest ([], t) bs = (WPending, [], t)"
| "script_dest (n # ns, t) bs = (WOk (min n (length bs)), ns, t @ take n bs)"

lemma script_dest_prefix: "takes_prefix script_dest snd"
  unfolding takes_prefix_def by (auto elim!: script_dest.elims split: write_result.splits simp: min_def)

declare writer_poll.simps [code]


text \<open>Behind stale bytes a packet is lost: when the queue ended before the end of the vector and the packet replaces bytes, the
  bytes that follow the queue are not those of the packet but whatever was left there.\<close>
theorem stale_bytes_queued:
  assumes "writer_ok w" and "replaces w" and "pw_start w \<le> pw_end w" and "pw_end w < pw_len w"
    and "2 + length (concat message) \<le> pw_start w"
  shows "\<exists>w'. write_packet w message = (True, w') \<and>
    queued w' = queued w @ take (2 + length (concat message)) (drop (pw_end w) (pw_mem w))"
proof -
  define k where "k = 2 + length (concat message)"
  have "room w = pw_start w" using assms(3) by (simp add: room_def)
  then have "write_packet w message = (True, w\<lparr>pw_mem := fill (pw_mem w) 0 (packet_bytes (concat message)), pw_end := pw_end w + k\<rparr>)"
    using write_packet_replacing(1) [OF assms(1,2) refl refl refl, of message] assms(3-5) by (simp add: k_def)
  moreover have "drop (pw_start w) (fill (pw_mem w) 0 (packet_bytes (concat message))) = drop (pw_start w) (pw_mem w)"
    using assms(5) by (intro drop_fill) simp_all
  moreover have "take (pw_end w + k - pw_start w) (drop (pw_start w) (pw_mem w)) =
      take (pw_end w - pw_start w) (drop (pw_start w) (pw_mem w)) @ take k (drop (pw_end w) (pw_mem w))"
    using slice_split(1) [of "pw_start w" "pw_end w - pw_start w" "pw_end w + k" "pw_mem w"] assms(3) by simp
  ultimately show ?thesis using assms(3) by (auto simp: queued_straight k_def)
qed

text \<open>A writer of capacity six gets there: two packets, of which the stream takes five and then four bytes.\<close>

definition stale_writer :: "packet_writer option" where
  "stale_writer =
     do { (_, w1, _) \<leftarrow> writer_poll script_dest (snd (write_packet (writer_new 6) [[1, 2, 3, 4]])) ([5], []);
          (_, w2, _) \<leftarrow> writer_poll script_dest (snd (write_packet w1 [[5, 6]])) ([1, 3], []);
          Some w2 }"

lemma stale_bytes_queued_witness:
  "\<exists>w w'. stale_writer = Some w \<and> queued w = [6] \<and> write_packet w [] = (True, w') \<and> queued w' = [6, 3, 4]"
proof -
  let ?w = "\<lparr>pw_mem = [0, 2, 5, 6, 3, 4], pw_len = 6, pw_start = 3, pw_end = 4\<rparr>"
  have "stale_writer = Some ?w" by code_simp
  moreover have "\<exists>w'. write_packet ?w [] = (True, w') \<and> queued w' = queued ?w @ [3, 4]"
    using stale_bytes_queued [of ?w "[]"] by (simp add: writer_ok_def replaces_def room_def)
  moreover have "queued ?w = [6]" by code_simp
  ultimately show ?thesis by auto
qed

end
