(* ===== verification/Galois.thy ===== *)
theory Galois
  imports Prelude
begin

section \<open>The field of 256 elements (\<open>berkleamp-welch/build.rs\<close>, \<open>src/galois.rs\<close>)\<close>

text \<open>
  The build script of the erasure code generates tables of logarithms, powers, inverses and products for
  the bytes; the crate multiplies and divides by looking them up. The theory models the generators, evaluates the logarithms and
  powers, and shows that the bytes with exclusive or and the product of the table are a field: the type
  \<open>gf\<close> carries the instance, so that the algebra of the library applies to the code. The vector
  instructions are modelled lane by lane.
\<close>

subsection \<open>The generated tables (\<open>build.rs\<close>)\<close>

definition FIELD_SIZE :: nat where
  "FIELD_SIZE = 256"

definition GENERATING_POLYNOMIAL :: nat where
  "GENERATING_POLYNOMIAL = 29"

definition gen_log_step :: "nat \<Rightarrow> nat \<Rightarrow> bytes \<times> nat \<Rightarrow> bytes \<times> nat" where
  "gen_log_step polynomial log st =
     (case st of (result, b) \<Rightarrow>
        let result = result[b := of_nat log]; b = 2 * b in
        (result, if FIELD_SIZE \<le> b then (b - FIELD_SIZE) XOR polynomial else b))"

definition gen_log_table :: "nat \<Rightarrow> bytes" where
  "gen_log_table polynomial = fst (fold (gen_log_step polynomial) [0..<FIELD_SIZE - 1] (replicate FIELD_SIZE 0, 1))"

definition EXP_TABLE_SIZE :: nat where
  "EXP_TABLE_SIZE = FIELD_SIZE * 2 - 2"

definition gen_exp_table :: "bytes \<Rightarrow> bytes" where
  "gen_exp_table log_table =
     fold (\<lambda>i result. let log = unat (log_table ! i) in result[log := of_nat i, log + FIELD_SIZE - 1 := of_nat i])
       [1..<FIELD_SIZE] (replicate EXP_TABLE_SIZE 0)"

definition multiply :: "bytes \<Rightarrow> bytes \<Rightarrow> u8 \<Rightarrow> u8 \<Rightarrow> u8" where
  "multiply log_table exp_table a b =
     (if a = 0 \<or> b = 0 then 0
      else exp_table ! (unat (log_table ! unat a) + unat (log_table ! unat b)))"

definition gen_mul_table :: "bytes \<Rightarrow> bytes \<Rightarrow> bytes list" where
  "gen_mul_table log_table exp_table =
     map (\<lambda>a. map (\<lambda>b. multiply log_table exp_table (of_nat a) (of_nat b)) [0..<FIELD_SIZE]) [0..<FIELD_SIZE]"

definition gen_half_step :: "bytes \<Rightarrow> bytes \<Rightarrow> nat \<Rightarrow> nat \<Rightarrow> bytes \<times> bytes \<Rightarrow> bytes \<times> bytes" where
  "gen_half_step log_table exp_table a b rows =
     (case rows of (low, high) \<Rightarrow>
        let result = (if \<not> (a = 0 \<or> b = 0) then exp_table ! (unat (log_table ! a) + unat (log_table ! b)) else 0) in
        (if b AND 15 = b then low[b := result] else low,
         if b AND 240 = b then high[drop_bit 4 b := result] else high))"

definition gen_mul_table_half :: "bytes \<Rightarrow> bytes \<Rightarrow> bytes list \<times> bytes list" where
  "gen_mul_table_half log_table exp_table =
     (let rows = map (\<lambda>a. fold (gen_half_step log_table exp_table a) [0..<FIELD_SIZE] (replicate 16 0, replicate 16 0))
            [0..<FIELD_SIZE] in
      (map fst rows, map snd rows))"

definition gen_inv_table :: "bytes \<Rightarrow> bytes \<Rightarrow> bytes" where
  "gen_inv_table log_table exp_table =
     fold (\<lambda>i result. result[i := exp_table ! (FIELD_SIZE - unat (log_table ! i) - 1)]) [1..<FIELD_SIZE] (replicate 256 0)"

definition LOG_TABLE :: bytes where
  "LOG_TABLE = gen_log_table GENERATING_POLYNOMIAL"

definition EXP_TABLE :: bytes where
  "EXP_TABLE = gen_exp_table LOG_TABLE"

definition INV_TABLE :: bytes where
  "INV_TABLE = gen_inv_table LOG_TABLE EXP_TABLE"

definition MUL_TABLE :: "bytes list" where
  "MUL_TABLE = gen_mul_table LOG_TABLE EXP_TABLE"

definition MUL_TABLE_LOW :: "bytes list" where
  "MUL_TABLE_LOW = fst (gen_mul_table_half LOG_TABLE EXP_TABLE)"

definition MUL_TABLE_HIGH :: "bytes list" where
  "MUL_TABLE_HIGH = snd (gen_mul_table_half LOG_TABLE EXP_TABLE)"

subsection \<open>The powers of the generator\<close>

text \<open>Multiplication by the generator, on bytes: what a turn of the loop of \<open>gen_log_table\<close> does.\<close>

definition xtime :: "u8 \<Rightarrow> u8" where
  "xtime w = push_bit 1 w XOR (if bit w 7 then 29 else 0)"

definition pow2 :: "nat \<Rightarrow> u8" where
  "pow2 n = (xtime ^^ n) 1"

text \<open>The same on integers, for evaluation.\<close>

definition xtime_int :: "int \<Rightarrow> int" where
  "xtime_int b = (if 128 \<le> b then (2 * b - 256) XOR 29 else 2 * b)"

primrec xtimes :: "nat \<Rightarrow> int \<Rightarrow> int list" where
  "xtimes 0 b = []"
| "xtimes (Suc n) b = b # xtimes n (xtime_int b)"

lemma xtime_xor: "xtime (a XOR b) = xtime a XOR xtime b"
  by (rule bit_word_eqI) (auto simp: xtime_def bit_simps)

lemma xtime_0 [simp]: "xtime 0 = 0"
  by (simp add: xtime_def)

lemma bit_xtime_0: "bit (xtime w) 0 = bit w 7"
  by (simp add: xtime_def bit_xor_iff bit_push_bit_iff del: push_bit_Suc)

lemma bit_xtime_Suc: "\<not> bit w 7 \<Longrightarrow> i < 7 \<Longrightarrow> bit (xtime w) (Suc i) = bit w i"
  unfolding xtime_def by (simp only: bit_xor_iff bit_push_bit_iff) simp

lemma xtime_eq_0: "xtime w = 0 \<longleftrightarrow> w = 0"
proof
  assume e: "xtime w = 0"
  then have 7: "\<not> bit w 7" using bit_xtime_0 [of w] by simp
  have "\<not> bit w i" if "i < 8" for i
    using bit_xtime_Suc [OF 7, of i] e 7 that by (cases "i = 7") auto
  then show "w = 0" by (intro bit_word_eqI) simp
qed simp

lemma inj_xtime: "inj xtime"
proof (rule injI)
  fix a b assume "xtime a = xtime b"
  then have "xtime (a XOR b) = 0" by (simp add: xtime_xor)
  then have "(a XOR b) XOR b = b" by (simp add: xtime_eq_0)
  then show "a = b" by (simp add: xor.assoc)
qed

lemma pow2_0 [simp]: "pow2 0 = 1"
  by (simp add: pow2_def)

lemma pow2_Suc: "pow2 (Suc n) = xtime (pow2 n)"
  by (simp add: pow2_def)

lemma xtime_power: "(xtime ^^ m) (pow2 n) = pow2 (m + n)"
  by (simp add: pow2_def funpow_add)

lemma pow2_nonzero [simp]: "pow2 n \<noteq> 0"
  by (induction n) (simp_all add: pow2_Suc xtime_eq_0)

lemma uint_xtime: "uint (xtime w) = xtime_int (uint w)"
proof -
  have u: "0 \<le> uint w" "uint w < 256" using uint_bounded [of w] by simp_all
  have "bit w 7 \<longleftrightarrow> bit (uint w) 7" by (simp add: bit_uint_iff)
  also have "\<dots> \<longleftrightarrow> odd (uint w div 128)" by (simp add: bit_iff_odd)
  also have "\<dots> \<longleftrightarrow> 128 \<le> uint w" using u by (cases "128 \<le> uint w") (simp_all add: div_pos_geq)
  finally have b: "bit w 7 \<longleftrightarrow> 128 \<le> uint w" .
  have "uint (push_bit 1 w) = take_bit 8 (2 * uint w)" by (simp add: uint_word_ariths take_bit_eq_mod mult.commute)
  moreover have "take_bit 8 (2 * uint w) = (if 128 \<le> uint w then 2 * uint w - 256 else 2 * uint w)"
    using u mod_pos_pos_trivial [of "2 * uint w" 256] mod_pos_pos_trivial [of "2 * uint w - 256" 256]
      minus_mod_self2 [of "2 * uint w" 256] by (simp add: take_bit_eq_mod)
  ultimately show ?thesis using b by (simp add: xtime_def xtime_int_def unsigned_xor_eq del: push_bit_Suc)
qed

lemma xtimes_eq: "xtimes n (uint w) = map (\<lambda>i. uint ((xtime ^^ i) w)) [0..<n]"
  by (induction n arbitrary: w) (auto simp: uint_xtime [symmetric] funpow_swap1 map_upt_Suc simp del: upt_Suc)

lemma xtimes_last: "last (xtimes (Suc n) (uint w)) = uint ((xtime ^^ n) w)"
  by (simp add: xtimes_eq del: xtimes.simps)

lemma xtimes_tl: "list_all P (tl (xtimes n (uint w))) \<Longrightarrow> 0 < i \<Longrightarrow> i < n \<Longrightarrow> P (uint ((xtime ^^ i) w))"
  by (simp add: xtimes_eq list_all_iff map_tl [symmetric])

lemma pow2_255: "pow2 255 = 1"
proof -
  have "last (xtimes (Suc 255) 1) = 1" by code_simp
  then show ?thesis using xtimes_last [of 255 1] by (simp only: pow2_def uint_1 word_uint_eq_iff)
qed

lemma pow2_order: "0 < n \<Longrightarrow> n < 255 \<Longrightarrow> pow2 n \<noteq> 1"
proof -
  assume n: "0 < n" "n < 255"
  have "list_all (\<lambda>b. b \<noteq> 1) (tl (xtimes 255 1))" by code_simp
  then have "list_all (\<lambda>b. b \<noteq> 1) (tl (xtimes 255 (uint (1 :: u8))))" by (simp only: uint_1)
  from xtimes_tl [OF this n] show ?thesis by (auto simp: pow2_def)
qed

lemma pow2_mod: "pow2 (n mod 255) = pow2 n"
proof (induction n rule: less_induct)
  case (less n)
  show ?case
  proof (cases "n < 255")
    case False
    then have "pow2 n = (xtime ^^ (n - 255)) (pow2 255)" by (simp add: xtime_power)
    also have "\<dots> = pow2 (n - 255)" by (simp only: pow2_255) (simp add: pow2_def)
    finally show ?thesis using less [of "n - 255"] False by (simp add: le_mod_geq)
  qed simp
qed

lemma pow2_inj: "inj_on pow2 {..<255}"
proof -
  have "pow2 m \<noteq> pow2 n" if "m < n" "n < 255" for m n
  proof
    assume "pow2 m = pow2 n"
    then have "(xtime ^^ m) 1 = (xtime ^^ m) (pow2 (n - m))" using that by (simp add: xtime_power) (simp add: pow2_def)
    then have "pow2 (n - m) = 1" by (simp add: inj_eq [OF inj_fn [OF inj_xtime]])
    then show False using pow2_order [of "n - m"] that by simp
  qed
  then show ?thesis by (intro inj_onI) (metis lessThan_iff linorder_neqE_nat)
qed

lemma pow2_eq_iff: "pow2 m = pow2 n \<longleftrightarrow> m mod 255 = n mod 255"
  using inj_onD [OF pow2_inj, of "m mod 255" "n mod 255"] pow2_mod by (metis lessThan_iff mod_less_divisor zero_less_numeral)

lemma pow2_surj: "w \<noteq> 0 \<Longrightarrow> \<exists>n<255. pow2 n = w"
proof -
  assume w: "w \<noteq> 0"
  have "card (pow2 ` {..<255}) = 255" using card_image [OF pow2_inj] by simp
  moreover have "card (UNIV - {0 :: u8}) = 255" by (simp add: card_Diff_singleton card_word)
  ultimately have "pow2 ` {..<255} = UNIV - {0}" by (intro card_subset_eq) auto
  then have "w \<in> pow2 ` {..<255}" using w by simp
  then show ?thesis by auto
qed

subsection \<open>What the tables hold\<close>

lemma gen_log_step_eq:
  "gen_log_step GENERATING_POLYNOMIAL n (result, unat w) = (result[unat w := of_nat n], unat (xtime w))"
proof -
  have "(128 \<le> unat w) = (128 \<le> int (unat w))" by linarith
  then have "int (if 256 \<le> 2 * unat w then (2 * unat w - 256) XOR 29 else 2 * unat w) = xtime_int (int (unat w))"
    by (simp add: xtime_int_def of_nat_xor_eq of_nat_diff)
  then show ?thesis
    using uint_xtime [of w] by (simp add: gen_log_step_def FIELD_SIZE_def GENERATING_POLYNOMIAL_def Let_def split: if_splits flip: of_nat_eq_iff [where 'a = int])
qed

lemma gen_log_loop:
  assumes "n \<le> 255"
  shows "\<exists>result. fold (gen_log_step GENERATING_POLYNOMIAL) [0..<n] (replicate FIELD_SIZE 0, 1) = (result, unat (pow2 n)) \<and>
    length result = 256 \<and> (\<forall>m<n. result ! unat (pow2 m) = of_nat m)"
  using assms
proof (induction n)
  case (Suc n)
  then obtain result where r: "fold (gen_log_step GENERATING_POLYNOMIAL) [0..<n] (replicate FIELD_SIZE 0, 1) = (result, unat (pow2 n))"
    "length result = 256" "\<forall>m<n. result ! unat (pow2 m) = of_nat m" by auto
  have "unat (pow2 n) < 256" using unat_less_exp [of "pow2 n"] by simp
  moreover have "unat (pow2 n) \<noteq> unat (pow2 m)" if "m < n" for m
    using inj_onD [OF pow2_inj, of m n] that Suc.prems by (metis lessThan_iff less_imp_neq less_trans word_unat_eq_iff Suc_le_lessD)
  ultimately show ?case using r by (auto simp: gen_log_step_eq pow2_Suc nth_list_update less_Suc_eq)
qed (simp add: FIELD_SIZE_def)

text \<open>The logarithm of a byte.\<close>

definition log2 :: "u8 \<Rightarrow> nat" where
  "log2 w = unat (LOG_TABLE ! unat w)"

lemma log2_pow2: "n < 255 \<Longrightarrow> log2 (pow2 n) = n"
  using gen_log_loop [of 255] by (auto simp: log2_def LOG_TABLE_def gen_log_table_def FIELD_SIZE_def unat_of_nat)

lemma length_LOG_TABLE: "length LOG_TABLE = 256"
  using gen_log_loop [of 255] by (auto simp: LOG_TABLE_def gen_log_table_def FIELD_SIZE_def)

lemma pow2_log2: "w \<noteq> 0 \<Longrightarrow> pow2 (log2 w) = w"
  using pow2_surj log2_pow2 by metis

lemma log2_bound: "w \<noteq> 0 \<Longrightarrow> log2 w < 255"
  using pow2_surj log2_pow2 by metis

lemma log2_inj: "v \<noteq> 0 \<Longrightarrow> w \<noteq> 0 \<Longrightarrow> log2 v = log2 w \<longleftrightarrow> v = w"
  using pow2_log2 by metis

lemma of_nat_u8: "0 < i \<Longrightarrow> i < 256 \<Longrightarrow> (of_nat i :: u8) \<noteq> 0 \<and> unat (of_nat i :: u8) = i"
  by (simp add: unat_of_nat word_of_nat_eq_0_iff dvd_imp_le nat_dvd_not_less)

lemma gen_exp_loop:
  assumes "n \<le> 256"
  shows "\<exists>result. fold (\<lambda>i result. let log = unat (LOG_TABLE ! i) in result[log := of_nat i, log + FIELD_SIZE - 1 := of_nat i])
      [1..<n] (replicate EXP_TABLE_SIZE 0) = result \<and> length result = 510 \<and>
    (\<forall>w. w \<noteq> 0 \<longrightarrow> unat w < n \<longrightarrow> result ! log2 w = w \<and> result ! (log2 w + 255) = w)"
  using assms
proof (induction n)
  case (Suc n)
  show ?case
  proof (cases "n = 0")
    case True
    then show ?thesis by (simp add: EXP_TABLE_SIZE_def FIELD_SIZE_def unat_eq_0)
  next
    case False
    define v :: u8 where "v = of_nat n"
    have v: "v \<noteq> 0" "unat v = n" using of_nat_u8 [of n] False Suc.prems by (simp_all add: v_def)
    obtain result where r: "fold (\<lambda>i result. let log = unat (LOG_TABLE ! i) in result[log := of_nat i, log + FIELD_SIZE - 1 := of_nat i])
        [1..<n] (replicate EXP_TABLE_SIZE 0) = result" "length result = 510"
      "\<forall>w. w \<noteq> 0 \<longrightarrow> unat w < n \<longrightarrow> result ! log2 w = w \<and> result ! (log2 w + 255) = w"
      using Suc by auto
    have b: "log2 v < 255" using log2_bound v by simp
    have n: "unat (LOG_TABLE ! n) = log2 v" "(of_nat n :: u8) = v" using v(2) by (simp_all add: log2_def v_def)
    let ?r = "result[log2 v := v, log2 v + 255 := v]"
    have "?r ! log2 w = w \<and> ?r ! (log2 w + 255) = w" if w: "w \<noteq> 0" "unat w < Suc n" for w
    proof (cases "w = v")
      case True
      then show ?thesis using b r(2) by (simp add: nth_list_update)
    next
      case False
      then have "unat w < n" using w v(2) by (metis less_Suc_eq word_unat_eq_iff)
      moreover have "log2 w \<noteq> log2 v" "log2 w < 255" using log2_inj log2_bound w v False by auto
      ultimately show ?thesis using r(3) w b by auto
    qed
    then show ?thesis using r False by (intro exI [of _ ?r]) (simp add: n Let_def FIELD_SIZE_def add.commute [of 255])
  qed
qed (simp add: EXP_TABLE_SIZE_def FIELD_SIZE_def)

lemma EXP_TABLE_pow2: "n < 510 \<Longrightarrow> EXP_TABLE ! n = pow2 n"
proof -
  assume n: "n < 510"
  define m where "m = n mod 255"
  have m: "m < 255" "n = m \<or> n = m + 255" using n by (auto simp: m_def mod_if [of n] mod_if [of "n - 255"])
  have "pow2 m \<noteq> 0 \<and> unat (pow2 m) < 256" using unat_less_exp [of "pow2 m"] by simp
  then have "EXP_TABLE ! log2 (pow2 m) = pow2 m \<and> EXP_TABLE ! (log2 (pow2 m) + 255) = pow2 m"
    using gen_exp_loop [of 256] by (auto simp: EXP_TABLE_def gen_exp_table_def FIELD_SIZE_def)
  then show ?thesis using m log2_pow2 [OF m(1)] pow2_mod [of n] by (auto simp: m_def)
qed

lemma length_EXP_TABLE: "length EXP_TABLE = 510"
  using gen_exp_loop [of 256] by (auto simp: EXP_TABLE_def gen_exp_table_def FIELD_SIZE_def)

subsection \<open>The operations (\<open>galois.rs\<close>)\<close>

definition galois_add :: "u8 \<Rightarrow> u8 \<Rightarrow> u8" where
  "galois_add a b = a XOR b"

definition galois_mul :: "u8 \<Rightarrow> u8 \<Rightarrow> u8" where
  "galois_mul a b = MUL_TABLE ! unat a ! unat b"

definition galois_div :: "u8 \<Rightarrow> u8 \<Rightarrow> u8 option" where
  "galois_div a b =
     (if b = 0 then None
      else if a = 0 then Some 0
      else if a = 1 then Some (INV_TABLE ! unat b)
      else let log_a = unat (LOG_TABLE ! unat a); log_b = unat (LOG_TABLE ! unat b);
               log_result = int log_a - int log_b;
               log_result = (if log_result < 0 then log_result + 255 else log_result) in
           Some (EXP_TABLE ! nat log_result))"

fun exp_reduce :: "nat \<Rightarrow> nat" where
  "exp_reduce log_result = (if 255 \<le> log_result then exp_reduce (log_result - 255) else log_result)"

declare exp_reduce.simps [simp del]

definition galois_exp :: "u8 \<Rightarrow> nat \<Rightarrow> u8" where
  "galois_exp a n =
     (if n = 0 then 1
      else if a = 0 then 0
      else EXP_TABLE ! exp_reduce ((unat (LOG_TABLE ! unat a) * n) mod 2 ^ 64))"

definition mul_slice_xor :: "u8 \<Rightarrow> bytes \<Rightarrow> bytes \<Rightarrow> bytes run" where
  "mul_slice_xor c input out =
     (if length input \<noteq> length out then Panic
      else Done (map2 (\<lambda>i o'. o' XOR MUL_TABLE ! unat c ! unat i) input out))"

definition mul_slice_in_place :: "u8 \<Rightarrow> bytes \<Rightarrow> bytes" where
  "mul_slice_in_place c out = map (\<lambda>o'. MUL_TABLE ! unat c ! unat o') out"

text \<open>
  The versions for processors with vector instructions: \<open>LANES\<close> bytes at a time, each split into its two halves, which select
  from two tables of sixteen products; the rest of the slice is left to the scalar version.
\<close>

definition swizzle_dyn :: "bytes \<Rightarrow> bytes \<Rightarrow> bytes" where
  "swizzle_dyn table idxs = map (\<lambda>i. if unat i < length table then table ! unat i else 0) idxs"

definition simd_products :: "nat \<Rightarrow> u8 \<Rightarrow> bytes \<Rightarrow> bytes" where
  "simd_products lanes c is =
     (let low = concat (replicate (lanes div 16) (MUL_TABLE_LOW ! unat c));
          high = concat (replicate (lanes div 16) (MUL_TABLE_HIGH ! unat c)) in
      map2 (XOR) (swizzle_dyn low (map (\<lambda>i. i AND 15) is)) (swizzle_dyn high (map (\<lambda>i. drop_bit 4 i AND 15) is)))"

fun xor_simd_loop :: "nat \<Rightarrow> u8 \<Rightarrow> bytes \<Rightarrow> bytes \<Rightarrow> bytes run" where
  "xor_simd_loop lanes c input out =
     (if lanes = 0 \<or> length input < lanes \<or> length out < lanes then mul_slice_xor c input out
      else run_bind (xor_simd_loop lanes c (drop lanes input) (drop lanes out))
        (\<lambda>rest. Done (map2 (XOR) (take lanes out) (simd_products lanes c (take lanes input)) @ rest)))"

definition mul_slice_xor_simd :: "nat \<Rightarrow> u8 \<Rightarrow> bytes \<Rightarrow> bytes \<Rightarrow> bytes run" where
  "mul_slice_xor_simd lanes c input out =
     (if length input \<noteq> length out then Panic else xor_simd_loop lanes c input out)"

fun mul_slice_in_place_simd :: "nat \<Rightarrow> u8 \<Rightarrow> bytes \<Rightarrow> bytes" where
  "mul_slice_in_place_simd lanes c out =
     (if lanes = 0 \<or> length out < lanes then mul_slice_in_place c out
      else map2 (XOR) (take lanes out) (simd_products lanes c (take lanes out)) @
        mul_slice_in_place_simd lanes c (drop lanes out))"

declare xor_simd_loop.simps [simp del] mul_slice_in_place_simd.simps [simp del]

lemma galois_mul_eq: "galois_mul a b = (if a = 0 \<or> b = 0 then 0 else pow2 (log2 a + log2 b))"
proof -
  have "unat a < 256" "unat b < 256" using unat_less_exp [of a] unat_less_exp [of b] by simp_all
  then have "galois_mul a b = multiply LOG_TABLE EXP_TABLE a b"
    by (simp add: galois_mul_def MUL_TABLE_def gen_mul_table_def FIELD_SIZE_def)
  moreover have "log2 a + log2 b < 510" if "a \<noteq> 0" "b \<noteq> 0" using log2_bound that by (metis add_less_mono numeral_Bit0)
  ultimately show ?thesis by (auto simp: multiply_def EXP_TABLE_pow2 log2_def)
qed

lemma galois_mul_xtime: "a \<noteq> 0 \<Longrightarrow> galois_mul a b = (xtime ^^ log2 a) b"
proof (cases "b = 0")
  case True
  have "(xtime ^^ n) 0 = 0" for n by (induction n) simp_all
  then show ?thesis using True by (simp add: galois_mul_eq)
next
  case False
  assume "a \<noteq> 0"
  then show ?thesis using False xtime_power [of "log2 a" "log2 b"] by (simp add: galois_mul_eq pow2_log2)
qed

lemma galois_mul_pow2: "galois_mul (pow2 m) (pow2 n) = pow2 (m + n)"
proof -
  have "log2 (pow2 k) mod 255 = k mod 255" for k using pow2_log2 [of "pow2 k"] pow2_eq_iff by simp
  then show ?thesis by (simp add: galois_mul_eq pow2_eq_iff) (metis mod_add_eq)
qed

lemma galois_mul_comm: "galois_mul a b = galois_mul b a"
  by (simp add: galois_mul_eq add.commute)

lemma galois_mul_assoc: "galois_mul (galois_mul a b) c = galois_mul a (galois_mul b c)"
proof (cases "a = 0 \<or> b = 0 \<or> c = 0")
  case True
  then show ?thesis by (auto simp: galois_mul_eq)
next
  case False
  then obtain i j k where "a = pow2 i" "b = pow2 j" "c = pow2 k" using pow2_surj by metis
  then show ?thesis by (simp add: galois_mul_pow2 add.assoc)
qed

lemma xtimes_xor: "(xtime ^^ n) (a XOR b) = (xtime ^^ n) a XOR (xtime ^^ n) b"
  by (induction n) (simp_all add: xtime_xor)

lemma galois_mul_xor: "galois_mul c (a XOR b) = galois_mul c a XOR galois_mul c b"
proof (cases "c = 0")
  case False
  then show ?thesis by (simp add: galois_mul_xtime xtimes_xor)
qed (simp add: galois_mul_eq)

lemma log2_1 [simp]: "log2 1 = 0"
  using log2_pow2 [of 0] by simp

lemma galois_mul_1: "galois_mul 1 a = a"
  by (simp add: galois_mul_xtime)

lemma INV_TABLE_inverse: "w \<noteq> 0 \<Longrightarrow> galois_mul w (INV_TABLE ! unat w) = 1" "INV_TABLE ! 0 = 0"
proof -
  have f: "length (fold (\<lambda>i result. result[i := f i]) [1..<n] (replicate 256 (0 :: u8))) = 256 \<and>
      (\<forall>j<256. fold (\<lambda>i result. result[i := f i]) [1..<n] (replicate 256 0) ! j = (if 0 < j \<and> j < n then f j else 0))"
    if "n \<le> 256" for f n using that by (induction n) (auto simp: nth_list_update)
  show "INV_TABLE ! 0 = 0" using f [of 256] by (simp add: INV_TABLE_def gen_inv_table_def FIELD_SIZE_def)
  assume w: "w \<noteq> 0"
  have "unat w < 256" "0 < unat w" using unat_less_exp [of w] w by (simp_all add: unat_gt_0)
  then have "INV_TABLE ! unat w = EXP_TABLE ! (255 - log2 w)"
    using f [of 256] by (simp add: INV_TABLE_def gen_inv_table_def FIELD_SIZE_def log2_def)
  also have "\<dots> = pow2 (255 - log2 w)" by (simp add: EXP_TABLE_pow2)
  finally show "galois_mul w (INV_TABLE ! unat w) = 1"
    using galois_mul_pow2 [of "log2 w" "255 - log2 w"] log2_bound [OF w] by (simp add: pow2_log2 w pow2_255)
qed

subsection \<open>The field\<close>

typedef gf = "UNIV :: u8 set" morphisms byte_of gf ..

setup_lifting type_definition_gf

instantiation gf :: field
begin

lift_definition zero_gf :: gf is 0 .
lift_definition one_gf :: gf is 1 .
lift_definition plus_gf :: "gf \<Rightarrow> gf \<Rightarrow> gf" is galois_add .
lift_definition minus_gf :: "gf \<Rightarrow> gf \<Rightarrow> gf" is galois_add .
lift_definition uminus_gf :: "gf \<Rightarrow> gf" is "\<lambda>a. a" .
lift_definition times_gf :: "gf \<Rightarrow> gf \<Rightarrow> gf" is galois_mul .
lift_definition inverse_gf :: "gf \<Rightarrow> gf" is "\<lambda>a. INV_TABLE ! unat a" .
lift_definition divide_gf :: "gf \<Rightarrow> gf \<Rightarrow> gf" is "\<lambda>a b. galois_mul a (INV_TABLE ! unat b)" .

instance
proof
  fix a b c :: gf
  show "a + b + c = a + (b + c)" "a + b = b + a" "0 + a = a" "- a + a = 0" "a - b = a + - b"
    by (transfer; simp add: galois_add_def ac_simps)+
  show "a * b * c = a * (b * c)" by transfer (rule galois_mul_assoc)
  show "a * b = b * a" by transfer (rule galois_mul_comm)
  show "1 * a = a" by transfer (rule galois_mul_1)
  show "(a + b) * c = a * c + b * c"
    by transfer (metis galois_add_def galois_mul_comm galois_mul_xor)
  show "inverse a * a = 1" if "a \<noteq> 0"
    using that by transfer (metis INV_TABLE_inverse(1) galois_mul_comm)
  show "a div b = a * inverse b" "inverse (0 :: gf) = 0"
    by (transfer; simp add: INV_TABLE_inverse(2))+
  show "(0 :: gf) \<noteq> 1" by transfer simp
qed

end

lemma gf_char2 [simp]: "(a :: gf) + a = 0" "- a = a" "a - b = a + b"
  by (transfer; simp add: galois_add_def)+

lemma gf_two [simp]: "(2 :: gf) = 0"
  using gf_char2(1) [of 1] by (simp only: one_add_one)

lemma gf_add_cancel [simp]: "(a :: gf) + (a + b) = b"
  by (simp add: add.assoc [symmetric])

lemma gf_add_eq_0: "(a :: gf) + b = 0 \<longleftrightarrow> a = b"
  using eq_iff_diff_eq_0 [of a b] by simp

lemma gf_inject [simp]: "gf a = gf b \<longleftrightarrow> a = b"
  by (simp add: gf_inject)

lemma gf_simps: "gf 0 = 0" "gf 1 = 1" "gf (a XOR b) = gf a + gf b" "gf (galois_mul a b) = gf a * gf b"
  "gf (INV_TABLE ! unat a) = inverse (gf a)" "gf (galois_add a b) = gf a + gf b"
  by (simp_all add: zero_gf.abs_eq one_gf.abs_eq plus_gf.abs_eq times_gf.abs_eq inverse_gf.abs_eq galois_add_def)

lemma gf_eq_0: "gf a = 0 \<longleftrightarrow> a = 0" "gf a = 1 \<longleftrightarrow> a = 1"
  using gf_inject [of a 0] gf_inject [of a 1] by (simp_all add: gf_simps)

lemma card_gf: "finite (UNIV :: gf set)"
proof -
  have "UNIV = gf ` UNIV" using gf_cases by blast
  then show ?thesis by (metis finite_imageI finite_code)
qed

definition alpha :: gf where
  "alpha = gf 2"

lemma pow2_1: "pow2 (Suc 0) = 2"
  by (simp add: pow2_def xtime_def)

lemma gf_pow2: "gf (pow2 n) = alpha ^ n"
proof (induction n)
  case (Suc n)
  have "gf (pow2 (Suc n)) = gf (pow2 1) * gf (pow2 n)"
    using galois_mul_pow2 [of 1 n] by (simp add: gf_simps [symmetric])
  then show ?case using Suc by (simp add: pow2_1 flip: alpha_def)
qed (simp add: gf_simps)

lemma gf_EXP_TABLE: "n < 510 \<Longrightarrow> gf (EXP_TABLE ! n) = alpha ^ n"
  by (simp add: EXP_TABLE_pow2 gf_pow2)

lemma alpha_power_eq: "alpha ^ m = alpha ^ n \<longleftrightarrow> m mod 255 = n mod 255"
  by (simp add: gf_pow2 [symmetric] pow2_eq_iff)

lemma alpha_nonzero [simp]: "alpha \<noteq> 0"
  by (simp add: alpha_def gf_eq_0)

lemma gf_log2: "w \<noteq> 0 \<Longrightarrow> alpha ^ log2 w = gf w"
  by (simp add: gf_pow2 [symmetric] pow2_log2)

lemma exp_reduce_mod: "exp_reduce n = n mod 255"
  by (induction n rule: exp_reduce.induct) (simp add: exp_reduce.simps le_mod_geq)

lemma gf_div: "galois_div a b = (if b = 0 then None else Some (byte_of (gf a / gf b)))"
proof -
  have "gf (EXP_TABLE ! nat (let r = int (log2 a) - int (log2 b) in if r < 0 then r + 255 else r)) = gf a / gf b"
    if "a \<noteq> 0" "b \<noteq> 0"
  proof -
    define r where "r = nat (let r = int (log2 a) - int (log2 b) in if r < 0 then r + 255 else r)"
    have b: "log2 a < 255" "log2 b < 255" using that log2_bound by auto
    then have r: "r + log2 b = log2 a \<or> r + log2 b = log2 a + 255" "r < 510" by (auto simp: r_def Let_def)
    then have "alpha ^ (r + log2 b) = alpha ^ log2 a" by (auto simp: alpha_power_eq)
    then have "alpha ^ r * gf b = gf a" using that by (simp add: power_add gf_log2)
    then show ?thesis unfolding r_def [symmetric] using that r(2) by (simp add: gf_EXP_TABLE nonzero_eq_divide_eq gf_eq_0)
  qed
  then have "EXP_TABLE ! nat (let r = int (log2 a) - int (log2 b) in if r < 0 then r + 255 else r) = byte_of (gf a / gf b)"
    if "a \<noteq> 0" "b \<noteq> 0" using that by (metis gf_inverse UNIV_I)
  moreover have "INV_TABLE ! unat b = byte_of (gf 1 / gf b)" "0 = byte_of (gf 0 / gf b)"
    using gf_simps(1) gf_simps(5) [of b, symmetric] by (simp_all add: gf_simps(1,2) inverse_eq_divide [symmetric] gf_inverse zero_gf.rep_eq)
  ultimately show ?thesis unfolding galois_div_def log2_def [symmetric] Let_def by auto
qed

lemma gf_exp: "n < 2 ^ 56 \<Longrightarrow> gf (galois_exp a n) = gf a ^ n"
proof -
  assume n: "n < 2 ^ 56"
  show ?thesis
  proof (cases "n = 0 \<or> a = 0")
    case False
    have "log2 a * n < 2 ^ 8 * 2 ^ 56" using log2_bound [of a] False n by (intro mult_strict_mono) auto
    then have "galois_exp a n = pow2 (log2 a * n)"
      using False by (simp add: galois_exp_def log2_def [symmetric] exp_reduce_mod EXP_TABLE_pow2 pow2_mod)
    then show ?thesis using False by (simp add: gf_pow2 power_mult gf_log2)
  qed (auto simp: galois_exp_def gf_simps)
qed

subsection \<open>Slices\<close>

lemma mul_slice_xor_eq: "length input = length out \<Longrightarrow> mul_slice_xor c input out = Done (map2 (\<lambda>i x. x XOR galois_mul c i) input out)"
  by (simp add: mul_slice_xor_def galois_mul_def)

lemma mul_slice_in_place_eq: "mul_slice_in_place c out = map (galois_mul c) out"
  by (simp add: mul_slice_in_place_def galois_mul_def fun_eq_iff)

lemma and_low_iff: "b AND 15 = b \<longleftrightarrow> b < (16 :: nat)"
  using take_bit_nat_eq_self_iff [of 4 b] by (simp add: take_bit_eq_mask mask_eq_exp_minus_1)

lemma and_high_iff: "b < 256 \<Longrightarrow> b AND 240 = b \<longleftrightarrow> b mod 16 = (0 :: nat)"
proof -
  assume b: "b < 256"
  have m: "bit (240 :: nat) i \<longleftrightarrow> 4 \<le> i \<and> i < 8" for i
  proof -
    have "(240 :: nat) = push_bit 4 (mask 4)" by (simp add: mask_eq_exp_minus_1 push_bit_eq_mult)
    moreover have "bit (push_bit 4 (mask 4 :: nat)) i \<longleftrightarrow> 4 \<le> i \<and> i < 8" by (auto simp: bit_push_bit_iff bit_mask_iff)
    ultimately show ?thesis by (simp only:)
  qed
  have "take_bit 8 b = b" using b by (simp add: take_bit_nat_eq_self)
  then have h: "bit b i \<Longrightarrow> i < 8" for i by (metis bit_take_bit_iff)
  have "b AND 240 = b \<longleftrightarrow> (\<forall>i. bit b i \<longrightarrow> 4 \<le> i)" using h by (auto simp: bit_eq_iff bit_and_iff m)
  also have "\<dots> \<longleftrightarrow> take_bit 4 b = 0" by (auto simp: bit_eq_iff bit_take_bit_iff not_less)
  finally show ?thesis by (simp add: take_bit_eq_mod)
qed

lemma gen_half_step_eq:
  assumes "a < 256" and "b < 256"
  shows "gen_half_step LOG_TABLE EXP_TABLE a b (low, high) =
    (if b < 16 then low[b := galois_mul (of_nat a) (of_nat b)] else low,
     if b mod 16 = 0 then high[b div 16 := galois_mul (of_nat a) (of_nat b)] else high)"
proof -
  have u: "unat (of_nat a :: u8) = a" "unat (of_nat b :: u8) = b" using assms by (simp_all add: unat_of_nat)
  have z: "(of_nat a :: u8) = 0 \<longleftrightarrow> a = 0" "(of_nat b :: u8) = 0 \<longleftrightarrow> b = 0"
    using unat_eq_0 [of "of_nat a :: u8"] unat_eq_0 [of "of_nat b :: u8"] by (simp_all only: u)
  have "galois_mul (of_nat a) (of_nat b) = multiply LOG_TABLE EXP_TABLE (of_nat a) (of_nat b)"
    using assms by (simp add: galois_mul_def MUL_TABLE_def gen_mul_table_def FIELD_SIZE_def u)
  then have "(if \<not> (a = 0 \<or> b = 0) then EXP_TABLE ! (unat (LOG_TABLE ! a) + unat (LOG_TABLE ! b)) else 0) =
      galois_mul (of_nat a) (of_nat b)" by (simp add: multiply_def u z)
  then show ?thesis using assms(2) by (simp add: gen_half_step_def Let_def and_low_iff and_high_iff drop_bit_eq_div)
qed

lemma gen_half_loop:
  assumes "n \<le> 256" and a: "a < 256"
  shows "\<exists>low high. fold (gen_half_step LOG_TABLE EXP_TABLE a) [0..<n] (replicate 16 0, replicate 16 0) = (low, high) \<and>
    length low = 16 \<and> length high = 16 \<and> (\<forall>b<16. b < n \<longrightarrow> low ! b = galois_mul (of_nat a) (of_nat b)) \<and>
    (\<forall>b<16. 16 * b < n \<longrightarrow> high ! b = galois_mul (of_nat a) (of_nat (16 * b)))"
  using assms(1)
proof (induction n)
  case (Suc n)
  then obtain low high where IH: "fold (gen_half_step LOG_TABLE EXP_TABLE a) [0..<n] (replicate 16 0, replicate 16 0) = (low, high)"
    "length low = 16" "length high = 16" "\<forall>b<16. b < n \<longrightarrow> low ! b = galois_mul (of_nat a) (of_nat b)"
    "\<forall>b<16. 16 * b < n \<longrightarrow> high ! b = galois_mul (of_nat a) (of_nat (16 * b))" by auto
  let ?r = "galois_mul (of_nat a) (of_nat n)"
  have "(if n < 16 then low[n := ?r] else low) ! b = galois_mul (of_nat a) (of_nat b)" if "b < 16" "b < Suc n" for b
    using that IH(2,4) by (auto simp: nth_list_update less_Suc_eq)
  moreover have "(if n mod 16 = 0 then high[n div 16 := ?r] else high) ! b = galois_mul (of_nat a) (of_nat (16 * b))"
    if b: "b < 16" "16 * b < Suc n" for b
  proof (cases "16 * b = n")
    case True
    then have "n mod 16 = 0" "n div 16 = b" by auto
    then show ?thesis using b IH(3) True by simp
  next
    case False
    then have "n mod 16 = 0 \<Longrightarrow> n div 16 \<noteq> b" by auto
    then show ?thesis using b IH(3,5) False by auto
  qed
  ultimately show ?case
    using Suc.prems IH a by (simp add: gen_half_step_eq split del: if_split) (auto simp: length_list_update)
qed simp

lemma half_tables:
  assumes "b < 16"
  shows "MUL_TABLE_LOW ! unat c ! b = galois_mul c (of_nat b)" and "MUL_TABLE_HIGH ! unat c ! b = galois_mul c (of_nat (16 * b))"
    and "length (MUL_TABLE_LOW ! unat c) = 16" and "length (MUL_TABLE_HIGH ! unat c) = 16"
proof -
  have c: "unat c < 256" using unat_less_exp [of c] by simp
  obtain low high where "fold (gen_half_step LOG_TABLE EXP_TABLE (unat c)) [0..<256] (replicate 16 0, replicate 16 0) = (low, high)"
    "length low = 16" "length high = 16" "low ! b = galois_mul c (of_nat b)" "high ! b = galois_mul c (of_nat (16 * b))"
    using gen_half_loop [OF order_refl c] assms by auto
  then show "MUL_TABLE_LOW ! unat c ! b = galois_mul c (of_nat b)" "MUL_TABLE_HIGH ! unat c ! b = galois_mul c (of_nat (16 * b))"
    "length (MUL_TABLE_LOW ! unat c) = 16" "length (MUL_TABLE_HIGH ! unat c) = 16"
    using c by (simp_all add: MUL_TABLE_LOW_def MUL_TABLE_HIGH_def gen_mul_table_half_def FIELD_SIZE_def)
qed

lemma nth_concat_replicate: "length xs = 16 \<Longrightarrow> 0 < n \<Longrightarrow> i < 16 \<Longrightarrow> concat (replicate n xs) ! i = xs ! i \<and> i < length (concat (replicate n xs))"
  by (cases n) (simp_all add: nth_append)

lemma low_nibble_mod: "w AND 15 = take_bit 4 (w :: u8)"
  by (simp add: take_bit_eq_mask mask_eq_exp_minus_1)

lemma simd_products_eq: "16 \<le> lanes \<Longrightarrow> simd_products lanes c is = map (galois_mul c) is"
proof (rule nth_equalityI)
  fix j assume l: "16 \<le> lanes" and j: "j < length (simd_products lanes c is)"
  then have j: "j < length is" by (simp add: simd_products_def swizzle_dyn_def Let_def)
  define w where "w = is ! j"
  have lo: "unat (w AND 15) < 16" and hi: "unat (drop_bit 4 w AND 15) < 16"
    using take_bit_nat_less_exp [of 4 "unat w"] take_bit_nat_less_exp [of 4 "unat (drop_bit 4 w)"]
    by (simp_all add: low_nibble_mod unsigned_take_bit_eq)
  have n: "0 < lanes div 16" using l by simp
  have "w = (of_nat (unat (w AND 15))) XOR (of_nat (16 * unat (drop_bit 4 w AND 15)))"
  proof -
    have "(of_nat (16 * unat (drop_bit 4 w AND 15)) :: u8) = push_bit 4 (drop_bit 4 w AND 15)"
      by (simp add: push_bit_eq_mult mult.commute)
    moreover have "w = take_bit 4 w XOR push_bit 4 (take_bit 4 (drop_bit 4 w))"
      by (rule bit_word_eqI) (auto simp: bit_simps)
    ultimately show ?thesis by (simp add: low_nibble_mod)
  qed
  then have "galois_mul c w = galois_mul c (of_nat (unat (w AND 15))) XOR galois_mul c (of_nat (16 * unat (drop_bit 4 w AND 15)))"
    using galois_mul_xor by metis
  then show "simd_products lanes c is ! j = map (galois_mul c) is ! j"
    using j nth_concat_replicate [OF half_tables(3) n lo] nth_concat_replicate [OF half_tables(4) n hi] half_tables lo hi
    by (simp add: simd_products_def swizzle_dyn_def Let_def w_def)
qed (simp add: simd_products_def swizzle_dyn_def Let_def)

lemma xor_simd_loop_eq:
  assumes "16 \<le> lanes" and "length input = length out"
  shows "xor_simd_loop lanes c input out = mul_slice_xor c input out"
  using assms
proof (induction lanes c input out rule: xor_simd_loop.induct)
  case (1 lanes c input out)
  show ?case
  proof (cases "length out < lanes")
    case False
    then have "xor_simd_loop lanes c (drop lanes input) (drop lanes out) = mul_slice_xor c (drop lanes input) (drop lanes out)"
      using 1 by (cases "lanes = 0") simp_all
    moreover have "map2 f input out = map2 f (take lanes input) (take lanes out) @ map2 f (drop lanes input) (drop lanes out)" for f :: "u8 \<Rightarrow> u8 \<Rightarrow> u8"
      by (metis append_take_drop_id map_append take_zip drop_zip)
    moreover have "map2 (XOR) ys (map (galois_mul c) xs) = map2 (\<lambda>i x. x XOR galois_mul c i) xs ys" for xs ys
      by (induction xs ys rule: list_induct2') simp_all
    ultimately show ?thesis using 1(3) False 1(2)
      by (simp add: xor_simd_loop.simps [of lanes] mul_slice_xor_eq simd_products_eq)
  qed (simp add: xor_simd_loop.simps)
qed

lemma in_place_simd_eq:
  assumes "16 \<le> lanes" and "lanes dvd length out"
  shows "mul_slice_in_place_simd lanes c out = mul_slice_in_place (c XOR 1) out"
  using assms
proof (induction lanes c out rule: mul_slice_in_place_simd.induct)
  case (1 lanes c out)
  have "x XOR galois_mul c x = galois_mul (c XOR 1) x" for x
    using galois_mul_xor [of x c 1] by (simp only: galois_mul_comm [of x] galois_mul_1 xor.commute)
  then have m: "map2 (XOR) xs (map (galois_mul c) xs) = map (galois_mul (c XOR 1)) xs" for xs
    by (induction xs) simp_all
  show ?case
  proof (cases "length out < lanes")
    case True
    then have "out = []" using 1(3) by (auto dest: dvd_imp_le)
    then show ?thesis using 1(2) by (simp add: mul_slice_in_place_simd.simps mul_slice_in_place_def)
  next
    case False
    then have "mul_slice_in_place_simd lanes c (drop lanes out) = mul_slice_in_place (c XOR 1) (drop lanes out)"
      using 1 by (cases "lanes = 0") (simp_all add: dvd_diff_nat)
    then show ?thesis using False 1(2) m
      by (simp add: mul_slice_in_place_simd.simps [of lanes] mul_slice_in_place_eq simd_products_eq map_append [symmetric] del: map_append)
  qed
qed

text \<open>C39: The vector version of \<open>mul_slice_xor\<close> computes what the scalar one computes, for every slice, every
  factor and both lane counts.\<close>
theorem simd_xor_is_scalar:
  assumes "lanes = 16 \<or> lanes = 32"
  shows "mul_slice_xor_simd lanes c input out = mul_slice_xor c input out"
  using assms xor_simd_loop_eq [of lanes input out c] by (auto simp: mul_slice_xor_simd_def mul_slice_xor_def)

lemma simd_xor_is_scalar_witness:
  "mul_slice_xor_simd 16 7 (replicate 17 3) (replicate 17 5) = mul_slice_xor 7 (replicate 17 3) (replicate 17 5)"
  by (rule simd_xor_is_scalar) simp

text \<open>The vector version of \<open>mul_slice_in_place\<close> does not: on whole vectors it multiplies by \<open>c + 1\<close> (in the field) instead of \<open>c\<close>.\<close>
theorem simd_in_place_wrong:
  assumes "lanes = 16 \<or> lanes = 32" and "lanes dvd length out"
  shows "mul_slice_in_place_simd lanes c out = mul_slice_in_place (c XOR 1) out"
  using assms in_place_simd_eq [of lanes out c] by auto

lemma simd_in_place_wrong_witness:
  "mul_slice_in_place_simd 16 1 (replicate 16 3) = replicate 16 0"
proof -
  have "mul_slice_in_place_simd 16 1 (replicate 16 3) = mul_slice_in_place (1 XOR 1) (replicate 16 3)"
    by (rule simd_in_place_wrong) simp_all
  then show ?thesis by (simp add: mul_slice_in_place_eq galois_mul_eq map_replicate_const)
qed

end
