(* ===== verification/Interpolation.thy ===== *)
theory Interpolation
  imports Main
begin

section \<open>Polynomial functions over a field\<close>

text \<open>
  The algebra under the erasure code: functions given by \<open>k\<close> coefficients, the bound on their roots, and interpolation. The code never
  builds such a function; it appears in the proofs only, as the codeword behind a set of shares.
\<close>

definition poly_fun :: "nat \<Rightarrow> ('a :: field \<Rightarrow> 'a) \<Rightarrow> bool" where
  "poly_fun k f \<longleftrightarrow> (\<exists>c. \<forall>x. f x = (\<Sum>i<k. c i * x ^ i))"

named_theorems poly_intros \<open>closure of polynomial functions\<close>

lemma poly_fun_coeffs [poly_intros]: "poly_fun k (\<lambda>x. \<Sum>i<k. c i * x ^ i)"
  unfolding poly_fun_def by blast

lemma poly_fun_0 [simp]: "poly_fun 0 f \<longleftrightarrow> (\<forall>x. f x = 0)"
  by (simp add: poly_fun_def)

lemma poly_fun_mono: "poly_fun k f \<Longrightarrow> k \<le> m \<Longrightarrow> poly_fun m f"
proof -
  assume "poly_fun k f" and km: "k \<le> m"
  then obtain c where c: "\<forall>x. f x = (\<Sum>i<k. c i * x ^ i)" unfolding poly_fun_def by blast
  have "(\<Sum>i<k. c i * x ^ i) = (\<Sum>i<m. (if i < k then c i else 0) * x ^ i)" for x
    using km by (intro sum.mono_neutral_cong_left) auto
  then show ?thesis unfolding poly_fun_def using c by metis
qed

lemma poly_fun_add [poly_intros]: "poly_fun k f \<Longrightarrow> poly_fun k g \<Longrightarrow> poly_fun k (\<lambda>x. f x + g x)"
proof -
  assume "poly_fun k f" "poly_fun k g"
  then obtain c d where "\<forall>x. f x = (\<Sum>i<k. c i * x ^ i)" "\<forall>x. g x = (\<Sum>i<k. d i * x ^ i)" unfolding poly_fun_def by blast
  then have "\<forall>x. f x + g x = (\<Sum>i<k. (c i + d i) * x ^ i)" by (simp add: sum.distrib distrib_right)
  then show ?thesis unfolding poly_fun_def by (rule exI [of _ "\<lambda>i. c i + d i"])
qed

lemma poly_fun_cmult [poly_intros]: "poly_fun k f \<Longrightarrow> poly_fun k (\<lambda>x. a * f x)"
proof -
  assume "poly_fun k f"
  then obtain c where "\<forall>x. f x = (\<Sum>i<k. c i * x ^ i)" unfolding poly_fun_def by blast
  then have "\<forall>x. a * f x = (\<Sum>i<k. (a * c i) * x ^ i)" by (simp add: sum_distrib_left mult.assoc)
  then show ?thesis unfolding poly_fun_def by (rule exI [of _ "\<lambda>i. a * c i"])
qed

lemma poly_fun_zero [poly_intros]: "poly_fun k (\<lambda>x. 0)"
  unfolding poly_fun_def by (rule exI [of _ "\<lambda>i. 0"]) simp

lemma poly_fun_sum [poly_intros]: "finite S \<Longrightarrow> (\<And>j. j \<in> S \<Longrightarrow> poly_fun k (f j)) \<Longrightarrow> poly_fun k (\<lambda>x. \<Sum>j\<in>S. f j x)"
  by (induction S rule: finite_induct) (simp_all add: poly_intros)

lemma poly_fun_const: "0 < k \<Longrightarrow> poly_fun k (\<lambda>x. a)"
  using poly_fun_mono [of 1 "\<lambda>x. a" k] poly_fun_coeffs [of 1 "\<lambda>i. a"] by simp

lemma poly_fun_shift: "poly_fun k f \<Longrightarrow> poly_fun (Suc k) (\<lambda>x. x * f x)"
proof -
  assume "poly_fun k f"
  then obtain c where "\<forall>x. f x = (\<Sum>i<k. c i * x ^ i)" unfolding poly_fun_def by blast
  then have "\<forall>x. x * f x = (\<Sum>i<Suc k. (case i of 0 \<Rightarrow> 0 | Suc j \<Rightarrow> c j) * x ^ i)"
    by (simp only: sum.lessThan_Suc_shift) (simp add: sum_distrib_left mult.left_commute)
  then show ?thesis unfolding poly_fun_def by (rule exI [of _ "\<lambda>i. case i of 0 \<Rightarrow> 0 | Suc j \<Rightarrow> c j"])
qed

lemma poly_fun_linear: "poly_fun k f \<Longrightarrow> poly_fun (Suc k) (\<lambda>x. (x - a) * f x)"
proof -
  assume f: "poly_fun k f"
  have "poly_fun (Suc k) (\<lambda>x. x * f x + (- a) * f x)"
    using f by (intro poly_fun_add poly_fun_shift poly_fun_cmult) (auto intro: poly_fun_mono)
  then show ?thesis by (simp add: left_diff_distrib)
qed

lemma poly_fun_prod: "finite S \<Longrightarrow> poly_fun (Suc (card S)) (\<lambda>x. \<Prod>b\<in>S. x - b)"
  by (induction S rule: finite_induct) (simp_all add: poly_fun_linear poly_fun_const)

lemma poly_fun_power_mult: "poly_fun k f \<Longrightarrow> poly_fun (n + k) (\<lambda>x. x ^ n * f x)"
  by (induction n) (simp_all add: poly_fun_shift mult.assoc)

lemma poly_fun_mult: "poly_fun (Suc m) f \<Longrightarrow> poly_fun k g \<Longrightarrow> poly_fun (m + k) (\<lambda>x. f x * g x)"
proof -
  assume "poly_fun (Suc m) f" and g: "poly_fun k g"
  then obtain c where "\<forall>x. f x = (\<Sum>i<Suc m. c i * x ^ i)" unfolding poly_fun_def by blast
  then have e: "(\<lambda>x. f x * g x) = (\<lambda>x. \<Sum>i<Suc m. c i * (x ^ i * g x))"
    by (simp add: sum_distrib_right mult.assoc distrib_right)
  have "poly_fun (m + k) (\<lambda>x. c i * (x ^ i * g x))" if "i < Suc m" for i
    using that by (intro poly_fun_cmult poly_fun_mono [OF poly_fun_power_mult [OF g]]) simp
  then show ?thesis unfolding e by (intro poly_fun_sum) auto
qed

lemma poly_root_factor:
  assumes "poly_fun (Suc k) f" and "f a = 0"
  shows "\<exists>g. poly_fun k g \<and> (\<forall>x. f x = (x - a) * g x)"
proof -
  obtain c where c: "\<forall>x. f x = (\<Sum>i<Suc k. c i * x ^ i)" using assms(1) unfolding poly_fun_def by blast
  define g where "g x = (\<Sum>i<Suc k. c i * (\<Sum>j<i. a ^ (i - Suc j) * x ^ j))" for x
  have "poly_fun k (\<lambda>x. c i * (\<Sum>j<i. a ^ (i - Suc j) * x ^ j))" if "i < Suc k" for i
    using that by (intro poly_fun_cmult poly_fun_mono [OF poly_fun_coeffs]) simp
  then have "poly_fun k g" unfolding g_def by (intro poly_fun_sum) auto
  moreover have "f x = (x - a) * g x" for x
  proof -
    have "f x = f x - f a" using assms(2) by simp
    also have "\<dots> = (\<Sum>i<Suc k. c i * (x ^ i - a ^ i))" by (simp only: c) (simp add: sum_subtractf right_diff_distrib)
    also have "\<dots> = (x - a) * g x" by (simp only: g_def power_diff_sumr2 sum_distrib_left) (simp only: mult.left_commute)
    finally show ?thesis .
  qed
  ultimately show ?thesis by blast
qed

theorem poly_fun_zeros:
  assumes "poly_fun k f" and "finite S" and "k \<le> card S" and "\<And>a. a \<in> S \<Longrightarrow> f a = 0"
  shows "f x = 0"
  using assms
proof (induction k arbitrary: f S x)
  case (Suc k)
  then obtain a where a: "a \<in> S" by (metis card.empty ex_in_conv not_less_eq_eq zero_le)
  obtain g where g: "poly_fun k g" "\<And>x. f x = (x - a) * g x" using poly_root_factor Suc.prems(1,4) a by blast
  have "g b = 0" if "b \<in> S - {a}" for b using g(2) [of b] Suc.prems(4) [of b] that by simp
  moreover have "k \<le> card (S - {a})" using Suc.prems(2,3) a by simp
  ultimately have "g x = 0" using Suc.IH [OF g(1), of "S - {a}"] Suc.prems(2) by blast
  then show ?case by (simp add: g(2))
qed simp

lemma poly_coeffs_zero:
  fixes c :: "nat \<Rightarrow> 'a :: field"
  assumes "finite S" and "k \<le> card S" and "\<And>a. a \<in> S \<Longrightarrow> (\<Sum>i<k. c i * a ^ i) = 0" and "i < k"
  shows "c i = 0"
  using assms
proof (induction k arbitrary: c i S)
  case (Suc k)
  have z: "(\<Sum>i<Suc k. c i * x ^ i) = 0" for x
    using poly_fun_zeros [OF poly_fun_coeffs [of "Suc k" c] Suc.prems(1,2)] Suc.prems(3) by blast
  have c0: "c 0 = 0" using z [of 0] by (simp only: sum.lessThan_Suc_shift) simp
  have s: "x * (\<Sum>i<k. c (Suc i) * x ^ i) = 0" for x
    using z [of x] c0 by (simp only: sum.lessThan_Suc_shift) (simp add: sum_distrib_left mult.left_commute)
  have "(\<Sum>i<k. c (Suc i) * a ^ i) = 0" if "a \<in> S - {0}" for a using s [of a] that by simp
  moreover have "k \<le> card (S - {0})" using Suc.prems(1,2) by (simp add: card_Diff_singleton_if) linarith
  ultimately have "c (Suc j) = 0" if "j < k" for j using Suc.IH [of "S - {0}" "\<lambda>i. c (Suc i)" j] Suc.prems(1) that by blast
  then show ?case using c0 Suc.prems(4) by (cases i) auto
qed simp

lemma interpolate: "finite S \<Longrightarrow> \<exists>f. poly_fun (card S) f \<and> (\<forall>a\<in>S. f a = v a)"
proof (induction S rule: finite_induct)
  case (insert a S)
  then obtain f where f: "poly_fun (card S) f" "\<forall>b\<in>S. f b = v b" by blast
  define m where "m x = (\<Prod>b\<in>S. x - b)" for x
  have ma: "m a \<noteq> 0" using insert by (auto simp: m_def)
  define g where "g x = f x + ((v a - f a) / m a) * m x" for x
  have "poly_fun (Suc (card S)) g" unfolding g_def
    using f(1) poly_fun_prod [OF insert(1)] by (intro poly_fun_add poly_fun_cmult) (auto simp: m_def intro: poly_fun_mono)
  moreover have "m b = 0" if "b \<in> S" for b using insert(1) that by (auto simp: m_def)
  then have "g b = v b" if "b \<in> S" for b using f(2) that by (simp add: g_def)
  moreover have "g a = v a" using ma by (simp add: g_def)
  ultimately show ?case using insert by auto
qed (auto intro: exI [of _ "\<lambda>x. 0"])

end
