(* ===== verification/Fec_Matrix.thy ===== *)
theory Fec_Matrix
  imports Galois Interpolation
begin

section \<open>Matrices of field elements (\<open>berkleamp-welch/src/math.rs\<close>)\<close>

text \<open>
  The matrices of the erasure code are flat vectors of bytes, row after row. The theory models the row operations, the inversion by
  Gauss-Jordan elimination in place and the inverted Vandermonde matrix. It shows that the latter holds the
  coefficients of the Lagrange basis, and that a turn of the elimination exchanges an argument of the matrix for a
  value: this is what makes the inverse appear in the place of the matrix.
\<close>

subsection \<open>Loops that may panic or return early\<close>

fun run_for :: "('i \<Rightarrow> 's \<Rightarrow> 's run) \<Rightarrow> 'i list \<Rightarrow> 's \<Rightarrow> 's run" where
  "run_for f [] s = Done s"
| "run_for f (i # is) s = run_bind (f i s) (run_for f is)"

fun run_for_opt :: "('i \<Rightarrow> 's \<Rightarrow> 's option run) \<Rightarrow> 'i list \<Rightarrow> 's \<Rightarrow> 's option run" where
  "run_for_opt f [] s = Done (Some s)"
| "run_for_opt f (i # is) s =
     run_bind (f i s) (\<lambda>r. case r of None \<Rightarrow> Done None | Some s' \<Rightarrow> run_for_opt f is s')"

lemma run_for_inv:
  assumes "P 0 s" and "\<And>n s. n < length is \<Longrightarrow> P n s \<Longrightarrow> \<exists>s'. f (is ! n) s = Done s' \<and> P (Suc n) s'"
  shows "\<exists>s'. run_for f is s = Done s' \<and> P (length is) s'"
  using assms
proof (induction "is" arbitrary: s P)
  case (Cons i "is")
  obtain s1 where s1: "f i s = Done s1" "P 1 s1" using Cons.prems(2) [of 0 s] Cons.prems(1) by auto
  have "\<exists>s'. run_for f is s1 = Done s' \<and> P (Suc (length is)) s'"
    using Cons.IH [of "\<lambda>n. P (Suc n)" s1] s1(2) Cons.prems(2) [of "Suc _"] by simp
  then show ?case using s1 by simp
qed simp

lemma run_for_opt_inv:
  assumes "P 0 s" and "\<And>n s. n < length is \<Longrightarrow> P n s \<Longrightarrow> \<exists>s'. f (is ! n) s = Done (Some s') \<and> P (Suc n) s'"
  shows "\<exists>s'. run_for_opt f is s = Done (Some s') \<and> P (length is) s'"
  using assms
proof (induction "is" arbitrary: s P)
  case (Cons i "is")
  obtain s1 where s1: "f i s = Done (Some s1)" "P 1 s1" using Cons.prems(2) [of 0 s] Cons.prems(1) by auto
  have "\<exists>s'. run_for_opt f is s1 = Done (Some s') \<and> P (Suc (length is)) s'"
    using Cons.IH [of "\<lambda>n. P (Suc n)" s1] s1(2) Cons.prems(2) [of "Suc _"] by simp
  then show ?case using s1 by simp
qed simp

subsection \<open>Rows\<close>

definition row :: "'a list \<Rightarrow> nat \<Rightarrow> nat \<Rightarrow> 'a list" where
  "row mx c i = take c (drop (i * c) mx)"

definition put_row :: "'a list \<Rightarrow> nat \<Rightarrow> nat \<Rightarrow> 'a list \<Rightarrow> 'a list" where
  "put_row mx c i r = take (i * c) mx @ r @ drop (i * c + c) mx"

definition matrix_swap_rows :: "bytes \<Rightarrow> nat \<Rightarrow> nat \<Rightarrow> nat \<Rightarrow> bytes run" where
  "matrix_swap_rows mx c a b =
     (if a < b then Done (put_row (put_row mx c a (row mx c b)) c b (row mx c a)) else Panic)"

definition matrix_add_mul_rows :: "bytes \<Rightarrow> nat \<Rightarrow> nat \<Rightarrow> nat \<Rightarrow> u8 \<Rightarrow> bytes run" where
  "matrix_add_mul_rows mx c a b fac =
     run_bind (mul_slice_xor fac (row mx c a) (row mx c b)) (\<lambda>r. Done (put_row mx c b r))"

text \<open>Entries of a matrix with rows of \<open>c\<close> bytes, as elements of the field.\<close>

definition ent :: "nat \<Rightarrow> bytes \<Rightarrow> nat \<Rightarrow> nat \<Rightarrow> gf" where
  "ent c mx i j = gf (mx ! (i * c + j))"

lemma row_bound: "i < n \<Longrightarrow> j < c \<Longrightarrow> i * c + j < n * (c :: nat)"
proof -
  assume "i < n" "j < c"
  then have "i * c + c \<le> n * c" by (metis Suc_leI add.commute mult_Suc mult_le_mono1)
  then show ?thesis using \<open>j < c\<close> by linarith
qed

lemma row_fits: "i < n \<Longrightarrow> i * c + c \<le> n * (c :: nat)"
  by (metis Suc_leI add.commute mult_Suc mult_le_mono1)

lemma length_row [simp]: "length mx = n * c \<Longrightarrow> i < n \<Longrightarrow> length (row mx c i) = c"
  using row_fits [of i n c] by (simp add: row_def)

lemma nth_row: "length mx = n * c \<Longrightarrow> i < n \<Longrightarrow> j < c \<Longrightarrow> row mx c i ! j = mx ! (i * c + j)"
  using row_fits [of i n c] by (simp add: row_def)

lemma gf_row: "length mx = n * c \<Longrightarrow> i < n \<Longrightarrow> j < c \<Longrightarrow> gf (row mx c i ! j) = ent c mx i j"
  by (simp add: nth_row ent_def)

lemma length_put_row [simp]: "length mx = n * c \<Longrightarrow> i < n \<Longrightarrow> length r = c \<Longrightarrow> length (put_row mx c i r) = n * c"
  using row_fits [of i n c] by (simp add: put_row_def)

lemma nth_put_row:
  assumes "length mx = n * c" and "a < n" and "length r = c" and "i < n" and "j < c"
  shows "put_row mx c a r ! (i * c + j) = (if i = a then r ! j else mx ! (i * c + j))"
proof (cases i a rule: linorder_cases)
  case less
  then have "i * c + j < a * c" using row_bound assms(5) by blast
  then show ?thesis using assms(1,2) less row_fits [of a n c] by (simp add: put_row_def nth_append)
next
  case equal
  then show ?thesis using assms row_fits [of a n c] by (simp add: put_row_def nth_append)
next
  case greater
  then have "a * c + c \<le> i * c" using row_fits [of a i c] by simp
  then have "take (a * c) mx @ r @ drop (a * c + c) mx = (take (a * c) mx @ r) @ drop (a * c + c) mx"
    "length (take (a * c) mx @ r) = a * c + c" using assms row_fits [of a n c] by simp_all
  moreover have "i * c + j < length mx" using row_bound [of i n j c] assms by simp
  ultimately show ?thesis using \<open>a * c + c \<le> i * c\<close> greater by (simp only: put_row_def nth_append) simp
qed

lemma ent_put_row:
  "length mx = n * c \<Longrightarrow> a < n \<Longrightarrow> length r = c \<Longrightarrow> i < n \<Longrightarrow> j < c \<Longrightarrow>
   ent c (put_row mx c a r) i j = (if i = a then gf (r ! j) else ent c mx i j)"
  by (simp add: ent_def nth_put_row)

lemma gf_mul_slice_xor:
  assumes "length input = length out"
  obtains r where "mul_slice_xor c input out = Done r" and "length r = length out"
    and "\<And>j. j < length out \<Longrightarrow> gf (r ! j) = gf (out ! j) + gf c * gf (input ! j)"
  using assms by (simp add: mul_slice_xor_eq gf_simps)

subsection \<open>Inversion in place\<close>

definition invert_clear :: "nat \<Rightarrow> nat \<Rightarrow> bytes \<Rightarrow> nat \<Rightarrow> bytes \<Rightarrow> bytes run" where
  "invert_clear k i pivot_row j mx =
     (let r = row mx k j in
      run_bind (mul_slice_xor (r ! i) pivot_row (r[i := 0])) (\<lambda>r'. Done (put_row mx k j r')))"

definition invert_turn :: "nat \<Rightarrow> nat \<Rightarrow> bytes \<times> bool list \<times> (nat \<times> nat) list \<Rightarrow> (bytes \<times> bool list \<times> (nat \<times> nat) list) option run" where
  "invert_turn k i st =
     (case st of (mx, unused, swaps) \<Rightarrow>
        (case position (\<lambda>j. mx ! (j * k + i) \<noteq> 0 \<and> unused ! j) [0..<k] of
           None \<Rightarrow> Done None
         | Some pivot \<Rightarrow>
             run_bind (if pivot \<noteq> i
               then run_bind (matrix_swap_rows mx k (min pivot i) (max pivot i)) (\<lambda>mx. Done (mx, swaps @ [(min pivot i, max pivot i)]))
               else Done (mx, swaps))
             (\<lambda>(mx, swaps).
               let pivot_row = row mx k i; c = pivot_row ! i in
               (case (if c \<noteq> 1 then map_option (\<lambda>d. mul_slice_in_place d (pivot_row[i := 1])) (galois_div 1 c) else Some pivot_row) of
                  None \<Rightarrow> Done None
                | Some pivot_row \<Rightarrow>
                    let mx = put_row mx k i pivot_row; unused = unused[pivot := False] in
                    if list_all (\<lambda>x. x = 0) (take i pivot_row @ drop (i + 1) pivot_row) then Done (Some (mx, unused, swaps))
                    else run_bind (run_for (invert_clear k i pivot_row) ([0..<i] @ [i + 1..<k]) mx)
                      (\<lambda>mx. Done (Some (mx, unused, swaps)))))))"

definition invert_matrix :: "bytes \<Rightarrow> nat \<Rightarrow> bytes option run" where
  "invert_matrix mx k =
     (if length mx \<noteq> k * k then Panic
      else run_bind (run_for_opt (invert_turn k) [0..<k] (mx, replicate k True, []))
        (\<lambda>r. case r of None \<Rightarrow> Done None
           | Some (mx, _, swaps) \<Rightarrow>
               run_bind (run_for (\<lambda>(a, b) mx. matrix_swap_rows mx k a b) (rev swaps) mx) (\<lambda>mx. Done (Some mx))))"

text \<open>A turn with the pivot in its place exchanges the \<open>i\<close>-th argument and the \<open>i\<close>-th value of the matrix.\<close>

definition represents :: "nat \<Rightarrow> bytes \<Rightarrow> (nat \<Rightarrow> gf) \<Rightarrow> (nat \<Rightarrow> gf) \<Rightarrow> bool" where
  "represents k mx z w \<longleftrightarrow> (\<forall>l<k. (\<Sum>j<k. ent k mx l j * z j) = w l)"

definition turned :: "nat \<Rightarrow> nat \<Rightarrow> bytes \<Rightarrow> bytes \<Rightarrow> bool" where
  "turned k i mx mx' \<longleftrightarrow> length mx' = k * k \<and>
     (\<forall>j<k. ent k mx' i j = (if j = i then 1 else ent k mx i j) / ent k mx i i) \<and>
     (\<forall>l<k. \<forall>j<k. l \<noteq> i \<longrightarrow> ent k mx' l j = (if j = i then 0 else ent k mx l j) + ent k mx l i * ent k mx' i j)"

lemma sum_split_at: "i < k \<Longrightarrow> (\<Sum>j<k. f j) = f i + (\<Sum>j\<in>{..<k} - {i}. f (j :: nat) :: gf)"
  by (simp add: sum.remove)

lemma turned_exchanges:
  assumes t: "turned k i mx mx'" and i: "i < k" and p: "ent k mx i i \<noteq> 0" and r: "represents k mx z w"
  shows "represents k mx' (z(i := w i)) (w(i := z i))"
proof -
  let ?p = "ent k mx i i" and ?S = "{..<k} - {i}"
  have wi: "w i = ?p * z i + (\<Sum>j\<in>?S. ent k mx i j * z j)"
    using r i sum_split_at [OF i, of "\<lambda>j. ent k mx i j * z j"] by (simp add: represents_def)
  have "(\<Sum>j\<in>?S. ent k mx' i j * z j) = (\<Sum>j\<in>?S. ent k mx i j * z j) / ?p"
    using t i by (auto simp: turned_def sum_divide_distrib intro!: sum.cong)
  moreover have "ent k mx' i i = 1 / ?p" using t i by (simp add: turned_def)
  ultimately have "(\<Sum>j<k. ent k mx' i j * (z(i := w i)) j) = (w i + (\<Sum>j\<in>?S. ent k mx i j * z j)) / ?p"
    by (simp add: sum_split_at [OF i] add_divide_distrib)
  also have "\<dots> = z i" using p by (simp add: wi add.assoc)
  finally have ri: "(\<Sum>j<k. ent k mx' i j * (z(i := w i)) j) = z i" .
  have "(\<Sum>j<k. ent k mx' l j * (z(i := w i)) j) = w l" if l: "l < k" "l \<noteq> i" for l
  proof -
    have "(\<Sum>j<k. ent k mx' l j * (z(i := w i)) j) =
        (\<Sum>j<k. (if j = i then 0 else ent k mx l j) * (z(i := w i)) j + ent k mx l i * (ent k mx' i j * (z(i := w i)) j))"
      using t l i by (intro sum.cong) (auto simp: turned_def distrib_right mult.assoc)
    also have "\<dots> = (\<Sum>j\<in>?S. ent k mx l j * z j) + ent k mx l i * z i"
      by (simp only: sum.distrib sum_distrib_left [symmetric] ri) (simp add: sum_split_at [OF i])
    also have "\<dots> = w l" using r l i by (simp add: represents_def sum_split_at [OF i] add.commute)
    finally show ?thesis .
  qed
  then show ?thesis using ri by (auto simp: represents_def)
qed

lemma invert_clear_ok:
  assumes "length mx = k * k" and "j < k" and "i < k" and "length pr = k"
  shows "\<exists>r. invert_clear k i pr j mx = Done (put_row mx k j r) \<and> length r = k \<and>
    (\<forall>m<k. gf (r ! m) = (if m = i then 0 else ent k mx j m) + ent k mx j i * gf (pr ! m))"
proof -
  obtain r where "mul_slice_xor (row mx k j ! i) pr ((row mx k j)[i := 0]) = Done r" "length r = k"
    "\<And>m. m < k \<Longrightarrow> gf (r ! m) = gf ((row mx k j)[i := 0] ! m) + gf (row mx k j ! i) * gf (pr ! m)"
    using gf_mul_slice_xor [of pr "(row mx k j)[i := 0]" "row mx k j ! i"] assms by (metis length_list_update length_row)
  then show ?thesis using assms
    by (auto simp: invert_clear_def Let_def nth_list_update gf_row [of mx k] gf_simps)
qed

lemma nth_notin_take: "distinct xs \<Longrightarrow> n < length xs \<Longrightarrow> xs ! n \<notin> set (take n xs)"
  by (auto simp: in_set_conv_nth nth_eq_iff_index_eq)

lemma invert_clears:
  assumes mx: "length mx = k * k" and i: "i < k" and pr: "length pr = k"
  shows "\<exists>mx'. run_for (invert_clear k i pr) ([0..<i] @ [i + 1..<k]) (put_row mx k i pr) = Done mx' \<and> length mx' = k * k \<and>
    (\<forall>l<k. \<forall>m<k. ent k mx' l m =
       (if l = i then gf (pr ! m) else (if m = i then 0 else ent k mx l m) + ent k mx l i * gf (pr ! m)))"
proof -
  define js where "js = [0..<i] @ [i + 1..<k]"
  have js: "distinct js" "set js = {..<k} - {i}" using i by (auto simp: js_def)
  let ?e = "\<lambda>l m. (if m = i then 0 else ent k mx l m) + ent k mx l i * gf (pr ! m)"
  define P where "P n mx' \<longleftrightarrow> length mx' = k * k \<and> (\<forall>l<k. \<forall>m<k. ent k mx' l m =
    (if l = i then gf (pr ! m) else if l \<in> set (take n js) then ?e l m else ent k mx l m))" for n mx'
  have "P 0 (put_row mx k i pr)" using assms by (simp add: P_def ent_put_row [of _ k])
  moreover have "\<exists>s'. invert_clear k i pr (js ! n) s = Done s' \<and> P (Suc n) s'" if n: "n < length js" and s: "P n s" for n s
  proof -
    let ?j = "js ! n"
    have d: "?j \<notin> set (take n js)" using js(1) n by (rule nth_notin_take)
    have j: "?j < k" "?j \<noteq> i" using nth_mem [OF n] js(2) by auto
    have tk: "set (take (Suc n) js) = insert ?j (set (take n js))" using n by (simp add: take_Suc_conv_app_nth)
    have ls: "length s = k * k" using s by (simp add: P_def)
    obtain r where r: "invert_clear k i pr ?j s = Done (put_row s k ?j r)" "length r = k"
      "\<forall>m<k. gf (r ! m) = (if m = i then 0 else ent k s ?j m) + ent k s ?j i * gf (pr ! m)"
      using invert_clear_ok [OF ls j(1) i pr] by blast
    have e: "ent k s ?j m = ent k mx ?j m" if "m < k" for m using s j d that by (simp add: P_def)
    have "P (Suc n) (put_row s k ?j r)"
      unfolding P_def tk
    proof (intro conjI allI impI)
      show "length (put_row s k ?j r) = k * k" using ls j(1) r(2) by simp
      fix l m assume lm: "l < k" "m < k"
      show "ent k (put_row s k ?j r) l m = (if l = i then gf (pr ! m) else if l \<in> insert ?j (set (take n js)) then ?e l m else ent k mx l m)"
      proof (cases "l = ?j")
        case True
        then show ?thesis using lm j r e i by (simp add: ent_put_row [OF ls j(1) r(2)])
      next
        case False
        then show ?thesis using s lm by (simp add: P_def ent_put_row [OF ls j(1) r(2)])
      qed
    qed
    then show ?thesis using r(1) by blast
  qed
  ultimately obtain mx' where m: "run_for (invert_clear k i pr) js (put_row mx k i pr) = Done mx'" "P (length js) mx'"
    using run_for_inv [of P "put_row mx k i pr" js "invert_clear k i pr"] by blast
  have "ent k mx' l m = (if l = i then gf (pr ! m) else ?e l m)" if "l < k" "m < k" for l m
    using m(2) that js(2) by (simp add: P_def)
  moreover have "length mx' = k * k" using m(2) by (simp add: P_def)
  ultimately show ?thesis using m(1) unfolding js_def by blast
qed

lemma list_all_except: "list_all P (take i xs @ drop (i + 1) xs) \<longleftrightarrow> (\<forall>j<length xs. j \<noteq> i \<longrightarrow> P (xs ! j))"
proof
  assume a: "list_all P (take i xs @ drop (i + 1) xs)"
  then have l: "list_all P (take i xs)" "list_all P (drop (i + 1) xs)" by (simp_all only: list_all_append)
  have 1: "P (take i xs ! j)" if "j < length (take i xs)" for j using l(1) that unfolding list_all_length by blast
  have 2: "P (drop (i + 1) xs ! j)" if "j < length (drop (i + 1) xs)" for j using l(2) that unfolding list_all_length by blast
  show "\<forall>j<length xs. j \<noteq> i \<longrightarrow> P (xs ! j)"
  proof (intro allI impI)
    fix j assume "j < length xs" "j \<noteq> i"
    then show "P (xs ! j)" using 1 [of j] 2 [of "j - (i + 1)"] by (cases "j < i") simp_all
  qed
next
  assume a: "\<forall>j<length xs. j \<noteq> i \<longrightarrow> P (xs ! j)"
  have "list_all P (take i xs)" "list_all P (drop (i + 1) xs)" using a by (auto simp: list_all_length)
  then show "list_all P (take i xs @ drop (i + 1) xs)" by simp
qed

text \<open>The turn takes a shortcut when the rest of the pivot row is zero; it is right only if the pivot is one then.\<close>

lemma invert_turn_ok:
  assumes mx: "length mx = k * k" and i: "i < k" and un: "length unused = k" "unused ! i" "\<forall>j<i. \<not> unused ! j"
    and p: "ent k mx i i \<noteq> 0"
    and short: "(\<forall>j<k. j \<noteq> i \<longrightarrow> ent k mx i j = 0) \<Longrightarrow> ent k mx i i = 1 \<or> k = 1"
  shows "\<exists>mx'. invert_turn k i (mx, unused, swaps) = Done (Some (mx', unused[i := False], swaps)) \<and> turned k i mx mx'"
proof -
  let ?c = "row mx k i ! i"
  have c: "gf ?c = ent k mx i i" using mx i by (simp add: gf_row [of mx k])
  then have c0: "?c \<noteq> 0" using p by (auto simp: gf_simps)
  have c1: "?c = 1 \<Longrightarrow> ent k mx i i = 1" using c by (simp add: gf_simps)
  have "mx ! (i * k + i) \<noteq> 0" using p by (auto simp: ent_def gf_eq_0)
  then have pos: "position (\<lambda>j. mx ! (j * k + i) \<noteq> 0 \<and> unused ! j) [0..<k] = Some i"
    using i un by (simp add: position_Some_iff)
  define pr where "pr = (if ?c \<noteq> 1 then mul_slice_in_place (byte_of (1 / gf ?c)) ((row mx k i)[i := 1]) else row mx k i)"
  have lp: "length pr = k" using mx i by (simp add: pr_def mul_slice_in_place_eq)
  have pr: "gf (pr ! j) = (if j = i then 1 else ent k mx i j) / ent k mx i i" if "j < k" for j
    using that mx i c c1 by (auto simp: pr_def mul_slice_in_place_eq gf_simps byte_of_inverse nth_list_update gf_row [of mx k])
  have step: "(if ?c \<noteq> 1 then map_option (\<lambda>d. mul_slice_in_place d ((row mx k i)[i := 1])) (galois_div 1 ?c) else Some (row mx k i)) = Some pr"
    using c0 by (simp add: pr_def gf_div gf_simps)
  let ?z = "list_all (\<lambda>x. x = 0) (take i pr @ drop (i + 1) pr)"
  have z: "?z \<longleftrightarrow> (\<forall>j<k. j \<noteq> i \<longrightarrow> ent k mx i j = 0)"
  proof -
    have "?z \<longleftrightarrow> (\<forall>j<k. j \<noteq> i \<longrightarrow> pr ! j = 0)" using list_all_except [of "\<lambda>x. x = 0" i pr] by (simp only: lp)
    moreover have "pr ! j = 0 \<longleftrightarrow> ent k mx i j = 0" if "j < k" "j \<noteq> i" for j
      using pr [OF that(1)] that p by (simp add: gf_eq_0(1) [symmetric])
    ultimately show ?thesis by auto
  qed
  show ?thesis
  proof (cases ?z)
    case True
    then have ez: "\<forall>j<k. j \<noteq> i \<longrightarrow> ent k mx i j = 0" using z by blast
    have p1: "ent k mx i i = 1" if "l < k" "l \<noteq> i" for l using short [OF ez] that i by auto
    have "ent k (put_row mx k i pr) l j = (if j = i then 0 else ent k mx l j) + ent k mx l i * ent k (put_row mx k i pr) i j"
      if "l < k" "j < k" "l \<noteq> i" for l j
      using that p1 [OF that(1,3)] ez pr [OF that(2)] i by (simp add: ent_put_row [OF mx i lp])
    moreover have "ent k (put_row mx k i pr) i j = (if j = i then 1 else ent k mx i j) / ent k mx i i" if "j < k" for j
      using pr [OF that] i that by (simp add: ent_put_row [OF mx i lp])
    ultimately have "turned k i mx (put_row mx k i pr)" using mx i lp unfolding turned_def by simp
    then show ?thesis using pos step True by (simp add: invert_turn_def Let_def del: list_all_append)
  next
    case False
    obtain mx' where mx': "run_for (invert_clear k i pr) ([0..<i] @ [i + 1..<k]) (put_row mx k i pr) = Done mx'" "length mx' = k * k"
      "\<forall>l<k. \<forall>m<k. ent k mx' l m = (if l = i then gf (pr ! m) else (if m = i then 0 else ent k mx l m) + ent k mx l i * gf (pr ! m))"
      using invert_clears [OF mx i lp] by blast
    then have "turned k i mx mx'" using i pr by (simp add: turned_def)
    then show ?thesis using pos step False mx'(1) by (simp add: invert_turn_def Let_def del: list_all_append)
  qed
qed

subsection \<open>The inverted Vandermonde matrix\<close>

text \<open>The coefficients of the polynomial with the roots \<open>0\<close> and \<open>EXP_TABLE[1..k]\<close>, its leading one left out.\<close>

definition vdm_inner :: "nat \<Rightarrow> nat \<Rightarrow> bytes \<Rightarrow> bytes" where
  "vdm_inner k i c = fold (\<lambda>j c. c[j := c ! j XOR MUL_TABLE ! unat (EXP_TABLE ! i) ! unat (c ! (j + 1))]) [k - 1 - (i - 1)..<k - 1] c"

definition vdm_master :: "nat \<Rightarrow> bytes" where
  "vdm_master k =
     fold (\<lambda>i c. let c = vdm_inner k i c in c[k - 1 := c ! (k - 1) XOR EXP_TABLE ! i]) [1..<k] ((replicate k 0)[k - 1 := 0])"

text \<open>Division by one of the linear factors, and the value of the quotient at its root.\<close>

definition vdm_divide :: "nat \<Rightarrow> bytes \<Rightarrow> nat \<Rightarrow> bytes \<Rightarrow> bytes \<times> u8" where
  "vdm_divide k c index b =
     fold (\<lambda>i (b, t).
         let b = b[i := c ! (i + 1) XOR MUL_TABLE ! index ! unat (b ! (i + 1))] in
         (b, b ! i XOR MUL_TABLE ! index ! unat t))
       (rev [0..<k - 1]) (b[k - 1 := 1], 1)"

definition vdm_row :: "nat \<Rightarrow> bytes \<Rightarrow> nat \<Rightarrow> bytes \<times> bytes \<Rightarrow> bytes \<times> bytes" where
  "vdm_row k c r st =
     (case st of (b, vdm) \<Rightarrow>
        let index = (if r \<noteq> 0 then unat (EXP_TABLE ! r) else 0);
            (b, t) = vdm_divide k c index b;
            t_inv = unat (INV_TABLE ! unat t) in
        (b, fold (\<lambda>col vdm. vdm[col * k + r := MUL_TABLE ! t_inv ! unat (b ! col)]) [0..<k] vdm))"

definition create_inverted_vdm :: "bytes \<Rightarrow> nat \<Rightarrow> bytes run" where
  "create_inverted_vdm vdm k =
     (if length vdm < k * k \<or> k = 0 then Panic
      else if k = 1 then Done (vdm[0 := 1])
      else Done (snd (fold (vdm_row k (vdm_master k)) [0..<k] (replicate k 0, vdm))))"

text \<open>The points: \<open>0\<close> and the powers of the generator.\<close>

definition point :: "nat \<Rightarrow> gf" where
  "point n = (if n = 0 then 0 else alpha ^ n)"

lemma point_inj: "m < 256 \<Longrightarrow> n < 256 \<Longrightarrow> point m = point n \<longleftrightarrow> m = n"
proof -
  assume "m < 256" "n < 256"
  then have "m mod 255 = (if m = 255 then 0 else m)" "n mod 255 = (if n = 255 then 0 else n)" by (auto simp: less_Suc_eq)
  then show ?thesis by (auto simp: point_def alpha_power_eq split: if_splits)
qed

lemma gf_mul_lookup: "gf (MUL_TABLE ! unat a ! unat b) = gf a * gf b"
  by (simp add: galois_mul_def [symmetric] gf_simps)

lemma point_pos: "0 < n \<Longrightarrow> n < 510 \<Longrightarrow> gf (EXP_TABLE ! n) = point n"
  by (simp add: point_def gf_EXP_TABLE)

lemma vdm_inner_loop:
  assumes "b < length c"
  shows "length (fold (\<lambda>j c. c[j := c ! j XOR MUL_TABLE ! p ! unat (c ! (j + 1))]) [a..<b] c) = length c \<and>
    (\<forall>j<length c. fold (\<lambda>j c. c[j := c ! j XOR MUL_TABLE ! p ! unat (c ! (j + 1))]) [a..<b] c ! j =
       (if a \<le> j \<and> j < b then c ! j XOR MUL_TABLE ! p ! unat (c ! (j + 1)) else c ! j))"
  using assms
proof (induction b)
  case (Suc b)
  show ?case
  proof (cases "a \<le> b")
    case True
    then show ?thesis using Suc by (auto simp: nth_list_update less_Suc_eq)
  qed auto
qed simp

lemma vdm_inner_ok:
  assumes "length c = k" and "0 < i" and "i < k" and "i < 510"
  shows "length (vdm_inner k i c) = k \<and>
    (\<forall>j<k. gf (vdm_inner k i c ! j) = gf (c ! j) + (if k - i \<le> j \<and> j < k - 1 then point i * gf (c ! (j + 1)) else 0))"
  using vdm_inner_loop [of "k - 1" c "unat (EXP_TABLE ! i)" "k - 1 - (i - 1)"] assms
  by (auto simp: vdm_inner_def gf_simps gf_mul_lookup point_pos)

lemma vdm_master_loop:
  assumes "n < k" and "k \<le> 255"
  defines "c \<equiv> fold (\<lambda>i c. let c = vdm_inner k i c in c[k - 1 := c ! (k - 1) XOR EXP_TABLE ! i]) [1..<Suc n] ((replicate k 0)[k - 1 := 0])"
  shows "length c = k \<and> (\<forall>j<k - n. c ! j = 0) \<and>
    (\<forall>x. x ^ Suc n + (\<Sum>m\<le>n. gf (c ! (k - 1 - m)) * x ^ (n - m)) = (\<Prod>l\<le>n. x + point l))"
  using assms(1) unfolding c_def
proof (induction n)
  case 0
  have "(replicate k (0 :: u8))[k - 1 := 0] ! (k - 1) = 0" using 0 by simp
  then show ?case using 0 by (simp add: nth_list_update point_def gf_simps)
next
  case (Suc n)
  let ?f = "\<lambda>i c. let c = vdm_inner k i c in c[k - 1 := c ! (k - 1) XOR EXP_TABLE ! i]"
  define c where "c = fold ?f [1..<Suc n] ((replicate k 0)[k - 1 := 0])"
  define c' where "c' = fold ?f [1..<Suc (Suc n)] ((replicate k 0)[k - 1 := 0])"
  have c: "length c = k" "\<forall>j<k - n. c ! j = 0"
    "\<And>x. x ^ Suc n + (\<Sum>m\<le>n. gf (c ! (k - 1 - m)) * x ^ (n - m)) = (\<Prod>l\<le>n. x + point l)"
    using Suc unfolding c_def by auto
  have c'c: "c' = ?f (Suc n) c" by (simp add: c'_def c_def del: upt_Suc) (simp add: upt_Suc)
  let ?p = "point (Suc n)" and ?d = "\<lambda>m. gf (c ! (k - 1 - m))" and ?d' = "\<lambda>m. gf (c' ! (k - 1 - m))"
  have i: "length (vdm_inner k (Suc n) c) = k"
    "\<And>j. j < k \<Longrightarrow> gf (vdm_inner k (Suc n) c ! j) = gf (c ! j) + (if k - Suc n \<le> j \<and> j < k - 1 then ?p * gf (c ! (j + 1)) else 0)"
    using vdm_inner_ok [OF c(1), of "Suc n"] Suc.prems assms(2) by auto
  have p: "gf (EXP_TABLE ! Suc n) = ?p" using point_pos [of "Suc n"] Suc.prems assms(2) by simp
  have len: "length c' = k" using i(1) by (simp add: c'c Let_def)
  have zero: "c' ! j = 0" if "j < k - Suc n" for j
  proof -
    have "gf (c' ! j) = 0" using that i c(2) Suc.prems by (simp add: c'c Let_def nth_list_update gf_simps)
    then show ?thesis by (simp add: gf_eq_0)
  qed
  have d0: "?d' 0 = ?d 0 + ?p" using i Suc.prems p by (simp add: c'c Let_def gf_simps)
  have dS: "?d' (Suc m) = ?d (Suc m) + ?p * ?d m" if "m \<le> n" for m
  proof (cases "m = n")
    case True
    have "?d n = 0" using c(2) Suc.prems by (simp add: gf_simps)
    then show ?thesis using True zero [of "k - 1 - Suc n"] c(2) Suc.prems by (simp add: gf_simps)
  next
    case False
    then have "k - 1 - Suc m + 1 = k - 1 - m" "k - Suc n \<le> k - 1 - Suc m" "k - 1 - Suc m < k - 1" using that Suc.prems by auto
    then show ?thesis using i(1) i(2) [of "k - 1 - Suc m"] by (simp add: c'c Let_def)
  qed
  have dn: "?d (Suc n) = 0" using c(2) Suc.prems by (simp add: gf_simps)
  have "x ^ Suc (Suc n) + (\<Sum>m\<le>Suc n. ?d' m * x ^ (Suc n - m)) = (\<Prod>l\<le>Suc n. x + point l)" for x
  proof -
    have a: "(\<Sum>m\<le>Suc n. ?d' m * x ^ (Suc n - m)) = (?d 0 + ?p) * x ^ Suc n + (\<Sum>m\<le>n. ?d (Suc m) * x ^ (n - m)) + ?p * (\<Sum>m\<le>n. ?d m * x ^ (n - m))"
      using d0 dS by (simp only: sum.atMost_Suc_shift) (simp add: sum_distrib_left distrib_right sum.distrib mult.assoc)
    have b: "?d 0 * x ^ Suc n + (\<Sum>m\<le>n. ?d (Suc m) * x ^ (n - m)) = (\<Sum>m\<le>n. ?d m * x ^ (Suc n - m))"
    proof -
      have "?d 0 * x ^ Suc n + (\<Sum>m\<le>n. ?d (Suc m) * x ^ (n - m)) = (\<Sum>m\<le>Suc n. ?d m * x ^ (Suc n - m))"
        by (simp only: sum.atMost_Suc_shift) simp
      then show ?thesis using dn by simp
    qed
    have e: "(\<Sum>m\<le>n. ?d m * x ^ (Suc n - m)) = x * (\<Sum>m\<le>n. ?d m * x ^ (n - m))"
      by (auto simp: sum_distrib_left Suc_diff_le mult.left_commute intro!: sum.cong)
    have "x ^ Suc (Suc n) + (\<Sum>m\<le>Suc n. ?d' m * x ^ (Suc n - m)) =
        (x + ?p) * (x ^ Suc n + (\<Sum>m\<le>n. ?d m * x ^ (n - m)))"
      unfolding a using b e by (simp add: algebra_simps)
    then show ?thesis using c(3) [of x] by (simp add: mult.commute)
  qed
  then show ?case using len zero unfolding c'_def by blast
qed

lemma vdm_master_ok:
  assumes "0 < k" and "k \<le> 255"
  shows "length (vdm_master k) = k" and "x ^ k + (\<Sum>j<k. gf (vdm_master k ! j) * x ^ j) = (\<Prod>l<k. x + point l)"
proof -
  obtain n where n: "k = Suc n" using assms(1) by (cases k) auto
  have m: "length (vdm_master k) = k"
    "x ^ Suc n + (\<Sum>m\<le>n. gf (vdm_master k ! (k - 1 - m)) * x ^ (n - m)) = (\<Prod>l\<le>n. x + point l)"
    using vdm_master_loop [of n k] assms n by (simp_all add: vdm_master_def del: upt_Suc)
  show "length (vdm_master k) = k" by (fact m)
  have "(\<Sum>m\<le>n. gf (vdm_master k ! (k - 1 - m)) * x ^ (n - m)) = (\<Sum>j<k. gf (vdm_master k ! j) * x ^ j)"
    using sum.nat_diff_reindex [of "\<lambda>j. gf (vdm_master k ! j) * x ^ j" k] n by (simp add: lessThan_Suc_atMost)
  then show "x ^ k + (\<Sum>j<k. gf (vdm_master k ! j) * x ^ j) = (\<Prod>l<k. x + point l)"
    using m(2) n by (simp add: lessThan_Suc_atMost)
qed

lemma vdm_divide_loop:
  assumes "n < length b"
  shows "\<exists>b' t'. fold (\<lambda>i (b, t). let b = b[i := c ! (i + 1) XOR MUL_TABLE ! unat w ! unat (b ! (i + 1))] in
        (b, b ! i XOR MUL_TABLE ! unat w ! unat t)) (rev [0..<n]) (b, t) = (b', t') \<and> length b' = length b \<and>
      (\<forall>j\<ge>n. b' ! j = b ! j) \<and> (\<forall>j<n. gf (b' ! j) = gf (c ! (j + 1)) + gf w * gf (b' ! (j + 1))) \<and>
      gf t' = gf t * gf w ^ n + (\<Sum>j<n. gf (b' ! j) * gf w ^ j)"
  using assms
proof (induction n arbitrary: b t)
  case (Suc n)
  define b1 where "b1 = b[n := c ! (n + 1) XOR MUL_TABLE ! unat w ! unat (b ! (n + 1))]"
  define t1 where "t1 = b1 ! n XOR MUL_TABLE ! unat w ! unat t"
  have n: "n < length b1" using Suc.prems by (simp add: b1_def)
  obtain b' t' where IH: "fold (\<lambda>i (b, t). let b = b[i := c ! (i + 1) XOR MUL_TABLE ! unat w ! unat (b ! (i + 1))] in
        (b, b ! i XOR MUL_TABLE ! unat w ! unat t)) (rev [0..<n]) (b1, t1) = (b', t')" "length b' = length b1"
      "\<forall>j\<ge>n. b' ! j = b1 ! j" "\<forall>j<n. gf (b' ! j) = gf (c ! (j + 1)) + gf w * gf (b' ! (j + 1))"
      "gf t' = gf t1 * gf w ^ n + (\<Sum>j<n. gf (b' ! j) * gf w ^ j)"
    using Suc.IH [OF n, of t1] by blast
  have bn: "b' ! n = b1 ! n" "\<forall>j\<ge>Suc n. b' ! j = b ! j" using IH(3) by (auto simp: b1_def)
  moreover have "gf (b' ! n) = gf (c ! (n + 1)) + gf w * gf (b' ! (n + 1))"
    using bn Suc.prems by (simp add: b1_def gf_simps gf_mul_lookup)
  moreover have "gf t' = gf t * gf w ^ Suc n + (\<Sum>j<Suc n. gf (b' ! j) * gf w ^ j)"
    using IH(5) bn(1) by (simp add: t1_def gf_simps gf_mul_lookup algebra_simps)
  ultimately show ?case using IH(1,2,4) by (auto simp: b1_def t1_def Let_def less_Suc_eq)
qed simp

text \<open>The quotient of a row is the Lagrange polynomial of its point, up to its value there.\<close>

lemma vdm_divide_ok:
  assumes k: "1 < k" "k \<le> 255" and b: "length b = k" and r: "r < k" and w: "gf w = point r"
  shows "\<exists>b' t'. vdm_divide k (vdm_master k) (unat w) b = (b', t') \<and> length b' = k \<and> t' \<noteq> 0 \<and>
    (\<forall>l<k. (\<Sum>j<k. gf (b' ! j) * point l ^ j) = (if l = r then gf t' else 0))"
proof -
  let ?c = "vdm_master k"
  obtain n where n: "k = Suc n" using k(1) by (cases k) auto
  obtain b' t' where d: "vdm_divide k ?c (unat w) b = (b', t')" "length b' = k" "b' ! n = 1"
    "\<forall>j<n. gf (b' ! j) = gf (?c ! (j + 1)) + point r * gf (b' ! (j + 1))"
    "gf t' = point r ^ n + (\<Sum>j<n. gf (b' ! j) * point r ^ j)"
    using vdm_divide_loop [of n "b[k - 1 := 1]" ?c w 1] b n w by (auto simp: vdm_divide_def gf_simps)
  define Q where "Q x = (\<Sum>j<k. gf (b' ! j) * x ^ j)" for x
  have t: "gf t' = Q (point r)" using d(3,5) n by (simp add: Q_def gf_simps add.commute)
  have mult: "(x + point r) * Q x = (\<Prod>l<k. x + point l) + (gf (?c ! 0) + point r * gf (b' ! 0))" for x
  proof -
    have "x * Q x = x ^ k + (\<Sum>j<n. gf (?c ! (j + 1)) * x ^ (j + 1)) + point r * (\<Sum>j<n. gf (b' ! (j + 1)) * x ^ (j + 1))"
      using d(3,4) n by (simp add: Q_def gf_simps sum_distrib_left distrib_right sum.distrib algebra_simps)
    moreover have "point r * Q x = point r * gf (b' ! 0) + point r * (\<Sum>j<n. gf (b' ! (j + 1)) * x ^ (j + 1))"
      unfolding Q_def n by (simp only: sum.lessThan_Suc_shift) (simp add: distrib_left)
    moreover have "(\<Prod>l<k. x + point l) = x ^ k + (gf (?c ! 0) + (\<Sum>j<n. gf (?c ! (j + 1)) * x ^ (j + 1)))"
      using vdm_master_ok(2) [of k x] k unfolding n by (simp only: sum.lessThan_Suc_shift) simp
    ultimately show ?thesis by (simp add: distrib_right add_ac)
  qed
  have pr: "(\<Prod>l<k. point m + point l) = 0" if "m < k" for m using that by (auto intro!: prod_zero bexI [of _ m])
  have rem: "gf (?c ! 0) + point r * gf (b' ! 0) = 0" using mult [of "point r"] pr [OF r] by simp
  have z: "Q (point l) = 0" if "l < k" "l \<noteq> r" for l
  proof -
    have "point l + point r \<noteq> 0" using point_inj [of l r] that r k(2) by (simp add: gf_add_eq_0)
    then show ?thesis using mult [of "point l"] rem pr [OF that(1)] by simp
  qed
  have "t' \<noteq> 0"
  proof
    assume "t' = 0"
    then have "Q (point l) = 0" if "l < k" for l using z t that by (cases "l = r") (simp_all add: gf_simps)
    moreover have "card (point ` {..<k}) = k" using point_inj k(2) by (subst card_image) (auto intro!: inj_onI)
    ultimately have "gf (b' ! n) = 0" using n unfolding Q_def
      by (intro poly_coeffs_zero [of "point ` {..<k}" k "\<lambda>j. gf (b' ! j)"]) auto
    then show False using d(3) by (simp add: gf_simps)
  qed
  then show ?thesis using d(1,2) z t unfolding Q_def by (intro exI [of _ b'] exI [of _ t']) auto
qed

lemma vdm_column_loop:
  fixes v :: "'a list"
  assumes "k * k \<le> length v" and "r < k" and "n \<le> k"
  shows "let v' = fold (\<lambda>col v. v[col * k + r := f col]) [0..<n] v in length v' = length v \<and> (\<forall>i<k. \<forall>j<k. v' ! (i * k + j) = (if j = r \<and> i < n then f i else v ! (i * k + j)))"
  using assms(3) unfolding Let_def
proof (induction n)
  case (Suc n)
  have "n * k + r = i * k + j \<longleftrightarrow> i = n \<and> j = r" if "i < k" "j < k" for i j
    using that assms(2) row_bound [of i n j k] row_bound [of n i r k] by (cases i n rule: linorder_cases) auto
  moreover have "n * k + r < length v" using row_bound [of n k r k] Suc.prems assms(1,2) by simp
  ultimately show ?case using Suc by (auto simp: nth_list_update less_Suc_eq)
qed simp

text \<open>The matrix holds the coefficients of the Lagrange polynomials of the first \<open>k\<close> points, a column for each.\<close>

definition lagrange :: "nat \<Rightarrow> bytes \<Rightarrow> bool" where
  "lagrange k v \<longleftrightarrow> (\<forall>r<k. \<forall>l<k. (\<Sum>col<k. ent k v col r * point l ^ col) = (if l = r then 1 else 0))"

lemma vdm_rows_loop:
  assumes k: "1 < k" "k \<le> 255" and v: "k * k \<le> length v" and "n \<le> k"
  shows "\<exists>b' v'. fold (vdm_row k (vdm_master k)) [0..<n] (replicate k 0, v) = (b', v') \<and> length b' = k \<and> length v' = length v \<and>
    (\<forall>r<n. \<forall>l<k. (\<Sum>col<k. ent k v' col r * point l ^ col) = (if l = r then 1 else 0))"
  using assms(4)
proof (induction n)
  case (Suc n)
  obtain b v1 where IH: "fold (vdm_row k (vdm_master k)) [0..<n] (replicate k 0, v) = (b, v1)" "length b = k" "length v1 = length v"
    "\<forall>r<n. \<forall>l<k. (\<Sum>col<k. ent k v1 col r * point l ^ col) = (if l = r then 1 else 0)" using Suc by auto
  define w where "w = (if n \<noteq> 0 then EXP_TABLE ! n else 0)"
  have w: "gf w = point n" "unat w = (if n \<noteq> 0 then unat (EXP_TABLE ! n) else 0)"
    using point_pos [of n] Suc.prems k by (auto simp: w_def point_def gf_simps)
  obtain b' t where d: "vdm_divide k (vdm_master k) (unat w) b = (b', t)" "length b' = k" "t \<noteq> 0"
    "\<forall>l<k. (\<Sum>j<k. gf (b' ! j) * point l ^ j) = (if l = n then gf t else 0)"
    using vdm_divide_ok [OF k IH(2) _ w(1)] Suc.prems by auto
  define f where "f col = MUL_TABLE ! unat (INV_TABLE ! unat t) ! unat (b' ! col)" for col
  define v2 where "v2 = fold (\<lambda>col v. v[col * k + n := f col]) [0..<k] v1"
  have step: "vdm_row k (vdm_master k) n (b, v1) = (b', v2)"
    using d(1) w(2) by (simp add: vdm_row_def v2_def f_def Let_def)
  have v2: "length v2 = length v1" "\<forall>i<k. \<forall>j<k. v2 ! (i * k + j) = (if j = n then f i else v1 ! (i * k + j))"
    using vdm_column_loop [of k v1 n k f] v IH(3) Suc.prems by (simp_all add: v2_def Let_def)
  have "(\<Sum>col<k. ent k v2 col r * point l ^ col) = (if l = r then 1 else 0)" if "r < Suc n" "l < k" for r l
  proof (cases "r = n")
    case True
    have "(\<Sum>col<k. ent k v2 col r * point l ^ col) = inverse (gf t) * (\<Sum>j<k. gf (b' ! j) * point l ^ j)"
      unfolding sum_distrib_left using v2(2) True that Suc.prems
      by (intro sum.cong) (simp_all add: ent_def f_def gf_mul_lookup gf_simps mult.assoc)
    then show ?thesis using d(3,4) that True by (simp add: gf_eq_0)
  next
    case False
    have "(\<Sum>col<k. ent k v2 col r * point l ^ col) = (\<Sum>col<k. ent k v1 col r * point l ^ col)"
      using v2(2) False that Suc.prems by (intro sum.cong) (simp_all add: ent_def)
    then show ?thesis using IH(4) False that by simp
  qed
  then show ?case using IH(1,3) step d(2) v2(1) by simp
qed simp

lemma create_inverted_vdm_ok:
  assumes "0 < k" and "k \<le> 255" and "k * k \<le> length v"
  shows "\<exists>v'. create_inverted_vdm v k = Done v' \<and> length v' = length v \<and> lagrange k v'"
proof (cases "k = 1")
  case True
  then show ?thesis using assms by (cases v) (simp_all add: create_inverted_vdm_def lagrange_def ent_def gf_simps)
next
  case False
  then show ?thesis using vdm_rows_loop [of k v k] assms by (auto simp: create_inverted_vdm_def lagrange_def not_less)
qed

end
