(* ===== verification/Fec.thy ===== *)
theory Fec
  imports Fec_Matrix
begin

section \<open>The erasure code (\<open>berkleamp-welch/src/fec.rs\<close>)\<close>

text \<open>
  Data of \<open>required\<close> blocks is extended by parity blocks to \<open>total\<close> shares. Byte by byte the data shares are the values of a polynomial with
  \<open>required\<close> coefficients at the first points, and the parity shares its values at the further ones; any \<open>required\<close> shares determine it.
  The theory models the construction, encoding and rebuilding, and shows what rebuilding returns.
\<close>

record fec =
  required :: nat
  total_shares :: nat
  enc_matrix :: bytes
  vand_matrix :: bytes

record share =
  share_number :: nat
  share_data :: bytes

datatype encode_error = InvalidParityLength | InvalidDataLength

datatype rebuild_error = NotEnoughShares | NotEqualLengths | InvertMatrix

definition USIZE_MAX :: nat where
  "USIZE_MAX = 2 ^ 64 - 1"

definition identity_rows :: "nat \<Rightarrow> bytes \<Rightarrow> bytes" where
  "identity_rows k mx = fold (\<lambda>i mx. mx[i * (k + 1) := 1]) [0..<k] mx"

definition parity_entry :: "nat \<Rightarrow> bytes \<Rightarrow> nat \<Rightarrow> nat \<Rightarrow> u8" where
  "parity_entry k v n col = fold (\<lambda>i acc. acc XOR galois_mul (v ! (n * k + i)) (v ! (i * k + col))) [0..<k] 0"

definition parity_rows :: "nat \<Rightarrow> nat \<Rightarrow> bytes \<Rightarrow> bytes \<Rightarrow> bytes" where
  "parity_rows k t v mx = fold (\<lambda>n mx. fold (\<lambda>col mx. mx[n * k + col := parity_entry k v n col]) [0..<k] mx) [k..<t] mx"

fun vand_cols :: "nat \<Rightarrow> u8 \<Rightarrow> u8 \<Rightarrow> bytes" where
  "vand_cols 0 g a = []"
| "vand_cols (Suc n) g a = a # vand_cols n g (galois_mul g a)"

fun vand_rows :: "nat \<Rightarrow> nat \<Rightarrow> u8 \<Rightarrow> u8 \<Rightarrow> bytes" where
  "vand_rows 0 t g first = []"
| "vand_rows (Suc n) t g first = first # vand_cols (t - 1) g 1 @ vand_rows n t (galois_mul 2 g) 0"

definition fec_new :: "nat \<Rightarrow> nat \<Rightarrow> fec run" where
  "fec_new k t =
     (if \<not> (0 < k \<and> k < t \<and> k \<le> 256 \<and> t \<le> 256) then Panic
      else run_bind (create_inverted_vdm (replicate (k * t) 0) k) (\<lambda>v.
        let v = take (k * k) v @ map (\<lambda>i. EXP_TABLE ! (((i div k) * (i mod k)) mod 255)) [k * k..<k * t] in
        Done \<lparr>required = k, total_shares = t, enc_matrix = parity_rows k t v (identity_rows k (replicate (k * t) 0)),
          vand_matrix = vand_rows k t 1 1\<rparr>))"

definition encode_block :: "fec \<Rightarrow> bytes \<Rightarrow> nat \<Rightarrow> nat \<Rightarrow> bytes \<Rightarrow> bytes run" where
  "encode_block f content block i par =
     run_for (\<lambda>j par. mul_slice_xor (enc_matrix f ! ((i + required f) * required f + j)) (row content block j) par) [0..<required f] par"

definition fec_encode :: "fec \<Rightarrow> bytes \<Rightarrow> bytes \<Rightarrow> (encode_error + bytes) run" where
  "fec_encode f content parity =
     (let block = length content div required f in
      if block * required f \<noteq> length content then Done (Inl InvalidDataLength)
      else if block * (total_shares f - required f) \<noteq> length parity then Done (Inl InvalidParityLength)
      else if block = 0 then Panic
      else run_bind (run_for (\<lambda>i parity. run_bind (encode_block f content block i (row parity block i)) (\<lambda>par. Done (put_row parity block i par)))
          [0..<total_shares f - required f] (replicate (length parity) 0))
        (\<lambda>parity. Done (Inr parity)))"

text \<open>The places of the data shares that are missing: between two, behind the last, before the first.\<close>

definition missing_ids :: "nat \<Rightarrow> share list \<Rightarrow> nat list" where
  "missing_ids k shares =
     concat (map2 (\<lambda>a b. [share_number a + 1..<share_number b]) shares (tl shares)) @
     [(if shares = [] then 0 else share_number (last shares) + 1)..<k] @
     [0..<(if shares = [] then 0 else share_number (hd shares))]"

definition place_parity :: "fec \<Rightarrow> nat \<times> nat \<Rightarrow> bytes \<times> share list \<Rightarrow> (bytes \<times> share list) run" where
  "place_parity f ip st =
     (case (ip, st) of ((i, p), (m_dec, parity)) \<Rightarrow>
        let n = share_number (parity ! p); k = required f in
        if length (enc_matrix f) < n * k + k then Panic
        else Done (put_row m_dec k i (row (enc_matrix f) k n), parity[p := (parity ! p)\<lparr>share_number := USIZE_MAX - i\<rparr>]))"

definition rebuild_row :: "nat \<Rightarrow> nat \<Rightarrow> bytes \<Rightarrow> nat \<Rightarrow> share list \<Rightarrow> share list run" where
  "rebuild_row k block m_dec i shares =
     (if share_number (shares ! i) < k then Done shares
      else run_bind (run_for (\<lambda>j buf. mul_slice_xor (m_dec ! (i * k + j)) (share_data (shares ! j)) buf) [0..<k] (replicate block 0))
        (\<lambda>buf. Done (shares[i := (shares ! i)\<lparr>share_data := buf\<rparr>])))"

definition share_key :: "nat \<Rightarrow> share \<Rightarrow> nat" where
  "share_key k s = (if k < share_number s then USIZE_MAX - share_number s else share_number s)"

definition fec_rebuild :: "fec \<Rightarrow> share list \<Rightarrow> (rebuild_error + share list) run" where
  "fec_rebuild f shares =
     (let k = required f; shares = sort_key share_number shares in
      if length shares < k then Done (Inl NotEnoughShares)
      else let shares = take k shares; block = length (share_data (shares ! 0)) in
        if list_ex (\<lambda>s. length (share_data s) \<noteq> block) shares then Done (Inl NotEqualLengths)
        else
          let m_dec = identity_rows k (replicate (k * k) 0);
              present = takeWhile (\<lambda>s. share_number s < k) shares;
              parity = drop (length present) shares in
          run_bind (run_for (place_parity f) (zip (missing_ids k present) [0..<length parity]) (m_dec, parity)) (\<lambda>(m_dec, parity).
            let shares = sort_key (share_key k) (present @ parity) in
            run_bind (invert_matrix m_dec k) (\<lambda>r. case r of
                None \<Rightarrow> Done (Inl InvertMatrix)
              | Some m_dec \<Rightarrow> run_bind (run_for (rebuild_row k block m_dec) [0..<k] shares) (\<lambda>shares. Done (Inr shares)))))"

subsection \<open>The matrix of the code\<close>

lemma identity_rows_ok:
  assumes "k \<le> n" and "length mx = n * k" and "\<forall>x\<in>set mx. x = 0"
  shows "length (identity_rows k mx) = n * k \<and> (\<forall>i<n. \<forall>j<k. identity_rows k mx ! (i * k + j) = (if i = j then 1 else 0))"
proof -
  have "length (fold (\<lambda>i mx. mx[i * (k + 1) := 1]) [0..<m] mx) = n * k \<and>
    (\<forall>i<n. \<forall>j<k. fold (\<lambda>i mx. mx[i * (k + 1) := 1]) [0..<m] mx ! (i * k + j) = (if i = j \<and> i < m then 1 else 0))" if "m \<le> k" for m
    using that
  proof (induction m)
    case 0
    then show ?case using assms row_bound by (auto simp: nth_mem)
  next
    case (Suc m)
    have e: "m * (k + 1) = i * k + j \<longleftrightarrow> i = m \<and> j = m" if "i < n" "j < k" for i j
      using that Suc.prems row_bound [of i m j k] row_bound [of m i m k] by (cases i m rule: linorder_cases) auto
    have "m * (k + 1) < n * k" using row_bound [of m n m k] Suc.prems assms(1) by simp
    then show ?case using Suc e by (auto simp: nth_list_update)
  qed
  from this [OF order_refl] show ?thesis by (auto simp: identity_rows_def)
qed

lemma parity_rows_ok:
  assumes "k \<le> t" and "length mx = t * k"
  shows "length (parity_rows k t v mx) = t * k \<and>
    (\<forall>i<t. \<forall>j<k. parity_rows k t v mx ! (i * k + j) = (if k \<le> i then parity_entry k v i j else mx ! (i * k + j)))"
proof -
  let ?f = "\<lambda>n mx. fold (\<lambda>col mx. mx[n * k + col := parity_entry k v n col]) [0..<k] mx"
  have inner: "length (fold (\<lambda>col mx. mx[n * k + col := parity_entry k v n col]) [0..<c] mx) = t * k \<and>
    (\<forall>i<t. \<forall>j<k. fold (\<lambda>col mx. mx[n * k + col := parity_entry k v n col]) [0..<c] mx ! (i * k + j) =
       (if i = n \<and> j < c then parity_entry k v i j else mx ! (i * k + j)))" if "n < t" "c \<le> k" "length mx = t * k" for n c mx
    using that(2)
  proof (induction c)
    case (Suc c)
    have e: "n * k + c = i * k + j \<longleftrightarrow> i = n \<and> j = c" if "i < t" "j < k" for i j
      using that Suc.prems row_bound [of i n j k] row_bound [of n i c k] by (cases i n rule: linorder_cases) auto
    have "n * k + c < t * k" using row_bound [of n t c k] Suc.prems that(1) by simp
    then show ?case using Suc e by (auto simp: nth_list_update)
  qed (simp add: that)
  have "length (fold ?f [k..<m] mx) = t * k \<and>
    (\<forall>i<t. \<forall>j<k. fold ?f [k..<m] mx ! (i * k + j) = (if k \<le> i \<and> i < m then parity_entry k v i j else mx ! (i * k + j)))"
    if "k \<le> m" "m \<le> t" for m
    using that
  proof (induction m rule: nat_induct_at_least [consumes 1])
    case (Suc m)
    then show ?case using inner [of m k "fold ?f [k..<m] mx"] by (auto simp: less_Suc_eq)
  qed (auto simp: assms)
  from this [OF assms(1) order_refl] show ?thesis by (auto simp: parity_rows_def)
qed

lemma gf_fold_xor: "gf (fold (\<lambda>i acc. acc XOR galois_mul (a i) (b i)) [0..<m] 0) = (\<Sum>i<m. gf (a i) * gf (b i))"
  by (induction m) (simp_all add: gf_simps)

text \<open>The rows of the matrix evaluate a polynomial at all points from its values at the first \<open>k\<close>.\<close>

definition evaluates :: "nat \<Rightarrow> nat \<Rightarrow> bytes \<Rightarrow> bool" where
  "evaluates k t mx \<longleftrightarrow> length mx = t * k \<and>
     (\<forall>D. poly_fun k D \<longrightarrow> (\<forall>n<t. (\<Sum>c<k. ent k mx n c * D (point c)) = D (point n)))"

lemma card_points: "inj_on g {..<k} \<Longrightarrow> (\<And>i. i < k \<Longrightarrow> g i < 256) \<Longrightarrow> card ((\<lambda>i. point (g i)) ` {..<k}) = k"
proof -
  assume g: "inj_on g {..<k}" "\<And>i. i < k \<Longrightarrow> g i < 256"
  then have "inj_on (\<lambda>i. point (g i)) {..<k}" by (auto intro!: inj_onI dest: inj_onD simp: point_inj)
  then show ?thesis by (simp add: card_image)
qed

lemma poly_fun_agree:
  assumes "poly_fun k D" and "poly_fun k E" and "inj_on g {..<k}" and "\<And>i. i < k \<Longrightarrow> g i < 256"
    and "\<And>i. i < k \<Longrightarrow> D (point (g i)) = E (point (g i))"
  shows "D x = E x"
proof -
  let ?S = "(\<lambda>i. point (g i)) ` {..<k}"
  have p: "poly_fun k (\<lambda>x. D x + E x)" using assms(1,2) by (rule poly_fun_add)
  have c: "k \<le> card ?S" using card_points [OF assms(3)] assms(4) by simp
  have z: "D a + E a = 0" if "a \<in> ?S" for a using that assms(5) by (auto simp: gf_add_eq_0)
  have "D x + E x = 0" using poly_fun_zeros [OF p _ c z] by simp
  then show ?thesis by (simp add: gf_add_eq_0)
qed

lemma fec_new_ok:
  assumes "0 < k" and "k < t" and "t \<le> 256"
  shows "\<exists>f. fec_new k t = Done f \<and> required f = k \<and> total_shares f = t \<and> evaluates k t (enc_matrix f)"
proof -
  have kt: "k * k \<le> k * t" using assms by simp
  obtain v where v: "create_inverted_vdm (replicate (k * t) 0) k = Done v" "length v = k * t" "lagrange k v"
    using create_inverted_vdm_ok [of k "replicate (k * t) 0"] assms kt by auto
  define v' where "v' = take (k * k) v @ map (\<lambda>i. EXP_TABLE ! (((i div k) * (i mod k)) mod 255)) [k * k..<k * t]"
  define E where "E = parity_rows k t v' (identity_rows k (replicate (k * t) 0))"
  have id: "length (identity_rows k (replicate (k * t) 0)) = t * k"
    "\<forall>i<t. \<forall>j<k. identity_rows k (replicate (k * t) 0) ! (i * k + j) = (if i = j then 1 else 0)"
    using identity_rows_ok [of k t "replicate (k * t) 0"] assms by (auto simp: mult.commute)
  have E: "length E = t * k" "\<forall>i<t. \<forall>j<k. E ! (i * k + j) = (if k \<le> i then parity_entry k v' i j else if i = j then 1 else 0)"
    using parity_rows_ok [OF _ id(1), of v'] id(2) assms by (auto simp: E_def)
  have lo: "gf (v' ! (i * k + j)) = ent k v i j" if "i < k" "j < k" for i j
    using that row_bound [of i k j k] v(2) kt by (simp add: v'_def nth_append ent_def)
  have hi: "gf (v' ! (n * k + i)) = point n ^ i" if "k \<le> n" "n < t" "i < k" for n i
  proof -
    define m where "m = n * k + i"
    have m: "k * k \<le> m" "m < k * t" using that row_bound [of n t i k] by (simp_all add: m_def mult.commute trans_le_add1)
    have d: "m div k = n" "m mod k = i" using that by (simp_all add: m_def)
    have "[k * k..<k * t] ! (m - k * k) = m" using nth_upt [of "k * k" "m - k * k" "k * t"] m by simp
    then have "v' ! m = EXP_TABLE ! (((m div k) * (m mod k)) mod 255)" using v(2) kt m by (simp add: v'_def nth_append)
    then have "v' ! (n * k + i) = EXP_TABLE ! ((n * i) mod 255)" unfolding d by (simp add: m_def)
    moreover have "(n * i) mod 255 < 510" using mod_less_divisor [of 255 "n * i"] by linarith
    ultimately have "gf (v' ! (n * k + i)) = alpha ^ ((n * i) mod 255)" by (simp add: gf_EXP_TABLE)
    also have "\<dots> = alpha ^ (n * i)" by (simp add: alpha_power_eq)
    finally show ?thesis using that assms(1) by (simp add: point_def power_mult)
  qed
  have "(\<Sum>c<k. ent k E n c * D (point c)) = D (point n)" if D: "poly_fun k D" and n: "n < t" for D n
  proof (cases "k \<le> n")
    case True
    define L where "L c x = (\<Sum>i<k. ent k v i c * x ^ i)" for c x
    have L: "L c (point l) = (if l = c then 1 else 0)" if "c < k" "l < k" for c l
      using v(3) that by (simp add: lagrange_def L_def)
    have Ln: "ent k E n c = L c (point n)" if "c < k" for c
      using E(2) n that True lo hi
      by (simp add: ent_def parity_entry_def gf_fold_xor L_def) (simp add: ent_def mult.commute)
    have "poly_fun k (\<lambda>x. \<Sum>c<k. D (point c) * L c x)" unfolding L_def by (intro poly_intros) auto
    moreover have "(\<Sum>c<k. D (point c) * L c (point l)) = D (point l)" if "l < k" for l
    proof -
      have "(\<Sum>c<k. D (point c) * L c (point l)) = (\<Sum>c<k. if l = c then D (point c) else 0)"
        using that by (intro sum.cong) (simp_all add: L)
      then show ?thesis using that by (simp add: sum.delta)
    qed
    ultimately have "(\<Sum>c<k. D (point c) * L c (point n)) = D (point n)"
      using poly_fun_agree [of k "\<lambda>x. \<Sum>c<k. D (point c) * L c x" D "\<lambda>i. i" "point n"] D assms by simp
    then show ?thesis using Ln by (simp add: mult.commute)
  next
    case False
    then have "(\<Sum>c<k. ent k E n c * D (point c)) = (\<Sum>c<k. if n = c then D (point c) else 0)"
      using E(2) n by (intro sum.cong) (simp_all add: ent_def gf_simps)
    then show ?thesis using False by (simp add: sum.delta)
  qed
  then have "evaluates k t E" using E(1) by (simp add: evaluates_def)
  then show ?thesis using v(1) assms by (simp add: fec_new_def E_def v'_def Let_def)
qed

subsection \<open>Encoding\<close>

lemma xor_products_loop:
  assumes "\<And>j. j < m \<Longrightarrow> length (src j) = length out"
  shows "\<exists>r. run_for (\<lambda>j out. mul_slice_xor (co j) (src j) out) [0..<m] out = Done r \<and> length r = length out \<and>
    (\<forall>p<length out. gf (r ! p) = gf (out ! p) + (\<Sum>j<m. gf (co j) * gf (src j ! p)))"
proof -
  define P where "P n r \<longleftrightarrow> length r = length out \<and>
    (\<forall>p<length out. gf (r ! p) = gf (out ! p) + (\<Sum>j<n. gf (co j) * gf (src j ! p)))" for n r
  have "\<exists>r. run_for (\<lambda>j out. mul_slice_xor (co j) (src j) out) [0..<m] out = Done r \<and> P (length [0..<m]) r"
  proof (rule run_for_inv)
    fix n s assume n: "n < length [0..<m]" and s: "P n s"
    then have "length (src n) = length s" using assms by (simp add: P_def)
    then obtain r where "mul_slice_xor (co n) (src n) s = Done r" "length r = length s"
      "\<And>j. j < length s \<Longrightarrow> gf (r ! j) = gf (s ! j) + gf (co n) * gf (src n ! j)" by (rule gf_mul_slice_xor) auto
    then show "\<exists>s'. mul_slice_xor (co ([0..<m] ! n)) (src ([0..<m] ! n)) s = Done s' \<and> P (Suc n) s'"
      using n s by (auto simp: P_def add.assoc)
  qed (simp add: P_def)
  then show ?thesis by (simp add: P_def)
qed

text \<open>The bytes of share \<open>n\<close> at position \<open>p\<close>.\<close>

definition share_bytes :: "nat \<Rightarrow> nat \<Rightarrow> bytes \<Rightarrow> bytes \<Rightarrow> nat \<Rightarrow> bytes" where
  "share_bytes k block content parity n = (if n < k then row content block n else row parity block (n - k))"

text \<open>Every position of the shares is the value table of a polynomial.\<close>

definition codewords :: "nat \<Rightarrow> nat \<Rightarrow> nat \<Rightarrow> (nat \<Rightarrow> bytes) \<Rightarrow> (nat \<Rightarrow> gf \<Rightarrow> gf) \<Rightarrow> bool" where
  "codewords k t block sh D \<longleftrightarrow> (\<forall>p<block. poly_fun k (D p) \<and> (\<forall>n<t. gf (sh n ! p) = D p (point n))) \<and> (\<forall>n<t. length (sh n) = block)"

lemma fec_encode_ok:
  assumes f: "required f = k" "total_shares f = t" "evaluates k t (enc_matrix f)" and k: "0 < k" "k < t" "t \<le> 256"
    and len: "length content = k * block" "length parity = (t - k) * block" and b: "0 < block"
  shows "\<exists>par D. fec_encode f content parity = Done (Inr par) \<and> length par = (t - k) * block \<and>
    codewords k t block (share_bytes k block content par) D"
proof -
  have "\<exists>d. poly_fun k d \<and> (\<forall>n<k. d (point n) = gf (content ! (n * block + p)))" for p
  proof -
    have inj: "inj_on point {..<k}" using k by (auto intro!: inj_onI simp: point_inj)
    obtain d where "poly_fun (card (point ` {..<k})) d" "\<forall>a\<in>point ` {..<k}. d a = gf (content ! (the_inv_into {..<k} point a * block + p))"
      using interpolate [of "point ` {..<k}" "\<lambda>a. gf (content ! (the_inv_into {..<k} point a * block + p))"] by auto
    then show ?thesis using inj by (auto simp: card_image the_inv_into_f_f)
  qed
  then obtain D where D: "\<And>p. poly_fun k (D p)" "\<And>p n. n < k \<Longrightarrow> D p (point n) = gf (content ! (n * block + p))" by metis
  have blk: "length content div k = block" using len k by simp
  define body where "body i par = run_bind (encode_block f content block i (row par block i)) (\<lambda>r. Done (put_row par block i r))" for i par
  define P where "P n par \<longleftrightarrow> length par = (t - k) * block \<and>
    (\<forall>i<t - k. \<forall>p<block. gf (par ! (i * block + p)) = (if i < n then D p (point (k + i)) else 0))" for n par
  have "\<exists>par. run_for body [0..<t - k] (replicate (length parity) 0) = Done par \<and> P (length [0..<t - k]) par"
  proof (rule run_for_inv)
    show "P 0 (replicate (length parity) 0)" using row_bound len by (auto simp: P_def gf_simps)
    fix n s assume n: "n < length [0..<t - k]" and s: "P n s"
    then have n': "n < t - k" and ls: "length s = (t - k) * block" by (auto simp: P_def)
    obtain r where r: "encode_block f content block n (row s block n) = Done r" "length r = block"
      "\<And>p. p < block \<Longrightarrow> gf (r ! p) = gf (row s block n ! p) + (\<Sum>j<k. gf (enc_matrix f ! ((n + k) * k + j)) * gf (row content block j ! p))"
      using xor_products_loop [of k "row content block" "row s block n" "\<lambda>j. enc_matrix f ! ((n + k) * k + j)"]
      unfolding encode_block_def f(1) length_row [OF ls n'] using length_row [OF len(1)] by blast
    have "gf (r ! p) = D p (point (k + n))" if p: "p < block" for p
    proof -
      have "gf (row s block n ! p) = 0" using s p n' nth_row [OF ls n' p] by (simp add: P_def)
      moreover have "(\<Sum>j<k. gf (enc_matrix f ! ((n + k) * k + j)) * gf (row content block j ! p)) = (\<Sum>j<k. ent k (enc_matrix f) (n + k) j * D p (point j))"
        using p D(2) nth_row [OF len(1)] by (intro sum.cong) (simp_all add: ent_def)
      moreover have "\<dots> = D p (point (n + k))" using f(3) D(1) n' by (simp add: evaluates_def)
      ultimately show ?thesis using r(3) [OF p] by (simp add: add.commute)
    qed
    then have "P (Suc n) (put_row s block n r)"
      using s n' r(2) by (auto simp: P_def nth_put_row [OF ls] less_Suc_eq)
    then show "\<exists>s'. body ([0..<t - k] ! n) s = Done s' \<and> P (Suc n) s'" using r(1) n' by (simp add: body_def)
  qed
  then obtain par where par: "run_for body [0..<t - k] (replicate (length parity) 0) = Done par" "P (t - k) par" by auto
  have lp: "length par = (t - k) * block" using par(2) by (simp add: P_def)
  have "gf (share_bytes k block content par n ! p) = D p (point n) \<and> length (share_bytes k block content par n) = block" if "n < t" "p < block" for n p
  proof (cases "n < k")
    case True
    then show ?thesis using D(2) nth_row [OF len(1) True] that len by (simp add: share_bytes_def)
  next
    case False
    then have "n - k < t - k" using that by simp
    then show ?thesis using False that par(2) nth_row [OF lp, of "n - k" p] lp by (simp add: share_bytes_def P_def)
  qed
  then have "codewords k t block (share_bytes k block content par) D" using D(1) b by (auto simp: codewords_def)
  moreover have "fec_encode f content parity = Done (Inr par)"
    using par(1) len b k blk f by (simp add: fec_encode_def body_def [abs_def] mult.commute)
  ultimately show ?thesis using lp by blast
qed

subsection \<open>Inverting the matrix of a set of shares\<close>

lemma unit_poly:
  assumes g: "inj_on g {..<k}" "\<And>i. i < k \<Longrightarrow> g i < 256" and j: "j < k"
  obtains D where "poly_fun k D" and "\<And>i. i < k \<Longrightarrow> D (point (g i)) = (if i = j then 1 else 0)"
    and "\<And>q. q < 256 \<Longrightarrow> q \<notin> g ` ({..<k} - {j}) \<Longrightarrow> D (point q) \<noteq> 0"
proof -
  let ?S = "(\<lambda>i. point (g i)) ` {..<k}"
  have card: "card ?S = k" using card_points [OF g(1)] g(2) by simp
  have pj: "point (g i) = point (g j) \<longleftrightarrow> i = j" if "i < k" for i using that g j by (auto simp: point_inj dest: inj_onD)
  obtain D where D: "poly_fun k D" "\<forall>a\<in>?S. D a = (if a = point (g j) then 1 else 0)"
    using interpolate [of ?S "\<lambda>a. if a = point (g j) then 1 else 0"] card by auto
  then have v: "D (point (g i)) = (if i = j then 1 else 0)" if "i < k" for i using that pj [OF that] by auto
  have "D (point q) \<noteq> 0" if q: "q < 256" "q \<notin> g ` ({..<k} - {j})" for q
  proof
    assume z: "D (point q) = 0"
    define h where "h = g(j := q)"
    have "inj_on h {..<k}" "\<And>i. i < k \<Longrightarrow> h i < 256" using g q by (auto simp: h_def inj_on_def)
    moreover have "D (point (h i)) = 0" if "i < k" for i using v [OF that] z by (simp add: h_def)
    ultimately have "D (point (g j)) = 0" using poly_fun_agree [OF D(1) poly_fun_zero, of h] by simp
    then show False using v [OF j] by simp
  qed
  then show thesis using that D(1) v by blast
qed

text \<open>Row \<open>i\<close> belongs to the share \<open>src i\<close>: the data share \<open>i\<close> itself or a parity share.\<close>

definition sources :: "nat \<Rightarrow> (nat \<Rightarrow> nat) \<Rightarrow> bool" where
  "sources k src \<longleftrightarrow> inj_on src {..<k} \<and> (\<forall>i<k. (src i = i \<or> k \<le> src i) \<and> src i < 256)"

definition half_way :: "nat \<Rightarrow> (nat \<Rightarrow> nat) \<Rightarrow> nat \<Rightarrow> bytes \<Rightarrow> bool" where
  "half_way k src n mx \<longleftrightarrow> length mx = k * k \<and> (\<forall>D. poly_fun k D \<longrightarrow>
     represents k mx (\<lambda>j. D (point (if j < n then src j else j))) (\<lambda>j. D (point (if j < n then j else src j))))"

lemma half_way_turn:
  assumes s: "sources k src" and k: "0 < k" "k < 256" and n: "n < k" and h: "half_way k src n mx"
    and un: "length unused = k" "unused ! n" "\<forall>j<n. \<not> unused ! j"
  shows "\<exists>mx'. invert_turn k n (mx, unused, swaps) = Done (Some (mx', unused[n := False], swaps)) \<and> half_way k src (Suc n) mx'"
proof -
  define mix where "mix j = (if j < n then src j else j)" for j
  have src: "inj_on src {..<k}" "\<And>i. i < k \<Longrightarrow> src i = i \<or> k \<le> src i" "\<And>i. i < k \<Longrightarrow> src i < 256"
    using s by (auto simp: sources_def)
  have low: "src i = i" if "i < k" "src i < k" for i using src(2) [OF that(1)] that(2) by auto
  have mix: "inj_on mix {..<k}"
  proof (rule inj_onI)
    fix x y assume "x \<in> {..<k}" "y \<in> {..<k}" "mix x = mix y"
    then show "x = y" using inj_onD [OF src(1), of x y] low [of x] low [of y] by (auto simp: mix_def split: if_splits)
  qed
  have mix': "mix i < 256" if "i < k" for i using src(3) that k by (simp add: mix_def)
  have row_n: "ent k mx n j = D (point (src n))"
    if "j < k" and D: "poly_fun k D" "\<And>i. i < k \<Longrightarrow> D (point (mix i)) = (if i = j then 1 else 0)" for j D
  proof -
    have "(\<Sum>i<k. ent k mx n i * D (point (mix i))) = D (point (src n))"
      using h D(1) n by (auto simp: half_way_def represents_def mix_def)
    moreover have "(\<Sum>i<k. ent k mx n i * D (point (mix i))) = (\<Sum>i<k. if i = j then ent k mx n i else 0)"
      using D(2) by (intro sum.cong) simp_all
    ultimately show ?thesis using that(1) by simp
  qed
  have new: "src n \<notin> mix ` ({..<k} - {j})" if "src n \<noteq> n \<or> j = n" for j
  proof
    assume "src n \<in> mix ` ({..<k} - {j})"
    then obtain i where i: "i < k" "i \<noteq> j" "src n = mix i" by auto
    show False
    proof (cases "i < n")
      case True
      then show False using inj_onD [OF src(1), of n i] i n by (simp add: mix_def)
    next
      case False
      then have "src n = i" using i by (simp add: mix_def)
      then show False using low [OF n] i that by auto
    qed
  qed
  have piv: "ent k mx n n \<noteq> 0"
  proof -
    obtain D where "poly_fun k D" "\<And>i. i < k \<Longrightarrow> D (point (mix i)) = (if i = n then 1 else 0)" "D (point (src n)) \<noteq> 0"
      using unit_poly [OF mix mix' n] new [of n] src(3) n by metis
    then show ?thesis using row_n [OF n] by simp
  qed
  have short: "ent k mx n n = 1 \<or> k = 1" if z: "\<forall>j<k. j \<noteq> n \<longrightarrow> ent k mx n j = 0"
  proof (cases "src n = n")
    case True
    obtain D where D: "poly_fun k D" "\<And>i. i < k \<Longrightarrow> D (point (mix i)) = (if i = n then 1 else 0)"
      using unit_poly [OF mix mix' n] by metis
    have "D (point (src n)) = 1" using D(2) [OF n] True by (simp add: mix_def)
    then show ?thesis using row_n [OF n D] by simp
  next
    case False
    have "k = 1"
    proof (rule ccontr)
      assume "k \<noteq> 1"
      then obtain j where j: "j < k" "j \<noteq> n" using n by (metis One_nat_def less_one linorder_neqE_nat not_less_eq k(1))
      obtain D where "poly_fun k D" "\<And>i. i < k \<Longrightarrow> D (point (mix i)) = (if i = j then 1 else 0)" "D (point (src n)) \<noteq> 0"
        using unit_poly [OF mix mix' j(1)] new [of j] False src(3) n by metis
      then show False using row_n [OF j(1)] z j by simp
    qed
    then show ?thesis ..
  qed
  have len: "length mx = k * k" using h by (simp add: half_way_def)
  obtain mx' where mx': "invert_turn k n (mx, unused, swaps) = Done (Some (mx', unused[n := False], swaps))" "turned k n mx mx'"
    using invert_turn_ok [OF len n un piv short] by blast
  have "half_way k src (Suc n) mx'"
    unfolding half_way_def
  proof (intro conjI allI impI)
    show "length mx' = k * k" using mx'(2) by (simp add: turned_def)
    fix D :: "gf \<Rightarrow> gf" assume "poly_fun k D"
    then have r: "represents k mx (\<lambda>j. D (point (if j < n then src j else j))) (\<lambda>j. D (point (if j < n then j else src j)))"
      using h by (simp add: half_way_def)
    have e: "(\<lambda>j. D (point (if j < n then src j else j)))(n := D (point (src n))) = (\<lambda>j. D (point (if j < Suc n then src j else j)))"
      "(\<lambda>j. D (point (if j < n then j else src j)))(n := D (point n)) = (\<lambda>j. D (point (if j < Suc n then j else src j)))"
      by (auto simp: fun_eq_iff less_Suc_eq)
    show "represents k mx' (\<lambda>j. D (point (if j < Suc n then src j else j))) (\<lambda>j. D (point (if j < Suc n then j else src j)))"
      using turned_exchanges [OF mx'(2) n piv r] by (simp add: e)
  qed
  then show ?thesis using mx'(1) by blast
qed

lemma invert_sources:
  assumes s: "sources k src" and k: "0 < k" "k < 256" and len: "length mx = k * k"
    and mx: "\<And>D. poly_fun k D \<Longrightarrow> represents k mx (\<lambda>j. D (point j)) (\<lambda>j. D (point (src j)))"
  shows "\<exists>mx'. invert_matrix mx k = Done (Some mx') \<and> length mx' = k * k \<and>
    (\<forall>D. poly_fun k D \<longrightarrow> represents k mx' (\<lambda>j. D (point (src j))) (\<lambda>j. D (point j)))"
proof -
  define P where "P n st \<longleftrightarrow> (case st of (mx, unused, swaps) \<Rightarrow>
    half_way k src n mx \<and> length unused = k \<and> (\<forall>j<k. unused ! j = (n \<le> j)) \<and> swaps = ([] :: (nat \<times> nat) list))" for n st
  have "\<exists>st. run_for_opt (invert_turn k) [0..<k] (mx, replicate k True, []) = Done (Some st) \<and> P (length [0..<k]) st"
  proof (rule run_for_opt_inv)
    show "P 0 (mx, replicate k True, [])" using mx len by (simp add: P_def half_way_def)
    fix n st assume n: "n < length [0..<k]" and st: "P n st"
    obtain mx unused swaps where e: "st = (mx, unused, swaps)" by (metis prod_cases3)
    have "length unused = k" "unused ! n" "\<forall>j<n. \<not> unused ! j" "half_way k src n mx" using st n by (auto simp: P_def e)
    then obtain mx' where "invert_turn k n (mx, unused, swaps) = Done (Some (mx', unused[n := False], swaps))" "half_way k src (Suc n) mx'"
      using half_way_turn [OF s k, of n mx unused swaps] n by auto
    then show "\<exists>st'. invert_turn k ([0..<k] ! n) st = Done (Some st') \<and> P (Suc n) st'"
      using st n by (auto simp: P_def e nth_list_update)
  qed
  then obtain mx' unused where "run_for_opt (invert_turn k) [0..<k] (mx, replicate k True, []) = Done (Some (mx', unused, []))" "half_way k src k mx'"
    by (auto simp: P_def)
  moreover from this have "represents k mx' (\<lambda>j. D (point (src j))) (\<lambda>j. D (point j))" if "poly_fun k D" for D
    using that by (auto simp: half_way_def represents_def)
  ultimately show ?thesis using len by (auto simp: invert_matrix_def half_way_def)
qed

subsection \<open>Rebuilding\<close>

text \<open>The gaps in an ascending list of numbers.\<close>

lemma sorted_gaps:
  assumes "sorted_wrt (<) (ns :: nat list)" and "ns \<noteq> []"
  shows "distinct (concat (map2 (\<lambda>a b. [a + 1..<b]) ns (tl ns))) \<and>
    set (concat (map2 (\<lambda>a b. [a + 1..<b]) ns (tl ns))) = {hd ns..last ns} - set ns"
  using assms
proof (induction ns)
  case (Cons a ns)
  show ?case
  proof (cases ns)
    case (Cons b ms)
    then have IH: "distinct (concat (map2 (\<lambda>a b. [a + 1..<b]) ns (tl ns)))"
      "set (concat (map2 (\<lambda>a b. [a + 1..<b]) ns (tl ns))) = {b..last ns} - set ns" and ab: "a < b" "\<forall>x\<in>set ns. b \<le> x"
      using Cons.IH Cons.prems by auto
    have "b \<le> last ns" using ab(2) Cons by simp
    then have "{a..last ns} - set (a # ns) = {a + 1..<b} \<union> ({b..last ns} - set ns)" using ab by auto
    moreover have "concat (map2 (\<lambda>a b. [a + 1..<b]) (a # ns) (tl (a # ns))) = [a + 1..<b] @ concat (map2 (\<lambda>a b. [a + 1..<b]) ns (tl ns))"
      using Cons by simp
    moreover have "hd (a # ns) = a" "last (a # ns) = last ns" using Cons by simp_all
    ultimately show ?thesis using IH by (simp only: distinct_append set_append set_upt distinct_upt) auto
  qed simp
qed simp

lemma sorted_lt_bounds: "sorted_wrt (<) (ns :: nat list) \<Longrightarrow> x \<in> set ns \<Longrightarrow> hd ns \<le> x \<and> x \<le> last ns"
proof
  assume s: "sorted_wrt (<) ns" "x \<in> set ns"
  then show "hd ns \<le> x" by (cases ns) auto
  show "x \<le> last ns" using s by (cases ns rule: rev_cases) (auto simp: sorted_wrt_append)
qed

lemma missing_ids_ok:
  assumes "sorted_wrt (<) (map share_number shares)" and "\<forall>s\<in>set shares. share_number s < k"
  shows "distinct (missing_ids k shares) \<and> set (missing_ids k shares) = {..<k} - share_number ` set shares"
proof (cases "shares = []")
  case False
  let ?ns = "map share_number shares"
  have m: "map2 (\<lambda>a b. [share_number a + 1..<share_number b]) shares (tl shares) = map2 (\<lambda>a b. [a + 1..<b]) ?ns (tl ?ns)"
    by (simp add: map_tl [symmetric] zip_map_map split_beta)
  have hl: "hd ?ns = share_number (hd shares)" "last ?ns = share_number (last shares)" using False by (simp_all add: hd_map last_map)
  define G where "G = concat (map2 (\<lambda>a b. [a + 1..<b]) ?ns (tl ?ns))"
  define h l where "h = hd ?ns" and "l = last ?ns"
  have G: "distinct G" "set G = {h..l} - set ?ns" using sorted_gaps [OF assms(1)] False by (simp_all add: G_def h_def l_def)
  have b: "\<forall>x\<in>set ?ns. h \<le> x \<and> x \<le> l" unfolding h_def l_def using sorted_lt_bounds [OF assms(1)] by blast
  have "l \<in> set ?ns" using False by (simp add: l_def hl)
  then have hl': "h \<le> l" "l < k" using b assms(2) by auto
  have e: "missing_ids k shares = G @ [l + 1..<k] @ [0..<h]" using False unfolding missing_ids_def m G_def h_def l_def by (simp add: hl)
  have "{..<k} - set ?ns = ({h..l} - set ?ns) \<union> {l + 1..<k} \<union> {0..<h}" using b hl' by force
  then show ?thesis using G hl' unfolding e by auto
qed (simp add: missing_ids_def atLeast0LessThan)

lemma place_all:
  assumes f: "required f = k" "length (enc_matrix f) = t * k" and mx: "length mx = k * k"
    and ms: "distinct ms" "set ms \<subseteq> {..<k}" "length ms = length parity" and nt: "\<forall>s\<in>set parity. share_number s < t"
  shows "\<exists>mx' par. run_for (place_parity f) (zip ms [0..<length parity]) (mx, parity) = Done (mx', par) \<and>
    length mx' = k * k \<and> length par = length parity \<and>
    (\<forall>q<length parity. par ! q = (parity ! q)\<lparr>share_number := USIZE_MAX - ms ! q\<rparr> \<and>
       (\<forall>j<k. ent k mx' (ms ! q) j = ent k (enc_matrix f) (share_number (parity ! q)) j)) \<and>
    (\<forall>i<k. i \<notin> set ms \<longrightarrow> (\<forall>j<k. ent k mx' i j = ent k mx i j))"
proof -
  let ?m = "length parity" and ?u = "\<lambda>q. (parity ! q)\<lparr>share_number := USIZE_MAX - ms ! q\<rparr>"
  let ?is = "zip ms [0..<?m]"
  define P where "P n st \<longleftrightarrow> (case st of (mx', par) \<Rightarrow> length mx' = k * k \<and> length par = ?m \<and>
    (\<forall>q<?m. par ! q = (if q < n then ?u q else parity ! q)) \<and>
    (\<forall>q<n. \<forall>j<k. ent k mx' (ms ! q) j = ent k (enc_matrix f) (share_number (parity ! q)) j) \<and>
    (\<forall>i<k. i \<notin> set (take n ms) \<longrightarrow> (\<forall>j<k. ent k mx' i j = ent k mx i j)))" for n st
  have "\<exists>st. run_for (place_parity f) ?is (mx, parity) = Done st \<and> P (length ?is) st"
  proof (rule run_for_inv)
    show "P 0 (mx, parity)" using mx by (simp add: P_def)
    fix n st assume "n < length ?is" and st: "P n st"
    then have n: "n < ?m" using ms(3) by simp
    obtain mx' par where e: "st = (mx', par)" by force
    have lm: "length mx' = k * k" and pn: "par ! n = parity ! n" and lp: "length par = ?m" using st n by (simp_all add: P_def e)
    have i: "ms ! n < k" using ms(2,3) n by (metis lessThan_iff nth_mem subsetD)
    have nn: "share_number (parity ! n) < t" using nt n by simp
    let ?r = "row (enc_matrix f) k (share_number (parity ! n))"
    have lr: "length ?r = k" using f(2) nn by (rule length_row)
    have fits: "\<not> length (enc_matrix f) < share_number (parity ! n) * k + k" using row_fits [OF nn, of k] f(2) by simp
    have step: "place_parity f (?is ! n) st = Done (put_row mx' k (ms ! n) ?r, par[n := ?u n])"
      using n ms(3) fits f(1) pn by (simp add: place_parity_def e Let_def)
    have tk: "set (take (Suc n) ms) = insert (ms ! n) (set (take n ms))" using n ms(3) by (simp add: take_Suc_conv_app_nth)
    have ne: "ms ! q \<noteq> ms ! n" if "q < n" for q using that n ms(1,3) by (simp add: nth_eq_iff_index_eq)
    have qk: "ms ! q < k" if "q \<le> n" for q using that n ms(2,3) by (metis le_less_trans lessThan_iff nth_mem subsetD)
    have "P (Suc n) (put_row mx' k (ms ! n) ?r, par[n := ?u n])"
      unfolding P_def prod.case tk
    proof (intro conjI allI impI)
      show "length (put_row mx' k (ms ! n) ?r) = k * k" using lm i lr by simp
      show "length (par[n := ?u n]) = ?m" using lp by simp
      show "par[n := ?u n] ! q = (if q < Suc n then ?u q else parity ! q)" if "q < ?m" for q
        using st that n lp by (auto simp: P_def e nth_list_update less_Suc_eq)
      show "ent k (put_row mx' k (ms ! n) ?r) (ms ! q) j = ent k (enc_matrix f) (share_number (parity ! q)) j" if q: "q < Suc n" "j < k" for q j
      proof (cases "q = n")
        case True
        then show ?thesis using q(2) i by (simp add: ent_put_row [OF lm i lr] gf_row [OF f(2) nn])
      next
        case False
        then show ?thesis using q st ne [of q] qk [of q] by (simp add: ent_put_row [OF lm i lr] P_def e)
      qed
      show "ent k (put_row mx' k (ms ! n) ?r) a j = ent k mx a j" if "a < k" "a \<notin> insert (ms ! n) (set (take n ms))" "j < k" for a j
        using that st by (simp add: ent_put_row [OF lm i lr] P_def e)
    qed
    then show "\<exists>s'. place_parity f (?is ! n) st = Done s' \<and> P (Suc n) s'" using step by blast
  qed
  then show ?thesis using ms(3) by (auto simp: P_def)
qed

text \<open>The shares after the second sorting: each in the row it stands for.\<close>

definition placed :: "nat \<Rightarrow> (nat \<Rightarrow> nat) \<Rightarrow> (nat \<Rightarrow> bytes) \<Rightarrow> share list \<Rightarrow> bool" where
  "placed k src sh shares \<longleftrightarrow> length shares = k \<and>
     (\<forall>i<k. share_data (shares ! i) = sh (src i) \<and> (share_number (shares ! i) < k \<longleftrightarrow> src i = i))"

lemma sorted_placed:
  assumes d: "distinct (map key xs)" "key ` set xs = {..<k}" and i: "i < k"
  shows "length (sort_key key xs) = k \<and> sort_key key xs ! i \<in> set xs \<and> key (sort_key key xs ! i) = (i :: nat)"
proof -
  have l: "length xs = k" using distinct_card [OF d(1)] d(2) by simp
  have "map key (sort_key key xs) = [0..<k]"
  proof (rule sorted_distinct_set_unique)
    show "distinct (map key (sort_key key xs))" using d(1) by (simp add: distinct_map)
  qed (use d(2) in auto)
  then have "key (sort_key key xs ! i) = i" using i l by (metis add_0 diff_zero length_map length_sort length_upt nth_map nth_upt)
  moreover have "sort_key key xs ! i \<in> set xs" using i l by (metis length_sort nth_mem set_sort)
  ultimately show ?thesis using l by simp
qed

text \<open>The shares a rebuild starts from: distinct, of the right numbers, with the bytes the code gives them.\<close>

definition shares_ok :: "nat \<Rightarrow> nat \<Rightarrow> (nat \<Rightarrow> bytes) \<Rightarrow> share list \<Rightarrow> bool" where
  "shares_ok k t sh shares \<longleftrightarrow> k \<le> length shares \<and> distinct (map share_number shares) \<and>
     list_all (\<lambda>s. share_number s < t \<and> share_data s = sh (share_number s)) shares"

lemma rebuild_prepares:
  assumes f: "required f = k" "evaluates k t (enc_matrix f)" and k: "0 < k" "k < t" "t \<le> 256"
    and ss: "length ss = k" "sorted_wrt (<) (map share_number ss)" "\<forall>s\<in>set ss. share_number s < t \<and> share_data s = sh (share_number s)"
  defines "present \<equiv> takeWhile (\<lambda>s. share_number s < k) ss"
  defines "parity \<equiv> drop (length present) ss"
  shows "\<exists>mx par src. run_for (place_parity f) (zip (missing_ids k present) [0..<length parity])
      (identity_rows k (replicate (k * k) 0), parity) = Done (mx, par) \<and>
    length mx = k * k \<and> sources k src \<and> placed k src sh (sort_key (share_key k) (present @ par)) \<and>
    (\<forall>i<k. src i = i \<longleftrightarrow> i \<in> share_number ` set ss) \<and> (\<forall>i<k. src i \<in> share_number ` set ss) \<and>
    (\<forall>D. poly_fun k D \<longrightarrow> represents k mx (\<lambda>j. D (point j)) (\<lambda>j. D (point (src j))))"
proof -
  let ?ms = "missing_ids k present" and ?I = "identity_rows k (replicate (k * k) 0)"
  have dw: "parity = dropWhile (\<lambda>s. share_number s < k) ss" unfolding parity_def present_def by (rule dropWhile_eq_drop [symmetric])
  have sp: "ss = present @ parity" unfolding dw present_def by simp
  have pre: "\<forall>s\<in>set present. share_number s < k" by (auto simp: present_def dest: set_takeWhileD)
  have par_ge: "\<forall>s\<in>set parity. k \<le> share_number s"
  proof (cases parity)
    case (Cons p ps)
    then have "k \<le> share_number p" using hd_dropWhile [of "\<lambda>s. share_number s < k" ss] by (simp flip: dw)
    then show ?thesis using ss(2) unfolding sp Cons by (auto simp: sorted_wrt_append)
  qed simp
  have srt: "sorted_wrt (<) (map share_number present)" using ss(2) unfolding sp by (simp add: sorted_wrt_append)
  have dist: "distinct (map share_number ss)" using ss(2) by (simp add: strict_sorted_iff)
  have ms: "distinct ?ms" "set ?ms = {..<k} - share_number ` set present" using missing_ids_ok [OF srt pre] by auto
  have "length present + length parity = k" using ss(1) sp by (metis length_append)
  moreover have "card (share_number ` set present) = length present" using dist unfolding sp by (simp add: distinct_map card_image distinct_card)
  moreover have "length ?ms = k - card (share_number ` set present)"
    using ms pre by (simp add: distinct_card [symmetric] card_Diff_subset subset_eq image_subset_iff)
  ultimately have lms: "length ?ms = length parity" by linarith
  have I: "length ?I = k * k" "\<forall>i<k. \<forall>j<k. ?I ! (i * k + j) = (if i = j then 1 else 0)"
    using identity_rows_ok [of k k "replicate (k * k) 0"] by auto
  have ptt: "\<forall>s\<in>set parity. share_number s < t" using ss(3) sp by auto
  have el: "length (enc_matrix f) = t * k" using f(2) by (simp add: evaluates_def)
  obtain mx par where pl: "run_for (place_parity f) (zip ?ms [0..<length parity]) (?I, parity) = Done (mx, par)" "length mx = k * k" "length par = length parity"
    "\<And>q. q < length parity \<Longrightarrow> par ! q = (parity ! q)\<lparr>share_number := USIZE_MAX - ?ms ! q\<rparr>"
    "\<And>q j. q < length parity \<Longrightarrow> j < k \<Longrightarrow> ent k mx (?ms ! q) j = ent k (enc_matrix f) (share_number (parity ! q)) j"
    "\<And>i j. i < k \<Longrightarrow> i \<notin> set ?ms \<Longrightarrow> j < k \<Longrightarrow> ent k mx i j = ent k ?I i j"
    using place_all [OF f(1) el I(1) ms(1) _ lms ptt] ms(2) by blast
  define idx where "idx i = (SOME q. q < length parity \<and> ?ms ! q = i)" for i
  have idx: "idx i < length parity" "?ms ! idx i = i" if "i \<in> set ?ms" for i
    using someI_ex [of "\<lambda>q. q < length parity \<and> ?ms ! q = i"] that lms unfolding idx_def by (auto simp: in_set_conv_nth)
  have idx_nth: "idx (?ms ! q) = q" if "q < length parity" for q
    using idx [of "?ms ! q"] that lms ms(1) by (simp add: nth_eq_iff_index_eq)
  define src where "src i = (if i \<in> set ?ms then share_number (parity ! idx i) else i)" for i
  have src_ms: "k \<le> src i" "src i < t" "src i \<in> share_number ` set parity" if "i \<in> set ?ms" for i
    using that idx [OF that] par_ge ptt by (auto simp: src_def)
  have pd: "distinct (map share_number parity)" using dist unfolding sp by simp
  have "sources k src"
    unfolding sources_def
  proof (intro conjI allI impI)
    show "inj_on src {..<k}"
    proof (rule inj_onI)
      fix x y assume x: "x \<in> {..<k}" and y: "y \<in> {..<k}" and e: "src x = src y"
      consider "x \<in> set ?ms" "y \<in> set ?ms" | "x \<notin> set ?ms" "y \<notin> set ?ms" | "x \<in> set ?ms" "y \<notin> set ?ms" | "x \<notin> set ?ms" "y \<in> set ?ms" by blast
      then show "x = y"
      proof cases
        case 1
        then have "map share_number parity ! idx x = map share_number parity ! idx y" using e idx by (simp add: src_def)
        then have "idx x = idx y" using pd idx 1 by (simp add: nth_eq_iff_index_eq del: nth_map)
        then have "?ms ! idx x = ?ms ! idx y" by (rule arg_cong)
        then show ?thesis unfolding idx(2) [OF 1(1)] idx(2) [OF 1(2)] .
      next
        case 2
        then show ?thesis using e by (simp add: src_def)
      next
        case 3
        then have "src y = y" by (simp add: src_def)
        then show ?thesis using src_ms(1) [OF 3(1)] e y by simp
      next
        case 4
        then have "src x = x" by (simp add: src_def)
        then show ?thesis using src_ms(1) [OF 4(2)] e x by simp
      qed
    qed
    show "src i = i \<or> k \<le> src i" "src i < 256" if "i < k" for i
    proof -
      have "src i = i \<and> i < 256 \<or> k \<le> src i \<and> src i < 256"
      proof (cases "i \<in> set ?ms")
        case True
        then show ?thesis using src_ms(1,2) [OF True] k(3) by linarith
      next
        case False
        then have "src i = i" by (simp add: src_def)
        then show ?thesis using that k by linarith
      qed
      then show "src i = i \<or> k \<le> src i" "src i < 256" by auto
    qed
  qed
  moreover have "placed k src sh (sort_key (share_key k) (present @ par))"
  proof -
    let ?fin = "sort_key (share_key k) (present @ par)"
    have big: "k < USIZE_MAX - i" "USIZE_MAX - (USIZE_MAX - i) = i" if "i < k" for i using that k by (simp_all add: USIZE_MAX_def)
    have kp: "share_key k (par ! q) = ?ms ! q" if "q < length parity" for q
    proof -
      have "?ms ! q < k" using that lms ms(2) by (metis DiffE lessThan_iff nth_mem)
      then show ?thesis using pl(4) [OF that] big by (simp add: share_key_def)
    qed
    have "map (share_key k) par = ?ms" using pl(3) lms kp by (auto intro: nth_equalityI)
    moreover have "map (share_key k) present = map share_number present" using pre by (auto simp: share_key_def)
    ultimately have keys: "map (share_key k) (present @ par) = map share_number present @ ?ms" by simp
    have kd: "distinct (map (share_key k) (present @ par))" unfolding keys using ms dist sp by auto
    have "share_key k ` set (present @ par) = share_number ` set present \<union> set ?ms"
      using arg_cong [OF keys, of set] by (simp only: set_map set_append)
    also have "\<dots> = {..<k}" using ms(2) pre by auto
    finally have ks: "share_key k ` set (present @ par) = {..<k}" .
    have "share_data (?fin ! i) = sh (src i) \<and> (share_number (?fin ! i) < k \<longleftrightarrow> src i = i)" if i: "i < k" for i
    proof -
      have x: "?fin ! i \<in> set (present @ par)" "share_key k (?fin ! i) = i" using sorted_placed [OF kd ks i] by auto
      then consider (data) "?fin ! i \<in> set present" | (par) q where "q < length parity" "?fin ! i = par ! q"
        using pl(3) by (auto simp: in_set_conv_nth)
      then show ?thesis
      proof cases
        case data
        then have n: "share_number (?fin ! i) = i" using x(2) pre by (auto simp: share_key_def)
        then have "i \<notin> set ?ms" using data ms(2) by force
        then show ?thesis using n data i ss(3) sp by (auto simp: src_def)
      next
        case par
        then have q: "?ms ! q = i" using x(2) kp by simp
        then have im: "i \<in> set ?ms" using par(1) lms by auto
        have "src i = share_number (parity ! q)" using idx_nth [OF par(1)] im q by (simp add: src_def)
        moreover have "parity ! q \<in> set ss" using par(1) sp by simp
        ultimately show ?thesis using pl(4) [OF par(1)] par(2) ss(3) q big [OF i] src_ms(1) [OF im] i by auto
      qed
    qed
    then show ?thesis using sorted_placed [OF kd ks k(1)] by (simp add: placed_def)
  qed
  moreover have "src i = i \<longleftrightarrow> i \<in> share_number ` set ss" "src i \<in> share_number ` set ss" if "i < k" for i
  proof -
    show "src i = i \<longleftrightarrow> i \<in> share_number ` set ss"
    proof (cases "i \<in> set ?ms")
      case True
      then show ?thesis using src_ms(1) [OF True] that ms(2) par_ge sp by (force simp: image_iff)
    next
      case False
      then show ?thesis using that ms(2) sp by (auto simp: src_def)
    qed
    show "src i \<in> share_number ` set ss" using src_ms(3) [of i] that ms(2) sp by (cases "i \<in> set ?ms") (auto simp: src_def)
  qed
  moreover have "represents k mx (\<lambda>j. D (point j)) (\<lambda>j. D (point (src j)))" if D: "poly_fun k D" for D
    unfolding represents_def
  proof (intro allI impI)
    fix i assume i: "i < k"
    show "(\<Sum>j<k. ent k mx i j * D (point j)) = D (point (src i))"
    proof (cases "i \<in> set ?ms")
      case True
      then have "(\<Sum>j<k. ent k mx i j * D (point j)) = (\<Sum>j<k. ent k (enc_matrix f) (src i) j * D (point j))"
        using pl(5) [OF idx(1) [OF True]] idx(2) [OF True] by (intro sum.cong) (simp_all add: src_def)
      then show ?thesis using f(2) D src_ms(2) [OF True] by (simp add: evaluates_def)
    next
      case False
      then have "(\<Sum>j<k. ent k mx i j * D (point j)) = (\<Sum>j<k. if i = j then D (point j) else 0)"
        using pl(6) [OF i] I(2) i by (intro sum.cong) (simp_all add: ent_def gf_simps)
      then show ?thesis using i False by (simp add: src_def)
    qed
  qed
  ultimately show ?thesis using pl(1,2) by blast
qed

text \<open>The rows are rebuilt in place: a row reads the rebuilt data of the rows before it.\<close>

lemma rebuild_rows_ok:
  assumes p: "placed k src sh fin" and T: "length T = k * k" and sh: "\<And>i. i < k \<Longrightarrow> length (sh (src i)) = block"
  shows "\<exists>out. run_for (rebuild_row k block T) [0..<k] fin = Done out \<and> length out = k \<and>
    (\<forall>i<k. length (share_data (out ! i)) = block \<and> (src i = i \<longrightarrow> share_data (out ! i) = sh i) \<and>
      (src i \<noteq> i \<longrightarrow> (\<forall>b<block. gf (share_data (out ! i) ! b) =
        (\<Sum>j<k. ent k T i j * (if j < i then gf (share_data (out ! j) ! b) else gf (sh (src j) ! b))))))"
proof -
  define P where "P n out \<longleftrightarrow> length out = k \<and> (\<forall>i<k. share_number (out ! i) = share_number (fin ! i) \<and> length (share_data (out ! i)) = block \<and>
    (n \<le> i \<or> src i = i \<longrightarrow> share_data (out ! i) = sh (src i)) \<and>
    (i < n \<and> src i \<noteq> i \<longrightarrow> (\<forall>b<block. gf (share_data (out ! i) ! b) =
      (\<Sum>j<k. ent k T i j * (if j < i then gf (share_data (out ! j) ! b) else gf (sh (src j) ! b))))))" for n and out :: "share list"
  have fin: "length fin = k" "\<And>i. i < k \<Longrightarrow> share_data (fin ! i) = sh (src i)" "\<And>i. i < k \<Longrightarrow> share_number (fin ! i) < k \<longleftrightarrow> src i = i"
    using p by (auto simp: placed_def)
  have "\<exists>out. run_for (rebuild_row k block T) [0..<k] fin = Done out \<and> P (length [0..<k]) out"
  proof (rule run_for_inv)
    show "P 0 fin" using fin sh by (simp add: P_def)
    fix n out assume "n < length [0..<k]" and o: "P n out"
    then have n: "n < k" by simp
    have lo: "length out = k" "share_number (out ! n) = share_number (fin ! n)" using o n by (auto simp: P_def)
    show "\<exists>s'. rebuild_row k block T ([0..<k] ! n) out = Done s' \<and> P (Suc n) s'"
    proof (cases "src n = n")
      case True
      have "P (Suc n) out"
        unfolding P_def
      proof (intro conjI allI impI)
        fix i b assume "i < k" "i < Suc n \<and> src i \<noteq> i" "b < block"
        then show "gf (share_data (out ! i) ! b) = (\<Sum>j<k. ent k T i j * (if j < i then gf (share_data (out ! j) ! b) else gf (sh (src j) ! b)))"
          using o True by (auto simp: P_def less_Suc_eq)
      qed (use o True in \<open>auto simp: P_def\<close>)
      then show ?thesis using True fin(3) [OF n] lo n by (simp add: rebuild_row_def)
    next
      case False
      obtain buf where buf: "run_for (\<lambda>j buf. mul_slice_xor (T ! (n * k + j)) (share_data (out ! j)) buf) [0..<k] (replicate block 0) = Done buf" "length buf = block"
        "\<And>b. b < block \<Longrightarrow> gf (buf ! b) = (\<Sum>j<k. gf (T ! (n * k + j)) * gf (share_data (out ! j) ! b))"
        using xor_products_loop [of k "\<lambda>j. share_data (out ! j)" "replicate block 0" "\<lambda>j. T ! (n * k + j)"] o by (auto simp: P_def gf_simps)
      let ?out = "out[n := (out ! n)\<lparr>share_data := buf\<rparr>]"
      have keep: "?out ! j = out ! j" if "j \<noteq> n" for j using that by simp
      have new: "share_data (?out ! n) = buf" using n lo by simp
      have "P (Suc n) ?out"
        unfolding P_def
      proof (intro conjI allI impI)
        fix i b assume i: "i < k" "i < Suc n \<and> src i \<noteq> i" and b: "b < block"
        have "gf (share_data (?out ! i) ! b) = (\<Sum>j<k. ent k T i j * (if j < i then gf (share_data (out ! j) ! b) else gf (sh (src j) ! b)))"
        proof (cases "i = n")
          case True
          have "gf (buf ! b) = (\<Sum>j<k. ent k T n j * (if j < n then gf (share_data (out ! j) ! b) else gf (sh (src j) ! b)))"
            unfolding buf(3) [OF b] using o by (intro sum.cong) (auto simp: P_def ent_def)
          then show ?thesis using True new by simp
        next
          case False
          then show ?thesis using o i b by (simp add: P_def)
        qed
        also have "\<dots> = (\<Sum>j<k. ent k T i j * (if j < i then gf (share_data (?out ! j) ! b) else gf (sh (src j) ! b)))"
          using i by (intro sum.cong) auto
        finally show "gf (share_data (?out ! i) ! b) = \<dots>" .
      next
        fix i assume i: "i < k"
        show "share_number (?out ! i) = share_number (fin ! i)" using o i n lo by (cases "i = n") (simp_all add: P_def)
        show "length (share_data (?out ! i)) = block" using o i n lo buf(2) by (cases "i = n") (simp_all add: P_def)
        show "share_data (?out ! i) = sh (src i)" if "Suc n \<le> i \<or> src i = i" using o i that False by (cases "i = n") (auto simp: P_def)
      qed (simp add: lo)
      then show ?thesis using False fin(3) [OF n] lo n buf(1) by (simp add: rebuild_row_def)
    qed
  qed
  then obtain out where "run_for (rebuild_row k block T) [0..<k] fin = Done out" "P k out" by auto
  then show ?thesis by (intro exI [of _ out]) (auto simp: P_def)
qed

lemma strict_sorted_ge: "sorted_wrt (<) (ns :: nat list) \<Longrightarrow> i < length ns \<Longrightarrow> i \<le> ns ! i"
proof (induction i)
  case (Suc i)
  then have "ns ! i < ns ! Suc i" by (simp add: sorted_wrt_iff_nth_less)
  then show ?case using Suc by simp
qed simp

lemma first_shares:
  assumes ok: "shares_ok k t sh shares"
  defines "ss \<equiv> take k (sort_key share_number shares)"
  shows "length ss = k" and "sorted_wrt (<) (map share_number ss)"
    and "\<forall>s\<in>set ss. share_number s < t \<and> share_data s = sh (share_number s)" and "set ss \<subseteq> set shares"
    and "i < k \<Longrightarrow> i \<in> share_number ` set ss \<longleftrightarrow> i \<in> share_number ` set shares"
proof -
  let ?all = "sort_key share_number shares"
  have srt: "sorted_wrt (<) (map share_number ?all)"
    using ok by (simp add: shares_ok_def strict_sorted_iff distinct_map)
  show "length ss = k" using ok by (simp add: ss_def shares_ok_def)
  show "sorted_wrt (<) (map share_number ss)" using srt unfolding ss_def take_map [symmetric] by (rule sorted_wrt_take)
  show sub: "set ss \<subseteq> set shares" unfolding ss_def using set_take_subset [of k ?all] by simp
  then show "\<forall>s\<in>set ss. share_number s < t \<and> share_data s = sh (share_number s)" using ok by (auto simp: shares_ok_def list_all_iff)
  show "i \<in> share_number ` set ss \<longleftrightarrow> i \<in> share_number ` set shares" if "i < k"
  proof
    assume "i \<in> share_number ` set shares"
    then obtain s where "s \<in> set ?all" and i: "share_number s = i" by auto
    then obtain q where "q < length ?all" "?all ! q = s" unfolding in_set_conv_nth by blast
    then have q: "q < length ?all" "share_number (?all ! q) = i" using i by simp_all
    then have "q < k" using strict_sorted_ge [OF srt, of q] that by simp
    then have "?all ! q \<in> set ss" using q(1) nth_mem [of q ss] by (simp add: ss_def)
    then show "i \<in> share_number ` set ss" using q(2) by blast
  qed (use sub in auto)
qed

text \<open>What a rebuild returns, with the assignment of shares to rows and the inverse matrix that explain it.\<close>

definition rebuilt :: "nat \<Rightarrow> nat \<Rightarrow> nat \<Rightarrow> (nat \<Rightarrow> bytes) \<Rightarrow> (nat \<Rightarrow> gf \<Rightarrow> gf) \<Rightarrow> nat set \<Rightarrow> (nat \<Rightarrow> nat) \<Rightarrow> bytes \<Rightarrow> share list \<Rightarrow> bool" where
  "rebuilt k t block sh D ids src T out \<longleftrightarrow> length out = k \<and> sources k src \<and>
     (\<forall>i<k. src i < t \<and> (src i = i \<longleftrightarrow> i \<in> ids) \<and> src i \<in> ids) \<and>
     (\<forall>E. poly_fun k E \<longrightarrow> represents k T (\<lambda>j. E (point (src j))) (\<lambda>j. E (point j))) \<and>
     (\<forall>i<k. length (share_data (out ! i)) = block \<and> (src i = i \<longrightarrow> share_data (out ! i) = sh i)) \<and>
     (\<forall>i<k. src i \<noteq> i \<longrightarrow> (\<forall>b<block. gf (share_data (out ! i) ! b) =
        (\<Sum>j<k. ent k T i j * (if j < i then gf (share_data (out ! j) ! b) else D b (point (src j))))))"

lemma fec_rebuild_runs:
  assumes f: "required f = k" "evaluates k t (enc_matrix f)" and k: "0 < k" "k < t" "t \<le> 256"
    and c: "codewords k t block sh D" and ok: "shares_ok k t sh shares"
  shows "\<exists>src T out. fec_rebuild f shares = Done (Inr out) \<and> rebuilt k t block sh D (share_number ` set shares) src T out"
proof -
  define ss where "ss = take k (sort_key share_number shares)"
  note fs = first_shares [OF ok, folded ss_def]
  obtain mx par src where pr: "run_for (place_parity f) (zip (missing_ids k (takeWhile (\<lambda>s. share_number s < k) ss))
        [0..<length (drop (length (takeWhile (\<lambda>s. share_number s < k) ss)) ss)])
      (identity_rows k (replicate (k * k) 0), drop (length (takeWhile (\<lambda>s. share_number s < k) ss)) ss) = Done (mx, par)"
    "length mx = k * k" "sources k src" "placed k src sh (sort_key (share_key k) (takeWhile (\<lambda>s. share_number s < k) ss @ par))"
    "\<And>i. i < k \<Longrightarrow> src i = i \<longleftrightarrow> i \<in> share_number ` set ss" "\<And>i. i < k \<Longrightarrow> src i \<in> share_number ` set ss"
    "\<And>E. poly_fun k E \<Longrightarrow> represents k mx (\<lambda>j. E (point j)) (\<lambda>j. E (point (src j)))"
    using rebuild_prepares [OF f k fs(1,2,3)] by blast
  have st: "src i < t" if "i < k" for i using pr(6) [OF that] fs(3) by auto
  obtain T where T: "invert_matrix mx k = Done (Some T)" "length T = k * k"
    "\<And>E. poly_fun k E \<Longrightarrow> represents k T (\<lambda>j. E (point (src j))) (\<lambda>j. E (point j))"
    using invert_sources [OF pr(3) k(1) _ pr(2,7)] k by auto
  have len: "length (sh (src i)) = block" if "i < k" for i using c st [OF that] by (simp add: codewords_def)
  obtain out where out: "run_for (rebuild_row k block T) [0..<k] (sort_key (share_key k) (takeWhile (\<lambda>s. share_number s < k) ss @ par)) = Done out"
    "length out = k" "\<And>i. i < k \<Longrightarrow> length (share_data (out ! i)) = block" "\<And>i. i < k \<Longrightarrow> src i = i \<Longrightarrow> share_data (out ! i) = sh i"
    "\<And>i b. i < k \<Longrightarrow> src i \<noteq> i \<Longrightarrow> b < block \<Longrightarrow> gf (share_data (out ! i) ! b) =
      (\<Sum>j<k. ent k T i j * (if j < i then gf (share_data (out ! j) ! b) else gf (sh (src j) ! b)))"
    using rebuild_rows_ok [OF pr(4) T(2) len] by blast
  have blen: "length (share_data s) = block" if "s \<in> set ss" for s using c fs(3) that by (auto simp: codewords_def)
  have "fec_rebuild f shares = Done (Inr out)"
  proof -
    have b0: "length (share_data (ss ! 0)) = block" using blen fs(1) k(1) by simp
    have "\<not> list_ex (\<lambda>s. length (share_data s) \<noteq> block) ss" using blen by (auto simp: list_ex_iff)
    moreover have "\<not> length (sort_key share_number shares) < k" using ok by (simp add: shares_ok_def)
    ultimately show ?thesis using pr(1) T(1) out(1)
      unfolding fec_rebuild_def f(1) Let_def ss_def [symmetric] b0 by simp
  qed
  moreover have "gf (share_data (out ! i) ! b) = (\<Sum>j<k. ent k T i j * (if j < i then gf (share_data (out ! j) ! b) else D b (point (src j))))"
    if "i < k" "src i \<noteq> i" "b < block" for i b
    unfolding out(5) [OF that] using c st that(3) by (intro sum.cong) (auto simp: codewords_def)
  moreover have "src i = i \<longleftrightarrow> i \<in> share_number ` set shares" "src i \<in> share_number ` set shares" if "i < k" for i
    using pr(5,6) [OF that] fs(4) fs(5) [OF that] by auto
  ultimately show ?thesis using out(2-4) pr(3) T(3) st unfolding rebuilt_def by blast
qed

lemma fec_new_Done: "fec_new k t = Done f \<Longrightarrow> 0 < k \<and> k < t \<and> t \<le> 256 \<and> required f = k \<and> total_shares f = t \<and> evaluates k t (enc_matrix f)"
proof -
  assume f: "fec_new k t = Done f"
  then have "0 < k \<and> k < t \<and> t \<le> 256" by (auto simp: fec_new_def split: if_splits)
  then show ?thesis using fec_new_ok [of k t] f by auto
qed

lemma encoded_codewords:
  assumes "fec_new k t = Done f" and "length content = k * block" and "0 < block" and "length buf = (t - k) * block"
    and "fec_encode f content buf = Done (Inr parity)"
  obtains D where "codewords k t block (share_bytes k block content parity) D"
  using fec_encode_ok [of f k t content block buf] fec_new_Done [OF assms(1)] assms by auto

text \<open>The first row rebuilt is right.\<close>

lemma first_rebuilt:
  assumes T: "represents k T (\<lambda>j. E (point (src j))) (\<lambda>j. E (point j))" and i: "i < k"
    and e: "v = (\<Sum>j<k. ent k T i j * (if j < i then w j else E (point (src j))))" and w: "\<And>j. j < i \<Longrightarrow> w j = E (point (src j))"
  shows "v = E (point i)"
proof -
  have "v = (\<Sum>j<k. ent k T i j * E (point (src j)))" unfolding e using w by (intro sum.cong) auto
  then show ?thesis using T i by (simp add: represents_def)
qed

text \<open>An entry of the inverse that connects two lost shares is not zero.\<close>

lemma inverse_entry_nonzero:
  assumes s: "sources k src" and T: "\<And>E. poly_fun k E \<Longrightarrow> represents k T (\<lambda>j. E (point (src j))) (\<lambda>j. E (point j))"
    and i: "i < k" "src i \<noteq> i" and j: "j < k" and k: "k < 256"
  shows "ent k T i j \<noteq> 0"
proof -
  have src: "inj_on src {..<k}" "\<And>l. l < k \<Longrightarrow> src l < 256" "\<And>l. l < k \<Longrightarrow> src l = l \<or> k \<le> src l" using s by (auto simp: sources_def)
  have "i \<notin> src ` ({..<k} - {j})"
  proof
    assume "i \<in> src ` ({..<k} - {j})"
    then obtain l where "l < k" "src l = i" by auto
    then show False using src(3) [of l] i by auto
  qed
  then obtain E where E: "poly_fun k E" "\<And>l. l < k \<Longrightarrow> E (point (src l)) = (if l = j then 1 else 0)" "E (point i) \<noteq> 0"
    using unit_poly [OF src(1,2) j] i(1) k by (metis less_trans)
  have "(\<Sum>l<k. ent k T i l * E (point (src l))) = (\<Sum>l<k. if l = j then ent k T i l else 0)" using E(2) by (intro sum.cong) simp_all
  then have "E (point i) = ent k T i j" using T [OF E(1)] i(1) j by (simp add: represents_def)
  then show ?thesis using E(3) by simp
qed

subsection \<open>Properties\<close>



text \<open>C40: Losing two shares loses data: rebuilding overwrites the first lost share before the second one is computed from it, so unless
  the parity that replaced the first equals the lost data, the second share returned is wrong although it could be rebuilt.\<close>
theorem rebuild_two_lost_wrong:
  assumes "fec_new k t = Done f" and "length content = k * block" and "0 < block" and "length buf = (t - k) * block"
    and "fec_encode f content buf = Done (Inr parity)"
    and "shares_ok k t (share_bytes k block content parity) shares"
    and "i < j" and "j < k" and "{..j} - share_number ` set shares = {i, j}"
    and "\<forall>s\<in>set shares. k \<le> share_number s \<longrightarrow> share_data s \<noteq> row content block i"
  shows "\<exists>out. fec_rebuild f shares = Done (Inr out) \<and> share_data (out ! i) = row content block i \<and>
    share_data (out ! j) \<noteq> row content block j"
proof -
  have f: "0 < k" "k < t" "t \<le> 256" "required f = k" "evaluates k t (enc_matrix f)" using fec_new_Done [OF assms(1)] by auto
  let ?sh = "share_bytes k block content parity"
  obtain D where D: "codewords k t block ?sh D" using encoded_codewords [OF assms(1-5)] by blast
  obtain src T out where R: "fec_rebuild f shares = Done (Inr out)" "rebuilt k t block ?sh D (share_number ` set shares) src T out"
    using fec_rebuild_runs [OF f(4,5,1-3) D assms(6)] by blast
  have r: "fec_rebuild f shares = Done (Inr out)" "sources k src" "\<And>i. i < k \<Longrightarrow> src i < t"
    "\<And>i. i < k \<Longrightarrow> src i = i \<longleftrightarrow> i \<in> share_number ` set shares" "\<And>i. i < k \<Longrightarrow> src i \<in> share_number ` set shares"
    "\<And>E. poly_fun k E \<Longrightarrow> represents k T (\<lambda>j. E (point (src j))) (\<lambda>j. E (point j))"
    "\<And>i. i < k \<Longrightarrow> length (share_data (out ! i)) = block" "\<And>i. i < k \<Longrightarrow> src i = i \<Longrightarrow> share_data (out ! i) = ?sh i"
    "\<And>i b. i < k \<Longrightarrow> src i \<noteq> i \<Longrightarrow> b < block \<Longrightarrow> gf (share_data (out ! i) ! b) =
      (\<Sum>j<k. ent k T i j * (if j < i then gf (share_data (out ! j) ! b) else D b (point (src j))))"
    using R unfolding rebuilt_def by blast+
  have ik: "i < k" using assms(7,8) by simp
  have lost: "src i \<noteq> i" "src j \<noteq> j" and kept: "\<And>l. l < j \<Longrightarrow> l \<noteq> i \<Longrightarrow> src l = l" using r(4) assms(7-9) by (auto simp: set_eq_iff)
  have val: "gf (?sh n ! b) = D b (point n)" "length (?sh n) = block" if "n < t" "b < block" for n b using D that by (auto simp: codewords_def)
  have known: "gf (share_data (out ! l) ! b) = D b (point (src l))" if "l < j" "l \<noteq> i" "b < block" for l b
    using r(8) [of l] kept [OF that(1,2)] val [of l b] that assms(8) f(2) by simp
  have at_i: "gf (share_data (out ! i) ! b) = D b (point i)" if b: "b < block" for b
    by (rule first_rebuilt [OF r(6) ik r(9) [OF ik lost(1) b]]) (use D b known assms(7) in \<open>auto simp: codewords_def\<close>)
  have at_j: "gf (share_data (out ! j) ! b) = D b (point j) + ent k T j i * (D b (point i) + D b (point (src i)))" if b: "b < block" for b
  proof -
    have "gf (share_data (out ! j) ! b) = (\<Sum>l<k. ent k T j l * D b (point (src l)) + (if l = i then ent k T j l * (D b (point i) + D b (point (src i))) else 0))"
      unfolding r(9) [OF assms(8) lost(2) b] using known [OF _ _ b] at_i [OF b] assms(7)
      by (intro sum.cong) (auto simp: distrib_left add.left_commute)
    also have "\<dots> = D b (point j) + ent k T j i * (D b (point i) + D b (point (src i)))"
      using r(6) [of "D b"] D b assms(8) ik by (simp add: sum.distrib represents_def codewords_def)
    finally show ?thesis .
  qed
  have "?sh (src i) \<noteq> ?sh i"
  proof -
    have "k \<le> src i" using r(2) ik lost(1) by (auto simp: sources_def)
    moreover obtain s where "s \<in> set shares" "share_number s = src i" using r(5) [OF ik] by auto
    ultimately show ?thesis using assms(6,10) ik by (auto simp: shares_ok_def list_all_iff share_bytes_def)
  qed
  then obtain b where b: "b < block" "?sh (src i) ! b \<noteq> ?sh i ! b"
    using nth_equalityI [of "?sh (src i)" "?sh i"] val(2) r(3) [OF ik] ik f(2) assms(3) by (metis less_trans)
  have "D b (point i) \<noteq> D b (point (src i))" using b val(1) [OF _ b(1)] r(3) [OF ik] ik f(2) by (metis gf_inject less_trans)
  then have "gf (share_data (out ! j) ! b) \<noteq> gf (?sh j ! b)"
    using at_j [OF b(1)] inverse_entry_nonzero [OF r(2,6) assms(8) lost(2) ik] val(1) [OF _ b(1), of j] f assms(8) by (simp add: gf_add_eq_0)
  then have "share_data (out ! j) \<noteq> row content block j" using assms(8) by (auto simp: share_bytes_def)
  moreover have "share_data (out ! i) = row content block i"
  proof -
    have "share_data (out ! i) ! b = ?sh i ! b" if "b < block" for b using at_i [OF that] val(1) [OF _ that, of i] ik f(2) by (metis gf_inject less_trans)
    moreover have "length (?sh i) = block" using val(2) [of i] ik f(2) assms(3) by simp
    ultimately have "share_data (out ! i) = ?sh i" using r(7) [OF ik] by (intro nth_equalityI) simp_all
    then show ?thesis using ik by (simp add: share_bytes_def)
  qed
  ultimately show ?thesis using r(1) by blast
qed

lemma rebuild_two_lost_wrong_witness:
  "\<exists>f p q out. fec_new 2 4 = Done f \<and> fec_encode f [1, 5] [0, 0] = Done (Inr [p, q]) \<and>
    fec_rebuild f [\<lparr>share_number = 2, share_data = [p]\<rparr>, \<lparr>share_number = 3, share_data = [q]\<rparr>] = Done (Inr out) \<and>
    share_data (out ! 0) = [1] \<and> share_data (out ! 1) \<noteq> [5]"
proof -
  obtain f where f: "fec_new 2 4 = Done f" "required f = 2" "total_shares f = 4" "evaluates 2 4 (enc_matrix f)" using fec_new_ok [of 2 4] by auto
  obtain par D where e: "fec_encode f [1, 5] [0, 0] = Done (Inr par)" "length par = 2" "codewords 2 4 1 (share_bytes 2 1 [1, 5] par) D"
    using fec_encode_ok [OF f(2-4), of "[1, 5]" 1 "[0, 0]"] by auto
  then obtain p q where pq: "par = [p, q]" by (auto simp: length_Suc_conv numeral_2_eq_2)
  have d: "poly_fun 2 (D 0)" "D 0 (point 0) = 1" "D 0 (point 1) = gf 5" "D 0 (point 2) = gf p" "D 0 (point 3) = gf q"
  proof -
    have c: "poly_fun 2 (D 0)" "\<And>n. n < 4 \<Longrightarrow> D 0 (point n) = gf (share_bytes 2 1 [1, 5] [p, q] n ! 0)"
      using e(3) by (auto simp: codewords_def pq)
    show "poly_fun 2 (D 0)" by (fact c)
    show "D 0 (point 0) = 1" "D 0 (point 1) = gf 5" "D 0 (point 2) = gf p" "D 0 (point 3) = gf q"
      using c(2) [of 0] c(2) [of 1] c(2) [of 2] c(2) [of 3] by (simp_all add: share_bytes_def row_def gf_simps)
  qed
  have "D 0 (point n) \<noteq> 1" if "n = 2 \<or> n = 3" for n
  proof
    assume n: "D 0 (point n) = 1"
    have "D 0 (point 1) = 1"
      by (rule poly_fun_agree [OF d(1) poly_fun_const [of 2 1], where g = "\<lambda>i. if i = 0 then 0 else n"])
        (use that n d(2) in \<open>auto simp: inj_on_def split: if_splits\<close>)
    then show False using d(3) gf_eq_0(2) [of 5] by simp
  qed
  then have "p \<noteq> 1" "q \<noteq> 1" using d(4,5) by (auto simp: gf_simps)
  let ?ss = "[\<lparr>share_number = 2, share_data = [p]\<rparr>, \<lparr>share_number = 3, share_data = [q]\<rparr>]"
  have ok: "shares_ok 2 4 (share_bytes 2 1 [1, 5] [p, q]) ?ss" by (simp add: shares_ok_def share_bytes_def row_def)
  have "{..1} - share_number ` set ?ss = {0, 1}" by auto
  moreover have "\<forall>s\<in>set ?ss. 2 \<le> share_number s \<longrightarrow> share_data s \<noteq> row [1, 5] 1 0" using \<open>p \<noteq> 1\<close> \<open>q \<noteq> 1\<close> by (simp add: row_def)
  ultimately show ?thesis
    using rebuild_two_lost_wrong [OF f(1) _ _ _ e(1) [unfolded pq] ok, of 0 1] f(1) e(1) unfolding pq by (auto simp: row_def)
qed

end
