(* ===== verification/Merkle.thy ===== *)
theory Merkle
  imports Prelude
begin

section \<open>The append-only Merkle tree (\<open>merkle-tree/src/lib.rs\<close>)\<close>

text \<open>
  The tree is stored in order: the leaves at the even places, the inner nodes between them, the last subtree possibly incomplete.
  Appending a leaf recomputes the nodes on the right edge; a proof lists the siblings on the way from a leaf to the
  root. The hash function \<open>combine\<close> and the default value are parameters, as in the code.
  The specification is the usual recursive one: the tree over a list of leaves splits it at the largest power of
  two below its length.
\<close>

record 'h merkle_tree =
  nodes :: "'h list"

fun ilog2 :: "nat \<Rightarrow> nat" where
  "ilog2 n = (if n < 2 then 0 else Suc (ilog2 (n div 2)))"

declare ilog2.simps [simp del]

definition next_power_of_two :: "nat \<Rightarrow> nat" where
  "next_power_of_two n = (if n \<le> 1 then 1 else 2 ^ Suc (ilog2 (n - 1)))"

definition merkle_new :: "'h \<Rightarrow> 'h merkle_tree" where
  "merkle_new root = \<lparr>nodes = [root]\<rparr>"

function comute_recur :: "('h \<Rightarrow> 'h \<Rightarrow> 'h) \<Rightarrow> 'h list \<Rightarrow> ('h \<times> 'h list) run" where
  "comute_recur combine ns =
     (if length ns = 1 then Done (hd ns, ns)
      else (case drop (length ns div 2) ns of
          [] \<Rightarrow> Panic
        | _ # right \<Rightarrow>
            run_bind (comute_recur combine (take (length ns div 2) ns)) (\<lambda>(l, left).
              run_bind (comute_recur combine right) (\<lambda>(r, right).
                Done (combine l r, left @ [combine l r] @ right)))))"
  by pat_completeness auto
termination
proof (relation "measure (\<lambda>(c, ns). length ns)", goal_cases)
  case (2 combine ns x right)
  then show ?case by (cases ns) auto
next
  case (3 combine ns x right)
  then have "length (drop (length ns div 2) ns) = Suc (length right)" by simp
  then show ?case by simp
qed simp

declare comute_recur.simps [simp del]

fun intersperse :: "'a \<Rightarrow> 'a list \<Rightarrow> 'a list" where
  "intersperse d [] = []"
| "intersperse d [x] = [x]"
| "intersperse d (x # y # xs) = x # d # intersperse d (y # xs)"

definition from_base :: "('h \<Rightarrow> 'h \<Rightarrow> 'h) \<Rightarrow> 'h \<Rightarrow> 'h list \<Rightarrow> 'h merkle_tree run" where
  "from_base combine dflt base =
     run_bind (comute_recur combine (intersperse dflt base)) (\<lambda>(_, ns). Done \<lparr>nodes = ns\<rparr>)"

definition merkle_root :: "'h merkle_tree \<Rightarrow> 'h run" where
  "merkle_root t =
     (let half = next_power_of_two (length (nodes t)) div 2 in
      if half = 0 then Panic
      else if half - 1 < length (nodes t) then Done (nodes t ! (half - 1)) else Panic)"

text \<open>The loop of \<open>psuh\<close>, its variables passed along.\<close>

fun psuh_loop :: "('h \<Rightarrow> 'h \<Rightarrow> 'h) \<Rightarrow> nat \<Rightarrow> 'h list \<times> nat \<times> nat \<times> nat \<times> nat \<Rightarrow> ('h list \<times> nat \<times> nat \<times> nat \<times> nat) run" where
  "psuh_loop combine 0 st = Done st"
| "psuh_loop combine (Suc n) (ns, cursor, clamp, width, dmask) =
     (if even dmask then psuh_loop combine n (ns, cursor + width, clamp, 2 * width, dmask div 2)
      else if cursor < 2 * width \<or> length ns \<le> cursor - width \<or> length ns \<le> min cursor clamp then Panic
      else psuh_loop combine n
        (ns[cursor - width := combine (ns ! (cursor - width - width)) (ns ! min (cursor - width + width) clamp)],
         cursor - width, cursor - width, 2 * width, dmask div 2))"

definition psuh :: "('h \<Rightarrow> 'h \<Rightarrow> 'h) \<Rightarrow> 'h \<Rightarrow> 'h \<Rightarrow> 'h merkle_tree \<Rightarrow> 'h merkle_tree run" where
  "psuh combine dflt v t =
     (let ns = nodes t @ [dflt, v]; cursor = length ns - 1 in
      run_bind (psuh_loop combine (ilog2 (length ns)) (ns, cursor, cursor, 1, length ns div 2))
        (\<lambda>(ns, _). Done \<lparr>nodes = ns\<rparr>))"

text \<open>The iterator of a proof, run to its end.\<close>

type_synonym proof_state = "nat \<times> nat \<times> nat \<times> nat \<times> nat \<times> nat"

definition proof_turn :: "'h list \<Rightarrow> proof_state \<Rightarrow> ('h option \<times> proof_state) run" where
  "proof_turn ns st =
     (case st of (cursor, clamp_cursor, clamp, width, direction_mask, clamp_mask) \<Rightarrow>
        if odd direction_mask \<and> cursor < 2 * width \<or> odd clamp_mask \<and> clamp_cursor < width then Panic
        else
          let cursor' = (if even direction_mask then cursor + width else cursor - width);
              opposite = (if even direction_mask then cursor' + width else cursor' - width);
              clamp_cursor' = (if even clamp_mask then clamp_cursor + width else clamp_cursor - width) in
          if odd clamp_mask \<and> length ns \<le> min opposite clamp then Panic
          else Done
            (if even clamp_mask then (if opposite < length ns then Some (ns ! opposite) else None) else Some (ns ! min opposite clamp),
             cursor', clamp_cursor', if even clamp_mask then clamp else clamp_cursor', 2 * width, direction_mask div 2, clamp_mask div 2))"

fun proof_loop :: "'h list \<Rightarrow> nat \<Rightarrow> proof_state \<Rightarrow> 'h list run" where
  "proof_loop ns 0 st = Done []"
| "proof_loop ns (Suc fuel) st =
     run_bind (proof_turn ns st) (\<lambda>(v, st'). run_bind (proof_loop ns fuel st')
       (\<lambda>rest. Done (case v of Some x \<Rightarrow> x # rest | None \<Rightarrow> rest)))"

definition merkle_proof :: "'h merkle_tree \<Rightarrow> nat \<Rightarrow> 'h list run" where
  "merkle_proof t index =
     (let ns = nodes t; last_node = length ns - 1 in
      if length ns = 0 then Panic
      else proof_loop ns (ilog2 (length ns)) (index, last_node, last_node, 1, (index + 1) div 2, length ns div 2))"

definition merkle_clear :: "'h \<Rightarrow> 'h merkle_tree \<Rightarrow> 'h merkle_tree" where
  "merkle_clear root t = t\<lparr>nodes := [root]\<rparr>"

subsection \<open>The specification\<close>

definition split_pow :: "nat \<Rightarrow> nat" where
  "split_pow n = 2 ^ ilog2 (n - 1)"

lemma ilog2_bounds: "0 < n \<Longrightarrow> 2 ^ ilog2 n \<le> n \<and> n < 2 ^ Suc (ilog2 n)"
proof (induction n rule: ilog2.induct)
  case (1 n)
  show ?case
  proof (cases "n < 2")
    case False
    then have "2 ^ ilog2 (n div 2) \<le> n div 2" "n div 2 < 2 ^ Suc (ilog2 (n div 2))" using 1 by auto
    then have "2 * 2 ^ ilog2 (n div 2) \<le> n \<and> n < 2 * (2 * 2 ^ ilog2 (n div 2))" by auto
    then show ?thesis using False by (simp add: ilog2.simps [of n])
  qed (use 1 in \<open>simp add: ilog2.simps\<close>)
qed

lemma ilog2_eq: "2 ^ j \<le> n \<Longrightarrow> n < 2 ^ Suc j \<Longrightarrow> ilog2 n = j"
proof -
  assume n: "2 ^ j \<le> n" "n < 2 ^ Suc j"
  then have b: "2 ^ ilog2 n \<le> n" "n < 2 ^ Suc (ilog2 n)" using ilog2_bounds [of n] by (auto intro: less_le_trans [of 0 "2 ^ j"])
  have "(2 :: nat) ^ ilog2 n < 2 ^ Suc j" "(2 :: nat) ^ j < 2 ^ Suc (ilog2 n)" using n b by (meson le_less_trans)+
  then have "ilog2 n < Suc j" "j < Suc (ilog2 n)" by (auto intro: power_less_imp_less_exp [of "2 :: nat"] simp del: power_Suc)
  then show ?thesis by simp
qed

lemma split_pow_eq: "2 ^ j < n \<Longrightarrow> n \<le> 2 ^ Suc j \<Longrightarrow> split_pow n = 2 ^ j"
  using ilog2_eq [of j "n - 1"] by (simp add: split_pow_def)

lemma split_pow_bounds: "2 \<le> n \<Longrightarrow> 0 < split_pow n \<and> split_pow n < n"
  using ilog2_bounds [of "n - 1"] by (auto simp: split_pow_def)

lemma split_pow_less [simp]: "Suc 0 < n \<Longrightarrow> split_pow n < n" "Suc 0 < n \<Longrightarrow> n - split_pow n < n" "0 < split_pow n"
  using split_pow_bounds [of n] by (auto simp: split_pow_def)

function mth :: "('h \<Rightarrow> 'h \<Rightarrow> 'h) \<Rightarrow> 'h list \<Rightarrow> 'h" where
  "mth c xs = (if length xs \<le> 1 then hd xs
     else c (mth c (take (split_pow (length xs)) xs)) (mth c (drop (split_pow (length xs)) xs)))"
  by pat_completeness auto
termination by (relation "measure (\<lambda>(c, xs). length xs)") (auto simp: not_le min_def)

function layout :: "('h \<Rightarrow> 'h \<Rightarrow> 'h) \<Rightarrow> 'h list \<Rightarrow> 'h list" where
  "layout c xs = (if length xs \<le> 1 then xs
     else layout c (take (split_pow (length xs)) xs) @ [mth c xs] @ layout c (drop (split_pow (length xs)) xs))"
  by pat_completeness auto
termination by (relation "measure (\<lambda>(c, xs). length xs)") (auto simp: not_le min_def)

function audit_path :: "('h \<Rightarrow> 'h \<Rightarrow> 'h) \<Rightarrow> nat \<Rightarrow> 'h list \<Rightarrow> 'h list" where
  "audit_path c i xs = (let m = split_pow (length xs) in
     if length xs \<le> 1 then []
     else if i < m then audit_path c i (take m xs) @ [mth c (drop m xs)]
     else audit_path c (i - m) (drop m xs) @ [mth c (take m xs)])"
  by pat_completeness auto
termination by (relation "measure (\<lambda>(c, i, xs). length xs)") (auto simp: not_le min_def)

declare mth.simps [simp del] layout.simps [simp del] audit_path.simps [simp del]

text \<open>Recomputing the root from a leaf and its siblings.\<close>

function root_from :: "('h \<Rightarrow> 'h \<Rightarrow> 'h) \<Rightarrow> nat \<Rightarrow> nat \<Rightarrow> 'h \<Rightarrow> 'h list \<Rightarrow> 'h" where
  "root_from c n i x ps = (let m = split_pow n in
     if n \<le> 1 then x
     else if i < m then c (root_from c m i x (butlast ps)) (last ps)
     else c (last ps) (root_from c (n - m) (i - m) x (butlast ps)))"
  by pat_completeness auto
termination by (relation "measure (\<lambda>(c, n, i, x, ps). n)") (auto simp: not_le)

declare root_from.simps [simp del]

subsection \<open>The layout\<close>

definition root_pos :: "nat \<Rightarrow> nat" where
  "root_pos n = (if n \<le> 1 then 0 else 2 * split_pow n - 1)"

lemma length_layout: "xs \<noteq> [] \<Longrightarrow> length (layout c xs) = 2 * length xs - 1"
proof (induction c xs rule: layout.induct)
  case (1 c xs)
  show ?case
  proof (cases "length xs \<le> 1")
    case True
    then show ?thesis using 1(3) by (cases xs) (auto simp: layout.simps)
  next
    case False
    define m where "m = split_pow (length xs)"
    have m: "0 < m" "m < length xs" using False by (simp_all add: m_def)
    then have "take m xs \<noteq> []" "drop m xs \<noteq> []" by auto
    then have l: "length (layout c (take m xs)) = 2 * m - 1" "length (layout c (drop m xs)) = 2 * (length xs - m) - 1"
      using 1(1,2) False m unfolding m_def by simp_all
    have "layout c xs = layout c (take m xs) @ [mth c xs] @ layout c (drop m xs)" using False unfolding m_def by (subst layout.simps) simp
    then have "length (layout c xs) = (2 * m - 1) + 1 + (2 * (length xs - m) - 1)" using l by simp
    then show ?thesis using m by linarith
  qed
qed

lemma layout_single [simp]: "layout c [x] = [x]" "mth c [x] = x"
  by (simp_all add: layout.simps mth.simps)

lemma layout_append:
  assumes "length xs = 2 ^ j" and "ys \<noteq> []" and "length ys \<le> 2 ^ j"
  shows "layout c (xs @ ys) = layout c xs @ [mth c (xs @ ys)] @ layout c ys"
    and "mth c (xs @ ys) = c (mth c xs) (mth c ys)" and "root_pos (length (xs @ ys)) = 2 * 2 ^ j - 1"
proof -
  have p: "split_pow (length (xs @ ys)) = 2 ^ j" using split_pow_eq [of j "length (xs @ ys)"] assms by (simp add: Suc_le_eq)
  have l: "\<not> length (xs @ ys) \<le> 1" using assms by (cases ys) (simp_all add: Suc_le_eq not_le)
  show "layout c (xs @ ys) = layout c xs @ [mth c (xs @ ys)] @ layout c ys"
    using l unfolding layout.simps [of c "xs @ ys"] p by (simp add: assms(1))
  show "mth c (xs @ ys) = c (mth c xs) (mth c ys)"
    using l unfolding mth.simps [of c "xs @ ys"] p by (simp add: assms(1))
  show "root_pos (length (xs @ ys)) = 2 * 2 ^ j - 1" unfolding root_pos_def p using l by simp
qed

lemma root_pos_pow: "root_pos (2 ^ j) = 2 ^ j - 1"
proof (cases j)
  case (Suc i)
  then have "split_pow (2 ^ j) = 2 ^ i" by (intro split_pow_eq) simp_all
  then show ?thesis using Suc by (simp add: root_pos_def)
qed (simp add: root_pos_def)

lemma root_pos_le: "0 < n \<Longrightarrow> n \<le> 2 ^ j \<Longrightarrow> root_pos n \<le> 2 ^ j - 1 \<and> root_pos n < 2 * n - 1"
proof -
  assume n: "0 < n" "n \<le> 2 ^ j"
  show ?thesis
  proof (cases "n \<le> 1")
    case False
    then have b: "2 ^ ilog2 (n - 1) \<le> n - 1" using ilog2_bounds [of "n - 1"] by simp
    then have "(2 :: nat) ^ ilog2 (n - 1) < 2 ^ j" using n False by linarith
    then have "ilog2 (n - 1) < j" by (rule power_less_imp_less_exp [of "2 :: nat", rotated]) simp
    then have "Suc (ilog2 (n - 1)) \<le> j" by (rule Suc_leI)
    then have "(2 :: nat) ^ Suc (ilog2 (n - 1)) \<le> 2 ^ j" by (rule power_increasing) simp
    then show ?thesis using b False by (auto simp: root_pos_def split_pow_def)
  qed (use n in \<open>simp add: root_pos_def\<close>)
qed

lemma layout_root: "xs \<noteq> [] \<Longrightarrow> layout c xs ! root_pos (length xs) = mth c xs"
proof (cases "length xs \<le> 1")
  case True
  assume "xs \<noteq> []"
  then show ?thesis using True by (cases xs) (auto simp: root_pos_def)
next
  case False
  let ?m = "split_pow (length xs)"
  have m: "0 < ?m" "?m < length xs" using False by simp_all
  have "take ?m xs \<noteq> []" using m by auto
  then have "length (layout c (take ?m xs)) = root_pos (length xs)" using m False by (simp add: length_layout root_pos_def)
  then show ?thesis using False by (simp add: layout.simps [of c xs] nth_append)
qed

subsection \<open>Appending\<close>

text \<open>\<open>j\<close> turns of the loop bring a subtree of at most \<open>2 ^ j\<close> leaves, the last of them new, up to date.\<close>

definition appended :: "('h \<Rightarrow> 'h \<Rightarrow> 'h) \<Rightarrow> 'h \<Rightarrow> 'h list \<Rightarrow> 'h list" where
  "appended c d ys = (if length ys \<le> 1 then ys else layout c (butlast ys) @ [d, last ys])"

lemma psuh_loop_add: "psuh_loop c (m + n) st = run_bind (psuh_loop c m st) (psuh_loop c n)"
  by (induction c m st rule: psuh_loop.induct) auto

lemma psuh_turn:
  "\<not> (cursor < 2 * w \<or> length ns \<le> cursor - w \<or> length ns \<le> min cursor clamp) \<Longrightarrow>
   psuh_loop c 1 (ns, cursor, clamp, w, 2 * h + 1) =
   Done (ns[cursor - w := c (ns ! (cursor - w - w)) (ns ! min (cursor - w + w) clamp)], cursor - w, cursor - w, 2 * w, h)"
  by simp

lemma appended_split:
  assumes "length zs = 2 ^ j" and "ws \<noteq> []" and "length ws \<le> 2 ^ j"
  shows "\<exists>x. appended c d (zs @ ws) = layout c zs @ [x] @ appended c d ws"
proof (cases "length ws = 1")
  case True
  then obtain w where "ws = [w]" by (cases ws) auto
  then show ?thesis using assms(1) by (auto simp: appended_def)
next
  case False
  then have "butlast ws \<noteq> []" "length (butlast ws) \<le> 2 ^ j" using assms by (cases ws; auto)+
  then have "layout c (zs @ butlast ws) = layout c zs @ [mth c (zs @ butlast ws)] @ layout c (butlast ws)"
    by (rule layout_append(1) [OF assms(1)])
  then show ?thesis using assms False by (cases ws) (auto simp: appended_def butlast_append)
qed

lemma psuh_loop_ok:
  assumes "ys \<noteq> []" and "length ys \<le> 2 ^ j"
  shows "psuh_loop c j (pre @ appended c d ys, length pre + 2 * (length ys - 1), length pre + 2 * (length ys - 1), 1, length ys - 1 + 2 ^ j * h) =
    Done (pre @ layout c ys, length pre + 2 ^ j - 1, length pre + root_pos (length ys), 2 ^ j, h)"
  using assms
proof (induction j arbitrary: ys pre h)
  case 0
  then obtain y where "ys = [y]" by (cases ys) auto
  then show ?case by (simp add: appended_def root_pos_def)
next
  case (Suc j)
  let ?p = "2 ^ j :: nat"
  have step: "psuh_loop c (Suc j) st = run_bind (psuh_loop c j st) (psuh_loop c 1)" for st
    using psuh_loop_add [of c j 1 st] by simp
  show ?case
  proof (cases "length ys \<le> ?p")
    case True
    have "length ys - 1 + 2 ^ Suc j * h = length ys - 1 + ?p * (2 * h)" by simp
    then have "psuh_loop c j (pre @ appended c d ys, length pre + 2 * (length ys - 1), length pre + 2 * (length ys - 1), 1, length ys - 1 + 2 ^ Suc j * h) =
        Done (pre @ layout c ys, length pre + ?p - 1, length pre + root_pos (length ys), ?p, 2 * h)"
      using Suc.IH [OF Suc.prems(1) True, of pre "2 * h"] by (simp only:)
    then show ?thesis unfolding step by simp
  next
    case False
    define zs ws where "zs = take ?p ys" and "ws = drop ?p ys"
    have zw: "ys = zs @ ws" "length zs = ?p" "ws \<noteq> []" "length ws \<le> ?p" using False Suc.prems by (auto simp: zs_def ws_def)
    obtain x where x: "appended c d ys = layout c zs @ [x] @ appended c d ws" using appended_split [OF zw(2,3,4), of c d] zw(1) by auto
    have lz: "length (layout c zs) = 2 * ?p - 1" using length_layout [of zs c] zw(2) by (cases zs) auto
    have ll: "layout c ys = layout c zs @ [mth c ys] @ layout c ws" "mth c ys = c (mth c zs) (mth c ws)" "root_pos (length ys) = 2 * ?p - 1"
      using layout_append(1,2) [OF zw(2,3,4), of c] layout_append(3) [OF zw(2,3,4)] zw(1) by simp_all
    let ?pre = "pre @ layout c zs @ [x]"
    have lp: "length ?pre = length pre + 2 * ?p" using lz by simp
    have cur: "length pre + 2 * (length ys - 1) = length ?pre + 2 * (length ws - 1)" using zw lz by (cases ws) auto
    have msk: "length ys - 1 + 2 ^ Suc j * h = length ws - 1 + ?p * (2 * h + 1)" using zw by (cases ws) auto
    have IH: "psuh_loop c j (pre @ appended c d ys, length pre + 2 * (length ys - 1), length pre + 2 * (length ys - 1), 1, length ys - 1 + 2 ^ Suc j * h) =
        Done (?pre @ layout c ws, length ?pre + ?p - 1, length ?pre + root_pos (length ws), ?p, 2 * h + 1)"
      using Suc.IH [OF zw(3,4), of ?pre "2 * h + 1"] unfolding cur msk x by simp
    have rp: "root_pos (length ws) \<le> ?p - 1" "root_pos (length ws) < 2 * length ws - 1" using root_pos_le [OF _ zw(4)] zw(3) by auto
    have lw: "length (layout c ws) = 2 * length ws - 1" using length_layout [OF zw(3)] by simp
    let ?ns = "?pre @ layout c ws" and ?cur = "length ?pre + ?p - 1" and ?cl = "length ?pre + root_pos (length ws)"
    have pos: "?cur - ?p = length pre + (2 * ?p - 1)" "?cur - ?p - ?p = length pre + (?p - 1)" "min (?cur - ?p + ?p) ?cl = ?cl" "min ?cur ?cl = ?cl"
      using lp rp by (auto simp: min_def)
    have v1: "?ns ! (?cur - ?p - ?p) = mth c zs"
      unfolding pos using lz layout_root [of zs c] zw(2) root_pos_pow [of j] by (cases zs) (auto simp: nth_append)
    have v2: "?ns ! ?cl = mth c ws" using layout_root [OF zw(3)] by (simp only: nth_append_length_plus)
    have wr: "?ns[?cur - ?p := mth c ys] = pre @ layout c ys"
    proof -
      have e: "length pre + (2 * ?p - 1) = length (pre @ layout c zs)" using lz by simp
      show ?thesis unfolding pos(1) e using list_update_length [of "pre @ layout c zs" x "layout c ws" "mth c ys"] ll(1) by simp
    qed
    have rng: "\<not> (?cur < 2 * ?p \<or> length ?ns \<le> ?cur - ?p \<or> length ?ns \<le> min ?cur ?cl)"
      using lp lw rp pos by (simp only: length_append) (auto simp: Suc_le_eq)
    have "psuh_loop c 1 (?ns, ?cur, ?cl, ?p, 2 * h + 1) = Done (pre @ layout c ys, length pre + 2 ^ Suc j - 1, length pre + root_pos (length ys), 2 ^ Suc j, h)"
    proof -
      have A: "psuh_loop c 1 (?ns, ?cur, ?cl, ?p, 2 * h + 1) = Done (?ns[?cur - ?p := mth c ys], ?cur - ?p, ?cur - ?p, 2 * ?p, h)"
        unfolding psuh_turn [OF rng] v1 pos(3) v2 ll(2) ..
      have "?cur - ?p = length pre + 2 ^ Suc j - 1" "?cur - ?p = length pre + root_pos (length ys)" unfolding pos(1) ll(3) by simp_all
      then show ?thesis unfolding A wr power_Suc by (metis (no_types))
    qed
    then show ?thesis unfolding step IH by simp
  qed
qed


lemma psuh_layout:
  assumes "xs \<noteq> []"
  shows "psuh c d v \<lparr>nodes = layout c xs\<rparr> = Done \<lparr>nodes = layout c (xs @ [v])\<rparr>"
proof -
  let ?ys = "xs @ [v]" and ?L = "2 * length xs + 1"
  have l: "length (layout c xs @ [d, v]) = ?L" using length_layout [OF assms, of c] assms by (cases xs) auto
  have a: "appended c d ?ys = layout c xs @ [d, v]" using assms by (simp add: appended_def not_le)
  have "length ?ys \<le> 2 ^ ilog2 ?L" using ilog2_bounds [of ?L] by simp
  from psuh_loop_ok [OF _ this, of c "[]" d 0] show ?thesis unfolding psuh_def Let_def select_convs l a by simp
qed

subsection \<open>Proofs\<close>

text \<open>The leaves under the node of level \<open>j\<close> with number \<open>b\<close>.\<close>

definition blk :: "nat \<Rightarrow> nat \<Rightarrow> 'h list \<Rightarrow> 'h list" where
  "blk j b xs = take (2 ^ j) (drop (b * 2 ^ j) xs)"

lemma split_pow_dvd: "2 ^ j < n \<Longrightarrow> 2 ^ j dvd split_pow n \<and> 2 ^ j \<le> split_pow n"
proof -
  assume n: "2 ^ j < n"
  moreover have "(1 :: nat) \<le> 2 ^ j" by simp
  ultimately have "2 ^ j \<le> n - 1" "n - 1 < 2 ^ Suc (ilog2 (n - 1))" using ilog2_bounds [of "n - 1"] by linarith+
  then have "(2 :: nat) ^ j < 2 ^ Suc (ilog2 (n - 1))" by (rule le_less_trans)
  then have "j < Suc (ilog2 (n - 1))" by (rule power_less_imp_less_exp [of "2 :: nat", rotated]) simp
  then have "j \<le> ilog2 (n - 1)" by simp
  then show ?thesis by (simp add: split_pow_def le_imp_power_dvd power_increasing)
qed

lemma layout_block:
  assumes "b * 2 ^ j < length xs" and "p < 2 * length (blk j b xs) - 1"
  shows "layout c xs ! (2 * (b * 2 ^ j) + p) = layout c (blk j b xs) ! p"
  using assms
proof (induction c xs arbitrary: b rule: layout.induct)
  case (1 c xs)
  show ?case
  proof (cases "length xs \<le> 2 ^ j")
    case True
    then have "b = 0" using "1.prems"(1) by (cases b) auto
    then show ?thesis using True by (simp add: blk_def)
  next
    case False
    define m where "m = split_pow (length xs)"
    have big: "\<not> length xs \<le> 1" using False by (metis le_trans one_le_numeral one_le_power)
    have m: "0 < m" "m < length xs" using big by (simp_all add: m_def)
    obtain q where q: "m = q * 2 ^ j" using split_pow_dvd [of j "length xs"] False unfolding m_def by (metis dvd_div_mult_self not_le)
    have lay: "layout c xs = layout c (take m xs) @ [mth c xs] @ layout c (drop m xs)" using big unfolding m_def by (subst layout.simps) simp
    have ll: "length (layout c (take m xs)) = 2 * m - 1" using length_layout [of "take m xs" c] m by (cases xs) auto
    show ?thesis
    proof (cases "b < q")
      case True
      then have fit: "b * 2 ^ j + 2 ^ j \<le> m" unfolding q by (metis Suc_leI add.commute mult_Suc mult_le_mono1)
      moreover have "(0 :: nat) < 2 ^ j" by simp
      ultimately have lt: "b * 2 ^ j < m" by linarith
      have bl: "blk j b (take m xs) = blk j b xs" using fit by (simp add: blk_def drop_take min_def)
      have "layout c (take m xs) ! (2 * (b * 2 ^ j) + p) = layout c (blk j b xs) ! p"
        using "1.IH"(1) [OF big, of b] "1.prems"(2) lt m bl unfolding m_def [symmetric] by simp
      moreover have "2 * (b * 2 ^ j) + p < 2 * m - 1" using "1.prems"(2) fit by (simp add: blk_def min_def split: if_splits)
      ultimately show ?thesis unfolding lay using ll by (simp add: nth_append)
    next
      case False
      have e: "b * 2 ^ j = (b - q) * 2 ^ j + m" using False unfolding q by (simp add: add_mult_distrib [symmetric])
      then have bl: "blk j (b - q) (drop m xs) = blk j b xs" by (simp add: blk_def)
      have "layout c (drop m xs) ! (2 * ((b - q) * 2 ^ j) + p) = layout c (blk j b xs) ! p"
        using "1.IH"(2) [OF big, of "b - q"] "1.prems" e bl unfolding m_def [symmetric] by simp
      moreover have "2 * (b * 2 ^ j) + p = length (layout c (take m xs) @ [mth c xs]) + (2 * ((b - q) * 2 ^ j) + p)" using ll m e by simp
      ultimately show ?thesis unfolding lay append_assoc [symmetric] by (simp only: nth_append_length_plus)
    qed
  qed
qed

lemma block_root: "b * 2 ^ j < length xs \<Longrightarrow> layout c xs ! (2 * (b * 2 ^ j) + root_pos (length (blk j b xs))) = mth c (blk j b xs)"
proof -
  assume b: "b * 2 ^ j < length xs"
  then have "blk j b xs \<noteq> []" by (simp add: blk_def)
  then show ?thesis using layout_block [OF b] root_pos_le [of "length (blk j b xs)" j] layout_root [of "blk j b xs" c]
    by (simp add: blk_def)
qed

lemma audit_path_append:
  assumes "length xs = 2 ^ j" and "ys \<noteq> []" and "length ys \<le> 2 ^ j"
  shows "audit_path c i (xs @ ys) = (if i < 2 ^ j then audit_path c i xs @ [mth c ys] else audit_path c (i - 2 ^ j) ys @ [mth c xs])"
proof -
  have p: "split_pow (length (xs @ ys)) = 2 ^ j" using split_pow_eq [of j "length (xs @ ys)"] assms by (simp add: Suc_le_eq)
  have "\<not> length (xs @ ys) \<le> 1" using assms by (cases ys) (simp_all add: Suc_le_eq not_le)
  then show ?thesis unfolding audit_path.simps [of c i "xs @ ys"] p Let_def by (simp add: assms(1))
qed

text \<open>One level up: the sibling, if there is one, joins the path.\<close>

definition sibling :: "('h \<Rightarrow> 'h \<Rightarrow> 'h) \<Rightarrow> nat \<Rightarrow> nat \<Rightarrow> 'h list \<Rightarrow> 'h option" where
  "sibling c j b xs = (if odd b then Some (mth c (blk j (b - 1) xs))
     else if (b + 1) * 2 ^ j < length xs then Some (mth c (blk j (b + 1) xs)) else None)"

lemma path_step:
  fixes j :: nat
  assumes i: "i < length xs"
  defines "b \<equiv> i div 2 ^ j"
  shows "audit_path c (i mod 2 ^ Suc j) (blk (Suc j) (i div 2 ^ Suc j) xs) =
    audit_path c (i mod 2 ^ j) (blk j b xs) @ (case sibling c j b xs of Some x \<Rightarrow> [x] | None \<Rightarrow> [])"
proof -
  let ?p = "2 ^ j :: nat"
  have b2: "i div 2 ^ Suc j = b div 2" unfolding b_def power_Suc2 by (rule div_mult2_eq)
  have m2: "i mod 2 ^ Suc j = i mod ?p + ?p * (b mod 2)" unfolding b_def power_Suc2 by (subst mod_mult2_eq) simp
  have bi: "b * ?p \<le> i" by (simp add: b_def)
  have imp: "i mod ?p < ?p" by simp
  have two: "blk (Suc j) (b div 2) xs = blk j (2 * (b div 2)) xs @ blk j (2 * (b div 2) + 1) xs"
    by (simp add: blk_def mult.commute mult.left_commute take_add [symmetric] add.commute drop_drop mult_2_right)
       (simp add: mult_2 take_add)
  show ?thesis
  proof (cases "odd b")
    case True
    then have bb: "b = 2 * (b div 2) + 1" by presburger
    have "length (blk j (b - 1) xs) = ?p" "blk j b xs \<noteq> []" "length (blk j b xs) \<le> ?p"
      using bi i True by (cases b; auto simp: blk_def)+
    then have "audit_path c (i mod ?p + ?p) (blk j (b - 1) xs @ blk j b xs) = audit_path c (i mod ?p) (blk j b xs) @ [mth c (blk j (b - 1) xs)]"
      using audit_path_append [of "blk j (b - 1) xs" j "blk j b xs" c "i mod ?p + ?p"] by simp
    moreover have "2 * (b div 2) = b - 1" "b mod 2 = 1" using bb by presburger+
    ultimately show ?thesis unfolding b2 m2 two using True bb by (simp add: sibling_def)
  next
    case False
    then have bb: "2 * (b div 2) = b" "b mod 2 = 0" by presburger+
    show ?thesis
    proof (cases "(b + 1) * ?p < length xs")
      case True
      then have "length (blk j b xs) = ?p" "blk j (b + 1) xs \<noteq> []" "length (blk j (b + 1) xs) \<le> ?p" by (auto simp: blk_def)
      then have "audit_path c (i mod ?p) (blk j b xs @ blk j (b + 1) xs) = audit_path c (i mod ?p) (blk j b xs) @ [mth c (blk j (b + 1) xs)]"
        using audit_path_append [of "blk j b xs" j "blk j (b + 1) xs" c "i mod ?p"] imp by simp
      then show ?thesis unfolding b2 m2 two using False True bb by (simp add: sibling_def)
    next
      case no: False
      then have "blk j (b + 1) xs = []" by (simp add: blk_def)
      then show ?thesis unfolding b2 m2 two using False no bb by (simp add: sibling_def)
    qed
  qed
qed

text \<open>What the loop reads is the sibling: the right one may be the incomplete last subtree, which the clamp finds, or absent.\<close>

definition read_sibling :: "'h list \<Rightarrow> nat \<Rightarrow> nat \<Rightarrow> nat \<Rightarrow> 'h option" where
  "read_sibling ns q opposite clamp = (if even q then (if opposite < length ns then Some (ns ! opposite) else None) else Some (ns ! min opposite clamp))"

lemma read_sibling_ok:
  fixes j :: nat
  assumes i: "i < length xs" and p: "p = 2 ^ j" and r: "r = length xs - 1" and b: "b = i div p" and q: "q = r div p"
    and o: "opposite = 2 * ((if even b then b + 1 else b - 1) * p) + (p - 1)" and cl: "clamp = 2 * (q * p) + root_pos (r mod p + 1)"
  shows "read_sibling (layout c xs) q opposite clamp = sibling c j b xs \<and> (odd q \<longrightarrow> min opposite clamp < 2 * length xs - 1)"
proof -
  let ?s = "if even b then b + 1 else b - 1"
  have p0: "0 < p" by (simp add: p)
  have rq: "r = q * p + r mod p" "r mod p < p" unfolding q using p0 by (simp_all add: div_mult_mod_eq)
  have bq: "b \<le> q" using i by (simp add: b q r div_le_mono)
  have n: "length xs = r + 1" using i by (simp add: r)
  have len: "length (layout c xs) = 2 * r + 1" using i n by (subst length_layout) auto
  have full: "layout c xs ! (2 * (s * p) + (p - 1)) = mth c (blk j s xs) \<and> 2 * (s * p) + (p - 1) < 2 * (q * p)" if "s < q" for s
  proof -
    have f: "s * p + p \<le> q * p" using that by (metis Suc_leI add.commute mult_Suc mult_le_mono1)
    then have "s * p + p \<le> r" using rq by linarith
    then have "length (blk j s xs) = p" "s * p < length xs" using n p0 by (auto simp: blk_def p)
    then show ?thesis using block_root [of s j xs c] root_pos_pow [of j] f p0 unfolding p [symmetric] by auto
  qed
  have rp: "root_pos (r mod p + 1) \<le> p - 1" "root_pos (r mod p + 1) \<le> 2 * (r mod p)"
    using root_pos_le [of "r mod p + 1" j] rq(2) unfolding p [symmetric] by auto
  have lastb: "layout c xs ! clamp = mth c (blk j q xs)" "clamp \<le> 2 * (q * p) + (p - 1)" "clamp \<le> 2 * r" "2 * (q * p) \<le> clamp"
  proof -
    have "length xs - q * p = r mod p + 1" using rq(1) n by linarith
    then have "length (blk j q xs) = r mod p + 1" using rq(2) by (simp add: blk_def p [symmetric])
    moreover have "q * p < length xs" using rq n by linarith
    ultimately show "layout c xs ! clamp = mth c (blk j q xs)" using block_root [of q j xs c] unfolding cl p [symmetric] by simp
    show "clamp \<le> 2 * (q * p) + (p - 1)" "2 * (q * p) \<le> clamp" "clamp \<le> 2 * r" using rp rq(1) unfolding cl by linarith+
  qed
  show ?thesis
  proof (cases "?s < q")
    case True
    note f = full [OF True, folded o]
    have "2 * (q * p) \<le> 2 * r" using rq by linarith
    then have ol: "opposite < 2 * r + 1" "opposite < clamp" using f lastb(4) by auto
    have "(b + 1) * p < length xs" if "even b"
    proof -
      have "(b + 1) * p \<le> q * p" using True that by (intro mult_le_mono1) simp
      then show ?thesis using rq n by linarith
    qed
    then show ?thesis using ol f len n by (auto simp: read_sibling_def sibling_def min_def p [symmetric])
  next
    case False
    have ev: "even b" using False bq by (cases "even b") (auto elim: oddE)
    show ?thesis
    proof (cases "q = b + 1")
      case True
      then have "clamp \<le> opposite" "odd q" using lastb(2) ev by (simp_all add: o)
      moreover have "(b + 1) * p < length xs" unfolding True [symmetric] using rq n by linarith
      ultimately show ?thesis using lastb(1,3) ev True n by (simp add: read_sibling_def sibling_def min_def p [symmetric])
    next
      case no: False
      then have qb: "q = b" using ev False bq by simp
      then have "r < (b + 1) * p" using rq by simp
      then have a: "\<not> (b + 1) * p < length xs" "2 * r + 1 \<le> opposite" using n ev p0 by (auto simp: o)
      then show ?thesis using ev qb len by (simp add: read_sibling_def sibling_def p [symmetric])
    qed
  qed
qed

text \<open>The state of the iterator at level \<open>j\<close>, for leaf \<open>i\<close> of \<open>r + 1\<close>.\<close>

definition level_state :: "nat \<Rightarrow> nat \<Rightarrow> nat \<Rightarrow> proof_state" where
  "level_state j i r =
     (2 * (i div 2 ^ j * 2 ^ j) + 2 ^ j - 1, 2 * (r div 2 ^ j * 2 ^ j) + 2 ^ j - 1,
      2 * (r div 2 ^ j * 2 ^ j) + root_pos (r mod 2 ^ j + 1), 2 ^ j, i div 2 ^ j, r div 2 ^ j)"

lemma level_up:
  fixes j :: nat
  assumes p: "p = 2 ^ j" and b: "b = i div p"
  shows "i div 2 ^ Suc j = b div 2"
    and "2 * (i div 2 ^ Suc j * 2 ^ Suc j) + 2 ^ Suc j - 1 = (if even b then 2 * (b * p) + p - 1 + p else 2 * (b * p) + p - 1 - p)"
    and "odd b \<Longrightarrow> 2 * (b * p) + p - 1 - p = 2 * (i div 2 ^ Suc j * 2 ^ Suc j) + root_pos (i mod 2 ^ Suc j + 1)"
    and "even b \<Longrightarrow> i mod 2 ^ Suc j = i mod p \<and> i div 2 ^ Suc j * 2 ^ Suc j = b * p"
proof -
  have p0: "0 < p" and p2: "2 ^ Suc j = 2 * p" by (simp_all add: p)
  show d: "i div 2 ^ Suc j = b div 2" unfolding b p power_Suc2 by (rule div_mult2_eq)
  have m: "i mod 2 ^ Suc j = i mod p + p * (b mod 2)" unfolding b p power_Suc2 by (subst mod_mult2_eq) simp
  have e: "i div 2 ^ Suc j * 2 ^ Suc j = (2 * (b div 2)) * p" unfolding d by (simp add: p)
  show ev: "i mod 2 ^ Suc j = i mod p \<and> i div 2 ^ Suc j * 2 ^ Suc j = b * p" if "even b" using that unfolding e m by auto
  have od: "i div 2 ^ Suc j * 2 ^ Suc j + p = b * p" if "odd b" using that unfolding e by (elim oddE) simp
  show "2 * (i div 2 ^ Suc j * 2 ^ Suc j) + 2 ^ Suc j - 1 = (if even b then 2 * (b * p) + p - 1 + p else 2 * (b * p) + p - 1 - p)"
  proof (cases "even b")
    case True
    then have "2 * (i div 2 ^ Suc j * 2 ^ Suc j) = 2 * (b * p)" using ev by simp
    then show ?thesis unfolding if_P [OF True] using p0 p2 by linarith
  next
    case False
    then have "2 * (b * p) = 2 * (i div 2 ^ Suc j * 2 ^ Suc j) + 2 * p" using od by simp
    then show ?thesis unfolding if_not_P [OF False] using p0 p2 by linarith
  qed
  show "2 * (b * p) + p - 1 - p = 2 * (i div 2 ^ Suc j * 2 ^ Suc j) + root_pos (i mod 2 ^ Suc j + 1)" if "odd b"
  proof -
    have "i mod p < p" using p0 by simp
    moreover have mm: "i mod 2 ^ Suc j + 1 = p + (i mod p + 1)" using that m by (simp add: odd_iff_mod_2_eq_one)
    ultimately have "split_pow (i mod 2 ^ Suc j + 1) = p" unfolding mm p by (intro split_pow_eq) (simp_all add: Suc_le_eq)
    then have "root_pos (i mod 2 ^ Suc j + 1) = 2 * p - 1" unfolding root_pos_def using mm p0 by simp
    moreover have "2 * (b * p) = 2 * (i div 2 ^ Suc j * 2 ^ Suc j) + 2 * p" using od [OF that] by simp
    ultimately show ?thesis using p0 by simp
  qed
qed

lemma proof_turn_eq:
  assumes "\<not> (odd dm \<and> cur < 2 * w \<or> odd cm \<and> cc < w)" and "opposite = (if even dm then cur + w + w else cur - w - w)"
    and "\<not> (odd cm \<and> length ns \<le> min opposite clamp)"
  shows "proof_turn ns (cur, cc, clamp, w, dm, cm) =
    Done (read_sibling ns cm opposite clamp, if even dm then cur + w else cur - w, if even cm then cc + w else cc - w,
      if even cm then clamp else cc - w, 2 * w, dm div 2, cm div 2)"
proof -
  have "opposite = (if even dm then (if even dm then cur + w else cur - w) + w else (if even dm then cur + w else cur - w) - w)"
    using assms(2) by simp
  then show ?thesis using assms(1,3) unfolding proof_turn_def prod.case Let_def read_sibling_def by simp
qed

lemma proof_turn_ok:
  assumes i: "i < length xs" and r: "r = length xs - 1"
  shows "proof_turn (layout c xs) (level_state j i r) = Done (sibling c j (i div 2 ^ j) xs, level_state (Suc j) i r)"
proof -
  define p where "p = (2 :: nat) ^ j"
  define b q where "b = i div p" and "q = r div p"
  define opposite where "opposite = 2 * ((if even b then b + 1 else b - 1) * p) + (p - 1)"
  define clamp where "clamp = 2 * (q * p) + root_pos (r mod p + 1)"
  have p0: "0 < p" by (simp add: p_def)
  have rs: "read_sibling (layout c xs) q opposite clamp = sibling c j b xs" "odd q \<longrightarrow> min opposite clamp < 2 * length xs - 1"
    using read_sibling_ok [OF i p_def r b_def q_def opposite_def clamp_def] by auto
  have len: "length (layout c xs) = 2 * length xs - 1" using i by (intro length_layout) auto
  have st: "level_state j i r = (2 * (b * p) + p - 1, 2 * (q * p) + p - 1, clamp, p, b, q)"
    by (simp add: level_state_def b_def q_def clamp_def p_def)
  have bp: "p \<le> b * p" if "odd b" using that by (cases b) auto
  have qp: "p \<le> q * p" if "odd q" using that by (cases q) auto
  have opp: "(if even b then 2 * (b * p) + p - 1 + p + p else 2 * (b * p) + p - 1 - p - p) = opposite"
  proof (cases "even b")
    case False
    then obtain a where "b = a + 1" by (cases b) auto
    then show ?thesis using False p0 by (simp add: opposite_def)
  qed (use p0 in \<open>simp add: opposite_def\<close>)
  have up: "level_state (Suc j) i r =
      (if even b then 2 * (b * p) + p - 1 + p else 2 * (b * p) + p - 1 - p, if even q then 2 * (q * p) + p - 1 + p else 2 * (q * p) + p - 1 - p,
       if even q then clamp else 2 * (q * p) + p - 1 - p, 2 * p, b div 2, q div 2)"
    using level_up [OF p_def b_def] level_up [OF p_def q_def] unfolding level_state_def
    by (auto simp: clamp_def p_def simp del: power_Suc) (simp_all add: p_def)
  have "\<not> (odd b \<and> 2 * (b * p) + p - 1 < 2 * p)" using bp p0 by linarith
  moreover have "\<not> (odd q \<and> 2 * (q * p) + p - 1 < p)" using qp p0 by linarith
  moreover have "\<not> (odd q \<and> length (layout c xs) \<le> min opposite clamp)" using rs(2) len by auto
  ultimately have "proof_turn (layout c xs) (level_state j i r) = Done (read_sibling (layout c xs) q opposite clamp, level_state (Suc j) i r)"
    unfolding st up using opp by (intro proof_turn_eq) simp_all
  then show ?thesis using rs(1) by (simp add: b_def p_def)
qed


lemma proof_loop_ok:
  assumes i: "i < length xs" and r: "r = length xs - 1"
  shows "\<exists>rest. proof_loop (layout c xs) fuel (level_state j i r) = Done rest \<and>
    audit_path c (i mod 2 ^ (j + fuel)) (blk (j + fuel) (i div 2 ^ (j + fuel)) xs) =
      audit_path c (i mod 2 ^ j) (blk j (i div 2 ^ j) xs) @ rest"
proof (induction fuel arbitrary: j)
  case (Suc fuel)
  from Suc [of "Suc j"] obtain rest where
    rest: "proof_loop (layout c xs) fuel (level_state (Suc j) i r) = Done rest" and
    path: "audit_path c (i mod 2 ^ (j + Suc fuel)) (blk (j + Suc fuel) (i div 2 ^ (j + Suc fuel)) xs) =
      audit_path c (i mod 2 ^ Suc j) (blk (Suc j) (i div 2 ^ Suc j) xs) @ rest" by (auto simp del: power_Suc)
  show ?case unfolding path path_step [OF i] proof_loop.simps proof_turn_ok [OF i r]
    by (auto simp: rest simp del: power_Suc split: option.splits)
qed simp

lemma merkle_proof_ok:
  assumes "i < length xs"
  shows "merkle_proof \<lparr>nodes = layout c xs\<rparr> (2 * i) = Done (audit_path c i xs)"
proof -
  let ?r = "length xs - 1"
  have len: "length (layout c xs) = 2 * ?r + 1" using assms by (subst length_layout) auto
  let ?f = "ilog2 (2 * ?r + 1)"
  have n: "length xs \<le> 2 ^ ?f" using ilog2_bounds [of "2 * ?r + 1"] unfolding power_Suc by linarith
  from proof_loop_ok [OF assms refl, of c ?f 0] obtain rest where
    rest: "proof_loop (layout c xs) ?f (level_state 0 i ?r) = Done rest" and
    path: "audit_path c (i mod 2 ^ ?f) (blk ?f (i div 2 ^ ?f) xs) = audit_path c 0 (blk 0 i xs) @ rest" by auto
  have "audit_path c 0 (blk 0 i xs) = []" by (simp add: audit_path.simps blk_def)
  moreover have "i mod 2 ^ ?f = i" "i div 2 ^ ?f = 0" using n assms by simp_all
  ultimately have "audit_path c i xs = rest" using path n by (simp add: blk_def)
  moreover have "level_state 0 i ?r = (2 * i, 2 * ?r, 2 * ?r, 1, i, ?r)" by (simp add: level_state_def root_pos_def)
  ultimately show ?thesis using rest unfolding merkle_proof_def Let_def select_convs len by simp
qed

lemma root_from_audit_path: "i < length xs \<Longrightarrow> root_from c (length xs) i (xs ! i) (audit_path c i xs) = mth c xs"
proof (induction c i xs rule: audit_path.induct)
  case (1 c i xs)
  show ?case
  proof (cases "length xs \<le> 1")
    case True
    then show ?thesis using "1.prems" by (cases xs) (auto simp: root_from.simps)
  next
    case False
    define m where "m = split_pow (length xs)"
    have m: "0 < m" "m < length xs" using False by (simp_all add: m_def)
    have e: "mth c xs = c (mth c (take m xs)) (mth c (drop m xs))" using False unfolding m_def by (subst mth.simps) simp
    show ?thesis
    proof (cases "i < m")
      case True
      then have "root_from c m i (xs ! i) (audit_path c i (take m xs)) = mth c (take m xs)"
        using "1.IH"(1) [OF refl False] m unfolding m_def [symmetric] by simp
      then show ?thesis using False True unfolding root_from.simps [of c "length xs"] audit_path.simps [of c i xs] Let_def m_def [symmetric] e by simp
    next
      case ge: False
      then have "root_from c (length xs - m) (i - m) (xs ! i) (audit_path c (i - m) (drop m xs)) = mth c (drop m xs)"
        using "1.IH"(2) [OF refl False] "1.prems" m unfolding m_def [symmetric] by simp
      then show ?thesis using False ge unfolding root_from.simps [of c "length xs"] audit_path.simps [of c i xs] Let_def m_def [symmetric] e by simp
    qed
  qed
qed

lemma merkle_root_ok:
  assumes "xs \<noteq> []"
  shows "merkle_root \<lparr>nodes = layout c xs\<rparr> = (if length xs = 1 then Panic else Done (mth c xs))"
proof (cases "length xs = 1")
  case True
  then show ?thesis by (simp add: merkle_root_def next_power_of_two_def length_layout [OF assms])
next
  case False
  then have n: "2 \<le> length xs" using assms by (cases xs) (auto simp: Suc_le_eq)
  then obtain k where k: "length xs = Suc (Suc k)" by (metis Suc_1 add_2_eq_Suc le_Suc_ex)
  have "ilog2 (2 * length xs - 1 - 1) = Suc (ilog2 (length xs - 1))" unfolding k by (subst ilog2.simps) simp
  then have "next_power_of_two (2 * length xs - 1) div 2 - 1 = root_pos (length xs)" "next_power_of_two (2 * length xs - 1) div 2 \<noteq> 0"
    using n by (simp_all add: next_power_of_two_def root_pos_def split_pow_def)
  moreover have "root_pos (length xs) < 2 * length xs - 1"
    using root_pos_le [of "length xs" "length xs"] less_exp [of "length xs"] n by linarith
  ultimately show ?thesis using False layout_root [OF assms] unfolding merkle_root_def Let_def select_convs length_layout [OF assms] by simp
qed

subsection \<open>Building a tree at once\<close>

lemma length_intersperse: "length (intersperse d xs) = 2 * length xs - 1"
  by (induction d xs rule: intersperse.induct) auto

lemma intersperse_append: "xs \<noteq> [] \<Longrightarrow> ys \<noteq> [] \<Longrightarrow> intersperse d (xs @ ys) = intersperse d xs @ [d] @ intersperse d ys"
proof (induction d xs rule: intersperse.induct)
  case (2 d x)
  then show ?case by (cases ys) auto
qed auto

lemma comute_recur_pow: "length xs = 2 ^ j \<Longrightarrow> comute_recur c (intersperse d xs) = Done (mth c xs, layout c xs)"
proof (induction j arbitrary: xs)
  case 0
  then obtain x where "xs = [x]" by (cases xs) auto
  then show ?case by (simp add: comute_recur.simps)
next
  case (Suc j)
  define ls rs where "ls = take (2 ^ j) xs" and "rs = drop (2 ^ j) xs"
  have l: "length ls = 2 ^ j" "length rs = 2 ^ j" "xs = ls @ rs" using Suc.prems by (simp_all add: ls_def rs_def)
  then have ne: "ls \<noteq> []" "rs \<noteq> []" by auto
  have i: "intersperse d xs = intersperse d ls @ [d] @ intersperse d rs" unfolding l(3) using ne by (rule intersperse_append)
  have h: "length (intersperse d ls) = 2 * 2 ^ j - 1" "length (intersperse d rs) = 2 * 2 ^ j - 1" using l by (simp_all add: length_intersperse)
  have p: "(0 :: nat) < 2 ^ j" by simp
  have "length (intersperse d xs) = 2 * (2 * 2 ^ j - 1) + 1" unfolding i length_append h list.size using p by linarith
  then have mid: "length (intersperse d xs) div 2 = length (intersperse d ls)" and "length (intersperse d xs) \<noteq> 1" using h p by (simp, linarith)
  then have "comute_recur c (intersperse d xs) = Done (c (mth c ls) (mth c rs), layout c ls @ [c (mth c ls) (mth c rs)] @ layout c rs)"
    using Suc.IH [OF l(1)] Suc.IH [OF l(2)] unfolding comute_recur.simps [of c "intersperse d xs"] mid by (auto simp: i)
  then show ?case using layout_append(1,2) [of ls j rs c] l ne by simp
qed

lemma comute_recur_done: "comute_recur c ns = Done v \<Longrightarrow> \<exists>j. length ns + 1 = 2 ^ Suc j"
proof (induction c ns arbitrary: v rule: comute_recur.induct)
  case (1 c ns)
  show ?case
  proof (cases "length ns = 1")
    case True
    then show ?thesis by (intro exI [of _ 0]) simp
  next
    case False
    obtain x right where d: "drop (length ns div 2) ns = x # right"
      using "1.prems" False by (subst (asm) comute_recur.simps) (auto split: list.splits)
    from "1.prems" obtain l r where lr: "comute_recur c (take (length ns div 2) ns) = Done l" "comute_recur c right = Done r"
      using False by (subst (asm) comute_recur.simps) (auto simp: d run_bind_Done_iff)
    obtain a b where ab: "length ns div 2 + 1 = 2 ^ Suc a" "length right + 1 = 2 ^ Suc b"
      using "1.IH"(1) [OF False d lr(1)] "1.IH"(2) [OF False d lr(2)] by auto
    have "length (drop (length ns div 2) ns) = length right + 1" unfolding d by simp
    then have "length ns = length ns div 2 + (length right + 1)" by simp
    moreover have "even (length ns div 2 + 1)" "even (length right + 1)" unfolding ab by simp_all
    ultimately have "length ns + 1 = 2 * (length ns div 2 + 1)" by presburger
    then show ?thesis unfolding ab by (intro exI [of _ "Suc a"]) simp
  qed
qed


subsection \<open>The properties\<close>

text \<open>Appending a list of leaves.\<close>

primrec psuh_all :: "('h \<Rightarrow> 'h \<Rightarrow> 'h) \<Rightarrow> 'h \<Rightarrow> 'h list \<Rightarrow> 'h merkle_tree \<Rightarrow> 'h merkle_tree run" where
  "psuh_all c d [] t = Done t"
| "psuh_all c d (v # vs) t = run_bind (psuh c d v t) (psuh_all c d vs)"

lemma psuh_all_layout: "xs \<noteq> [] \<Longrightarrow> psuh_all c d vs \<lparr>nodes = layout c xs\<rparr> = Done \<lparr>nodes = layout c (xs @ vs)\<rparr>"
  by (induction vs arbitrary: xs) (simp_all add: psuh_layout)

lemma psuh_all_new: "psuh_all c d vs (merkle_new x) = Done \<lparr>nodes = layout c (x # vs)\<rparr>"
  using psuh_all_layout [of "[x]" c d vs] by (simp add: merkle_new_def)

text \<open>C30: the incremental tree implements the recursive one. A tree started (or cleared) with one leaf and extended
  by any further leaves with \<open>psuh\<close> never runs out of range, its node vector is the in-order layout of the specified tree,
  and \<open>root\<close> returns the specified root hash; only on the tree of a single leaf \<open>root\<close> panics.\<close>

theorem pushes_refine_tree:
  "psuh_all c d vs (merkle_clear x t) = psuh_all c d vs (merkle_new x) \<and>
   psuh_all c d vs (merkle_new x) = Done \<lparr>nodes = layout c (x # vs)\<rparr> \<and>
   run_bind (psuh_all c d vs (merkle_new x)) merkle_root = (if vs = [] then Panic else Done (mth c (x # vs)))"
proof -
  have "merkle_clear x t = merkle_new x" by (simp add: merkle_clear_def merkle_new_def)
  then show ?thesis using merkle_root_ok [of "x # vs" c] by (simp add: psuh_all_new)
qed

text \<open>C31: for every leaf of a tree built by \<open>psuh\<close>, \<open>proof\<close> at the leaf's place (the even indices) yields exactly
  the siblings on the way to the root, nearest first, and combining the leaf with them gives the root that \<open>root\<close> returns.\<close>

theorem proofs_are_audit_paths:
  assumes "psuh_all c d vs (merkle_new x) = Done t" and "vs \<noteq> []" and "i < length (x # vs)"
  shows "\<exists>path root. merkle_proof t (2 * i) = Done path \<and> path = audit_path c i (x # vs) \<and> merkle_root t = Done root \<and>
    nodes t ! (2 * i) = (x # vs) ! i \<and> root_from c (length (x # vs)) i ((x # vs) ! i) path = root"
proof -
  have t: "t = \<lparr>nodes = layout c (x # vs)\<rparr>" using assms(1) by (simp add: psuh_all_new)
  have "blk 0 i (x # vs) = [(x # vs) ! i]" using assms(3) unfolding blk_def by (simp add: take_Suc hd_drop_conv_nth del: drop_Suc_Cons)
  then have "layout c (x # vs) ! (2 * i) = (x # vs) ! i" using block_root [of i 0 "x # vs" c] assms(3) by (simp add: root_pos_def)
  then show ?thesis unfolding t using merkle_proof_ok [OF assms(3), of c] merkle_root_ok [of "x # vs" c] root_from_audit_path [OF assms(3), of c] assms(2)
    by simp
qed

theorem proofs_are_audit_paths_witness:
  "\<exists>t path root. psuh_all (+) 0 [2, 3] (merkle_new (1 :: nat)) = Done t \<and> merkle_proof t (2 * 2) = Done path \<and>
     path = audit_path (+) 2 [1, 2, 3] \<and> merkle_root t = Done root \<and> nodes t ! (2 * 2) = [1, 2, 3] ! 2 \<and>
     root_from (+) (length [1, 2, 3 :: nat]) 2 ([1, 2, 3] ! 2) path = root"
  using proofs_are_audit_paths [OF psuh_all_new [of "(+)" 0 "[2, 3]" "1 :: nat"], of 2] psuh_all_new [of "(+)" 0 "[2, 3]" "1 :: nat"] by auto

text \<open>\<open>from_base\<close> halves the whole node vector, so it builds the same tree as appending the leaves one by one exactly
  when the number of leaves is a power of two, and panics for every other number, the empty base included.\<close>

theorem from_base_cases:
  "from_base c d [] = Panic \<and>
   from_base c d (x # vs) = (if \<exists>j. length (x # vs) = 2 ^ j then psuh_all c d vs (merkle_new x) else Panic)"
proof -
  have no: "from_base c d xs = Panic" if "\<nexists>j. length xs = 2 ^ j" for xs
  proof (cases "comute_recur c (intersperse d xs)")
    case (Done v)
    then obtain j where "2 * length xs - 1 + 1 = 2 ^ Suc j" using comute_recur_done [OF Done] by (auto simp: length_intersperse)
    then have "length xs = 2 ^ j" by (cases "length xs") auto
    then show ?thesis using that by blast
  qed (simp add: from_base_def)
  have "from_base c d xs = Done \<lparr>nodes = layout c xs\<rparr>" if "length xs = 2 ^ j" for j xs
    using comute_recur_pow [OF that, of c d] by (simp add: from_base_def)
  then show ?thesis using no [of "[]"] no [of "x # vs"] unfolding psuh_all_new by auto
qed

end
