(* ===== verification/Onion.thy ===== *)
theory Onion
  imports Crypto Packets
begin

section \<open>Onion packets (\<open>core/onion/src/packet.rs\<close>, \<open>handler.rs\<close>)\<close>

text \<open>
  A client reaches a node through relays: the first packet wraps the encapsulation for the recipient in one layer of encryption
  per relay, each naming the peer to forward to; a relay peels its layer off. The theory models the packets
  and the two ends of the handshake (\<open>upgrade_outbound\<close>, \<open>upgrade_inbound\<close>), and shows that the packet travels the
  path it was built for and leaves client and recipient with the same secret. The primitives are those of the
  cryptography theory; the byte form of peer ids belongs to libp2p and is the record \<open>peer_wire\<close>. A stream of
  a handshake is the pieces it will deliver and the room for what is written.
\<close>

subsection \<open>Keys and ciphertexts as bytes (\<open>impl_transmute!\<close>)\<close>

definition KYBER_PUBLICKEYBYTES :: nat where
  "KYBER_PUBLICKEYBYTES = 1184"

definition KYBER_CIPHERTEXTBYTES :: nat where
  "KYBER_CIPHERTEXTBYTES = 1088"

definition X25519_BYTES :: nat where
  "X25519_BYTES = 32"

text \<open>The structs consist of byte arrays, so their memory is the arrays one after the other.\<close>

definition PKS :: nat where
  "PKS = KYBER_PUBLICKEYBYTES + X25519_BYTES"

definition CS :: nat where
  "CS = KYBER_CIPHERTEXTBYTES + X25519_BYTES"

definition pk_into_bytes :: "enc_public_key \<Rightarrow> bytes" where
  "pk_into_bytes key = ep_post key @ ep_pre key"

definition pk_from_bytes :: "bytes \<Rightarrow> enc_public_key" where
  "pk_from_bytes bs = \<lparr>ep_post = take KYBER_PUBLICKEYBYTES bs, ep_pre = drop KYBER_PUBLICKEYBYTES bs\<rparr>"

definition ct_into_bytes :: "ciphertext \<Rightarrow> bytes" where
  "ct_into_bytes ct = ct_pl ct @ ct_x ct"

definition ct_from_bytes :: "bytes \<Rightarrow> ciphertext" where
  "ct_from_bytes bs = \<lparr>ct_pl = take KYBER_CIPHERTEXTBYTES bs, ct_x = drop KYBER_CIPHERTEXTBYTES bs\<rparr>"

subsection \<open>Packets\<close>

text \<open>\<open>Multihash::write\<close> of a peer id, \<open>PeerId::from_bytes\<close>, and the associated data with the version of the crate.\<close>

record 'peer peer_wire =
  mh_write :: "'peer \<Rightarrow> bytes"
  peer_from_bytes :: "bytes \<Rightarrow> 'peer option"
  asoc_data :: bytes

definition CONFIRM_PACKET_SIZE :: nat where
  "CONFIRM_PACKET_SIZE = TAG_SIZE + NONCE_SIZE"

definition PACKET_OK :: u8 where
  "PACKET_OK = 0"

definition MISSING_PEER :: u8 where
  "MISSING_PEER = 1"

definition OCCUPIED_PEER :: u8 where
  "OCCUPIED_PEER = 2"

definition PATH_LEN :: nat where
  "PATH_LEN = 2"

text \<open>\<open>write_confirm\<close> fills its buffer, of tag and nonce size, whole.\<close>

definition write_confirm :: "crypto_lib \<Rightarrow> 'peer peer_wire \<Rightarrow> bytes \<Rightarrow> bytes \<Rightarrow> bytes" where
  "write_confirm L W key nonce = snd (aes_encrypt L key nonce (asoc_data W) []) @ nonce"

text \<open>Decryption in place: the length of the plain text and the new buffer.\<close>

definition peel_wih_key :: "crypto_lib \<Rightarrow> 'peer peer_wire \<Rightarrow> bytes \<Rightarrow> bytes \<Rightarrow> (nat \<times> bytes) option" where
  "peel_wih_key L W key buf =
     (if length buf < TAG_SIZE + NONCE_SIZE then None
      else let nonce = drop (length buf - NONCE_SIZE) buf; buf1 = take (length buf - NONCE_SIZE) buf;
               tag = drop (length buf1 - TAG_SIZE) buf1; buf2 = take (length buf1 - TAG_SIZE) buf1 in
           case aes_decrypt L key nonce (asoc_data W) buf2 tag of
             None \<Rightarrow> None
           | Some plain \<Rightarrow> Some (length buf2, plain @ tag @ nonce))"

definition verify_confirm :: "crypto_lib \<Rightarrow> 'peer peer_wire \<Rightarrow> bytes \<Rightarrow> bytes \<Rightarrow> bool" where
  "verify_confirm L W key buf = (peel_wih_key L W key buf \<noteq> None)"

definition wrap :: "crypto_lib \<Rightarrow> 'peer peer_wire \<Rightarrow> enc_keypair \<Rightarrow> enc_public_key \<Rightarrow> bytes \<times> bytes \<Rightarrow> bytes \<Rightarrow> bytes" where
  "wrap L W client_kp sender rand buf =
     (let (seed, nonce) = rand;
          (cp, key) = encapsulate L client_kp sender seed;
          (buf', tag) = aes_encrypt L key nonce (asoc_data W) buf in
      buf' @ tag @ nonce @ ct_into_bytes cp)"

fun wrap_path :: "crypto_lib \<Rightarrow> 'peer peer_wire \<Rightarrow> enc_keypair \<Rightarrow> ((enc_public_key \<times> 'peer) \<times> bytes \<times> bytes) list \<Rightarrow> bytes \<Rightarrow> bytes" where
  "wrap_path L W client_kp [] buf = buf"
| "wrap_path L W client_kp (((key, peer), rand) # path) buf =
     (let mh = mh_write W peer in
      wrap_path L W client_kp path (wrap L W client_kp key rand (buf @ mh @ [of_nat (length mh)])))"

text \<open>The random bytes of the encapsulation for the recipient, then of each layer, are arguments.\<close>

definition new_initial :: "crypto_lib \<Rightarrow> 'peer peer_wire \<Rightarrow> enc_public_key \<Rightarrow> (enc_public_key \<times> 'peer) list \<Rightarrow> enc_keypair \<Rightarrow>
    bytes \<Rightarrow> (bytes \<times> bytes) list \<Rightarrow> bytes \<Rightarrow> bytes \<times> bytes" where
  "new_initial L W recipient path client_kp seed rands buf =
     (let (cp, key) = encapsulate L client_kp recipient seed in
      (wrap_path L W client_kp (zip path rands) (buf @ ct_into_bytes cp) @ pk_into_bytes (enc_public L client_kp), key))"

text \<open>The peer to forward to (none for the recipient), the secret, the length of what is left and the new buffer.\<close>

definition peel_initial :: "crypto_lib \<Rightarrow> 'peer peer_wire \<Rightarrow> enc_keypair \<Rightarrow> bytes \<Rightarrow> ('peer option \<times> bytes \<times> nat \<times> bytes) option run" where
  "peel_initial L W node_kp original =
     (if length original < PKS + CS then Done None
      else let buf = take (length original - PKS) original; sender = pk_from_bytes (drop (length original - PKS) original);
               ct = ct_from_bytes (drop (length buf - CS) buf); body = take (length buf - CS) buf in
        case decapsulate L node_kp ct of
          Inl _ \<Rightarrow> Done None
        | Inr ss \<Rightarrow>
            if body = [] then Done (Some (None, ss, 0, original))
            else case peel_wih_key L W ss body of
              None \<Rightarrow> Done None
            | Some (packet_len, body') \<Rightarrow>
                let plain = take packet_len body'; original' = body' @ drop (length body') original in
                if plain = [] then Done None
                else let len = unat (last plain); plain' = butlast plain in
                  if length plain' < len then Panic
                  else case peer_from_bytes W (drop (length plain' - len) plain') of
                    None \<Rightarrow> Done None
                  | Some peer \<Rightarrow> let n = length plain' - len in
                      Done (Some (Some peer, ss, n + PKS, fill original' n (pk_into_bytes sender))))"

subsection \<open>The handshake\<close>

record handshake =
  hs_in :: "bytes list"
  hs_room :: nat
  hs_out :: bytes

text \<open>\<open>write_all\<close>, \<open>read_exact\<close>, which collects pieces, and \<open>read\<close>, which takes what one piece has and leaves the rest of the buffer.\<close>

definition write_all :: "bytes \<Rightarrow> handshake \<Rightarrow> handshake option" where
  "write_all bs s = (if length bs \<le> hs_room s then Some (s\<lparr>hs_room := hs_room s - length bs, hs_out := hs_out s @ bs\<rparr>) else None)"

fun take_pieces :: "nat \<Rightarrow> bytes list \<Rightarrow> (bytes \<times> bytes list) option" where
  "take_pieces n pieces =
     (if n = 0 then Some ([], pieces)
      else case pieces of
        [] \<Rightarrow> None
      | p # ps \<Rightarrow> if p = [] then None
          else if n < length p then Some (take n p, drop n p # ps)
          else map_option (map_prod ((@) p) (\<lambda>x. x)) (take_pieces (n - length p) ps))"

declare take_pieces.simps [simp del]

definition read_exact :: "nat \<Rightarrow> handshake \<Rightarrow> (bytes \<times> handshake) option" where
  "read_exact n s = map_option (\<lambda>(bs, rest). (bs, s\<lparr>hs_in := rest\<rparr>)) (take_pieces n (hs_in s))"

definition read_some :: "bytes \<Rightarrow> handshake \<Rightarrow> bytes \<times> handshake" where
  "read_some buf s =
     (case hs_in s of
        [] \<Rightarrow> (buf, s)
      | p # ps \<Rightarrow> (fill buf 0 (take (length buf) p), s\<lparr>hs_in := (if length p \<le> length buf then ps else drop (length buf) p # ps)\<rparr>))"

datatype iupgrade_error = IMalformedPacket | WriteKeyPacket | ReadPacketLength | IReadPacket | WriteAuthPacket

datatype oupgrade_error = MissingPeer | OccupiedPeer | MalformedPacket | AuthenticationFailed | UnknownPacketKind u8
  | WritePacketLength | WritePacket | ReadPacketKind | OReadPacket

record 'peer incoming_meta =
  im_to :: 'peer
  im_buffer :: bytes
  im_path_id :: nat

record 'peer stream_request =
  sr_to :: 'peer
  sr_path_id :: nat
  sr_recipient :: enc_public_key
  sr_path :: "(enc_public_key \<times> 'peer) list"

datatype 'peer inbound = KeySent | Incoming "'peer incoming_meta" | Response bytes

definition upgrade_inbound :: "crypto_lib \<Rightarrow> 'peer peer_wire \<Rightarrow> enc_keypair \<Rightarrow> bool \<Rightarrow> bytes \<Rightarrow> nat \<Rightarrow> handshake \<Rightarrow>
    (iupgrade_error + 'peer inbound \<times> handshake) run" where
  "upgrade_inbound L W keypair key_share nonce fresh s =
     (if key_share then
        (case write_all (pk_into_bytes (enc_public L keypair)) s of
           None \<Rightarrow> Done (Inl WriteKeyPacket) | Some s \<Rightarrow> Done (Inr (KeySent, s)))
      else case read_exact 2 s of
        None \<Rightarrow> Done (Inl ReadPacketLength)
      | Some (lenb, s) \<Rightarrow>
          (case read_exact (decode_len (lenb ! 0) (lenb ! 1)) s of
             None \<Rightarrow> Done (Inl IReadPacket)
           | Some (buf, s) \<Rightarrow>
               run_bind (peel_initial L W keypair buf) (\<lambda>r. case r of
                 None \<Rightarrow> Done (Inl IMalformedPacket)
               | Some (None, ss, _, _) \<Rightarrow>
                   (case write_all (PACKET_OK # write_confirm L W ss nonce) s of
                      None \<Rightarrow> Done (Inl WriteAuthPacket) | Some s \<Rightarrow> Done (Inr (Response ss, s)))
               | Some (Some to, ss, new_len, buf) \<Rightarrow>
                   Done (Inr (Incoming \<lparr>im_to = to, im_buffer = take new_len buf, im_path_id = fresh\<rparr>, s)))))"

datatype 'peer channel_source = Relay nat | ThisNode bytes nat 'peer

text \<open>\<open>Inl\<close> forwards the packet of an incoming stream, \<open>Inr\<close> starts a path of this node.
  \<open>buffer.resize\<close> keeps the head of the packet that was sent.\<close>

definition resize :: "nat \<Rightarrow> bytes \<Rightarrow> bytes" where
  "resize n buf = take n buf @ replicate (n - length buf) 0"

definition upgrade_outbound :: "crypto_lib \<Rightarrow> 'peer peer_wire \<Rightarrow> enc_keypair \<Rightarrow> bytes \<Rightarrow> (bytes \<times> bytes) list \<Rightarrow>
    'peer incoming_meta + 'peer stream_request \<Rightarrow> handshake \<Rightarrow> oupgrade_error + 'peer channel_source \<times> handshake" where
  "upgrade_outbound L W keypair seed rands incoming s =
     (let (buf, ss) = (case incoming of
            Inr r \<Rightarrow> new_initial L W (sr_recipient r) (sr_path r) keypair seed rands []
          | Inl i \<Rightarrow> (im_buffer i, replicate 32 0)) in
      case write_all (encode_len (length buf)) s of
        None \<Rightarrow> Inl WritePacketLength
      | Some s \<Rightarrow> (case write_all buf s of
          None \<Rightarrow> Inl WritePacket
        | Some s \<Rightarrow> (case incoming of
            Inl i \<Rightarrow> Inr (Relay (im_path_id i), s)
          | Inr r \<Rightarrow> (case read_exact 1 s of
              None \<Rightarrow> Inl ReadPacketKind
            | Some (kind, s) \<Rightarrow>
                if kind ! 0 = PACKET_OK then
                  (case read_some (resize CONFIRM_PACKET_SIZE buf) s of (confirm, s) \<Rightarrow>
                    if verify_confirm L W ss confirm then Inr (ThisNode ss (sr_path_id r) (snd (sr_path r ! 0)), s)
                    else Inl AuthenticationFailed)
                else if kind ! 0 = MISSING_PEER then Inl MissingPeer
                else if kind ! 0 = OCCUPIED_PEER then Inl OccupiedPeer
                else Inl (UnknownPacketKind (kind ! 0))))))"

text \<open>\<open>open_path\<close> of \<open>behaviour.rs\<close>: the keys move one place along the path, so that each layer is encrypted for the
  node that forwards to the peer it names. The panic is the assertion on the path.\<close>

fun shift_keys :: "enc_public_key \<Rightarrow> (enc_public_key \<times> 'peer) list \<Rightarrow> enc_public_key \<times> (enc_public_key \<times> 'peer) list" where
  "shift_keys recipient [] = (recipient, [])"
| "shift_keys recipient ((key, peer) # path) =
     (let (k, path') = shift_keys recipient path in (key, (k, peer) # path'))"

fun neighbours_differ :: "(enc_public_key \<times> 'peer) list \<Rightarrow> bool" where
  "neighbours_differ ((_, a) # (k, b) # path) \<longleftrightarrow> a \<noteq> b \<and> neighbours_differ ((k, b) # path)"
| "neighbours_differ _ \<longleftrightarrow> True"

definition path_request :: "(enc_public_key \<times> 'peer) list \<Rightarrow> nat \<Rightarrow> 'peer stream_request run" where
  "path_request nodes fresh =
     (let path = butlast nodes; (recipient, to) = last nodes in
      if \<not> neighbours_differ path then Panic
      else let (recipient, path) = shift_keys recipient path in
        Done \<lparr>sr_to = to, sr_path_id = fresh, sr_recipient = recipient, sr_path = path\<rparr>)"


subsection \<open>What the packets rely on\<close>

text \<open>Beside correct primitives: encryption in place keeps the length, keys and ciphertexts have the sizes of their array types,
  peer ids are shorter than 256 bytes and are read back.\<close>

definition onion_correct :: "crypto_lib \<Rightarrow> 'peer peer_wire \<Rightarrow> bool" where
  "onion_correct L W \<longleftrightarrow> dh_correct L \<and> kyber_correct L \<and> aes_correct L \<and>
     (\<forall>key nonce asoc data. length (fst (aes_encrypt L key nonce asoc data)) = length data) \<and>
     (\<forall>k. length (kyber_public L k) = KYBER_PUBLICKEYBYTES) \<and> (\<forall>k. length (x_public L k) = X25519_BYTES) \<and>
     (\<forall>key seed. length (fst (kyber_enc L key seed)) = KYBER_CIPHERTEXTBYTES) \<and>
     (\<forall>p. length (mh_write W p) < 256 \<and> peer_from_bytes W (mh_write W p) = Some p)"

lemma onion_facts:
  assumes "onion_correct L W"
  shows "length (pk_into_bytes (enc_public L kp)) = PKS" "pk_from_bytes (pk_into_bytes (enc_public L kp)) = enc_public L kp"
    "length (ct_into_bytes (fst (encapsulate L kp key seed))) = CS"
    "ct_from_bytes (ct_into_bytes (fst (encapsulate L kp key seed))) = fst (encapsulate L kp key seed)"
    "decapsulate L bob (fst (encapsulate L alice (enc_public L bob) seed)) = Inr (snd (encapsulate L alice (enc_public L bob) seed))"
    "length (mh_write W p) < 256" "peer_from_bytes W (mh_write W p) = Some p"
  using assms decapsulate_encapsulate [of L bob alice seed]
  by (auto simp: onion_correct_def pk_into_bytes_def pk_from_bytes_def enc_public_def PKS_def ct_into_bytes_def ct_from_bytes_def
      encapsulate_def CS_def split_def Let_def)

lemma aes_facts:
  assumes "onion_correct L W" and "aes_encrypt L key nonce asoc data = (ct, tag)"
  shows "aes_decrypt L key nonce asoc ct tag = Some data" "length tag = TAG_SIZE" "length ct = length data"
proof -
  have "length (fst (aes_encrypt L key nonce asoc data)) = length data" using assms(1) by (simp add: onion_correct_def)
  then show "length ct = length data" using assms(2) by simp
  show "aes_decrypt L key nonce asoc ct tag = Some data" "length tag = TAG_SIZE"
    using assms unfolding onion_correct_def aes_correct_def by blast+
qed

lemma peel_sealed:
  assumes "onion_correct L W" and "aes_encrypt L key nonce (asoc_data W) data = (ct, tag)" and "length nonce = NONCE_SIZE"
  shows "peel_wih_key L W key (ct @ tag @ nonce) = Some (length data, data @ tag @ nonce)"
  using aes_facts [OF assms(1,2)] assms(3) by (simp add: peel_wih_key_def Let_def)

lemma confirm_verifies: "onion_correct L W \<Longrightarrow> length nonce = NONCE_SIZE \<Longrightarrow>
    verify_confirm L W key (write_confirm L W key nonce) \<and> length (write_confirm L W key nonce) = CONFIRM_PACKET_SIZE"
proof -
  assume a: "onion_correct L W" "length nonce = NONCE_SIZE"
  obtain ct tag where e: "aes_encrypt L key nonce (asoc_data W) [] = (ct, tag)" by fastforce
  have "ct = []" using aes_facts(3) [OF a(1) e] by simp
  then show ?thesis using peel_sealed [OF a(1) e a(2)] aes_facts(2) [OF a(1) e] a(2)
    by (simp add: verify_confirm_def write_confirm_def e CONFIRM_PACKET_SIZE_def)
qed

subsection \<open>Peeling undoes wrapping\<close>

lemma peel_recipient:
  assumes "onion_correct L W" and "encapsulate L client (enc_public L node) seed = (cp, key)"
  shows "peel_initial L W node (ct_into_bytes cp @ pk_into_bytes (enc_public L client)) =
    Done (Some (None, key, 0, ct_into_bytes cp @ pk_into_bytes (enc_public L client)))"
  using onion_facts(1,2) [OF assms(1), where kp = client] onion_facts(3,4) [OF assms(1), where kp = client and key = "enc_public L node" and seed = seed]
    onion_facts(5) [OF assms(1), where bob = node and alice = client and seed = seed] assms(2)
  by (simp add: peel_initial_def Let_def)

text \<open>A packet for a node around any plain text.\<close>

lemma peel_wrapped:
  assumes "onion_correct L W" and "length nonce = NONCE_SIZE" and "plain \<noteq> []"
  shows "\<exists>ss rest. peel_initial L W node (wrap L W client (enc_public L node) (seed, nonce) plain @ pk_into_bytes (enc_public L client)) =
    (let len = unat (last plain); n = length plain - 1 - len in
     if length plain - 1 < len then Panic
     else case peer_from_bytes W (drop n (butlast plain)) of
       None \<Rightarrow> Done None
     | Some peer \<Rightarrow> Done (Some (Some peer, ss, n + PKS, fill (plain @ rest) n (pk_into_bytes (enc_public L client)))))"
proof -
  define spk where "spk = pk_into_bytes (enc_public L client)"
  obtain cp key where e: "encapsulate L client (enc_public L node) seed = (cp, key)" by fastforce
  obtain ct tag where a: "aes_encrypt L key nonce (asoc_data W) plain = (ct, tag)" by fastforce
  define body where "body = ct @ tag @ nonce"
  have lens: "length (ct_into_bytes cp) = CS" "ct_from_bytes (ct_into_bytes cp) = cp" "decapsulate L node cp = Inr key"
    using onion_facts(3,4) [OF assms(1), where kp = client and key = "enc_public L node" and seed = seed]
      onion_facts(5) [OF assms(1), where bob = node and alice = client and seed = seed] e by simp_all
  have spk: "length spk = PKS" "pk_into_bytes (pk_from_bytes spk) = spk" using onion_facts(1,2) [OF assms(1), where kp = client] by (simp_all add: spk_def)
  have w: "wrap L W client (enc_public L node) (seed, nonce) plain @ spk = (body @ ct_into_bytes cp) @ spk" by (simp add: wrap_def e a body_def)
  have peel: "peel_wih_key L W key body = Some (length plain, plain @ tag @ nonce)" unfolding body_def by (rule peel_sealed [OF assms(1) a assms(2)])
  have b: "length (plain @ tag @ nonce) = length body" "body \<noteq> []" using aes_facts(3) [OF assms(1) a] assms(3) by (auto simp: body_def)
  let ?whole = "(body @ ct_into_bytes cp) @ spk"
  have parts: "take (length ?whole - PKS) ?whole = body @ ct_into_bytes cp" "drop (length ?whole - PKS) ?whole = spk"
    "take (length (body @ ct_into_bytes cp) - CS) (body @ ct_into_bytes cp) = body" "drop (length (body @ ct_into_bytes cp) - CS) (body @ ct_into_bytes cp) = ct_into_bytes cp"
    "\<not> length ?whole < PKS + CS" "take (length plain) (plain @ tag @ nonce) = plain"
    "drop (length (plain @ tag @ nonce)) ?whole = ct_into_bytes cp @ spk"
    using lens spk unfolding b(1) by simp_all
  have "peel_initial L W node ((body @ ct_into_bytes cp) @ spk) =
     (let len = unat (last plain); n = length plain - 1 - len in
     if length plain - 1 < len then Panic
     else case peer_from_bytes W (drop n (butlast plain)) of
       None \<Rightarrow> Done None
     | Some peer \<Rightarrow> Done (Some (Some peer, key, n + PKS, fill (plain @ (tag @ nonce @ ct_into_bytes cp @ spk)) n spk)))"
    using spk b(2) assms(3) lens peel unfolding peel_initial_def Let_def parts by (simp add: b(1) [unfolded length_append] split: option.split)
  then show ?thesis unfolding spk_def [symmetric] w by blast
qed

lemma peel_layer:
  assumes "onion_correct L W" and "length nonce = NONCE_SIZE"
  shows "\<exists>ss n buf'. peel_initial L W node
      (wrap L W client (enc_public L node) (seed, nonce) (buf @ mh_write W to @ [of_nat (length (mh_write W to))]) @ pk_into_bytes (enc_public L client)) =
        Done (Some (Some to, ss, n, buf')) \<and> take n buf' = buf @ pk_into_bytes (enc_public L client)"
proof -
  let ?plain = "buf @ mh_write W to @ [of_nat (length (mh_write W to))]"
  have mh: "unat (of_nat (length (mh_write W to)) :: u8) = length (mh_write W to)" "peer_from_bytes W (mh_write W to) = Some to"
    using onion_facts(6,7) [OF assms(1), where p = to] by (simp_all add: unat_of_nat)
  obtain ss rest where "peel_initial L W node (wrap L W client (enc_public L node) (seed, nonce) ?plain @ pk_into_bytes (enc_public L client)) =
      Done (Some (Some to, ss, length buf + PKS, fill (?plain @ rest) (length buf) (pk_into_bytes (enc_public L client))))"
    using peel_wrapped [OF assms, of ?plain node client seed] mh by (auto simp: butlast_append Let_def)
  moreover have "take (length buf + PKS) (fill (?plain @ rest) (length buf) (pk_into_bytes (enc_public L client))) = buf @ pk_into_bytes (enc_public L client)"
    using onion_facts(1) [OF assms(1), where kp = client] by (simp add: fill_def)
  ultimately show ?thesis by blast
qed

text \<open>The way of a packet: each node peels it and passes on what is left.\<close>

fun travel :: "crypto_lib \<Rightarrow> 'peer peer_wire \<Rightarrow> enc_keypair list \<Rightarrow> bytes \<Rightarrow> ('peer list \<times> bytes) option run" where
  "travel L W [] packet = Done None"
| "travel L W (node # rest) packet =
     run_bind (peel_initial L W node packet) (\<lambda>r. case r of
       None \<Rightarrow> Done None
     | Some (None, ss, _, _) \<Rightarrow> Done (Some ([], ss))
     | Some (Some to, _, n, buf) \<Rightarrow> run_bind (travel L W rest (take n buf)) (\<lambda>r. Done (map_option (\<lambda>(tos, ss). (to # tos, ss)) r)))"

lemma wrap_path_snoc: "wrap_path L W client (path @ [((key, peer), rand)]) buf =
    wrap L W client key rand (wrap_path L W client path buf @ mh_write W peer @ [of_nat (length (mh_write W peer))])"
  by (induction L W client path buf rule: wrap_path.induct) (simp_all add: Let_def)

lemma travel_path:
  assumes "onion_correct L W" and "encapsulate L client (enc_public L dest) seed = (cp, key)"
    and "length rands = length relays" and "list_all (\<lambda>(_, nonce). length nonce = NONCE_SIZE) rands"
  shows "travel L W (rev (map fst relays) @ [dest])
      (wrap_path L W client (zip (map (\<lambda>(kp, p). (enc_public L kp, p)) relays) rands) (ct_into_bytes cp) @ pk_into_bytes (enc_public L client)) =
    Done (Some (rev (map snd relays), key))"
  using assms(3,4)
proof (induction relays arbitrary: rands rule: rev_induct)
  case Nil
  then show ?case using peel_recipient [OF assms(1,2)] by simp
next
  case (snoc relay relays)
  obtain kp to where relay: "relay = (kp, to)" by fastforce
  obtain rands' s nonce where r: "rands = rands' @ [(s, nonce)]" "length rands' = length relays"
    using snoc.prems(1) by (cases rands rule: rev_cases) auto
  have ok: "list_all (\<lambda>(_, nonce). length nonce = NONCE_SIZE) rands'" "length nonce = NONCE_SIZE" using snoc.prems(2) r by auto
  let ?inner = "wrap_path L W client (zip (map (\<lambda>(kp, p). (enc_public L kp, p)) relays) rands') (ct_into_bytes cp)"
  obtain ss n buf' where "peel_initial L W kp (wrap L W client (enc_public L kp) (s, nonce) (?inner @ mh_write W to @ [of_nat (length (mh_write W to))]) @
      pk_into_bytes (enc_public L client)) = Done (Some (Some to, ss, n, buf'))" "take n buf' = ?inner @ pk_into_bytes (enc_public L client)"
    using peel_layer [OF assms(1) ok(2)] by blast
  then show ?case using snoc.IH [OF r(2) ok(1)] r by (simp add: relay wrap_path_snoc)
qed

lemma shift_keys_eq: "shift_keys k path = (fst (hd (path @ [(k, to)])), zip (map fst (tl (path @ [(k, to)]))) (map snd path))"
proof (induction path)
  case (Cons a path)
  then show ?case by (cases a; cases path) auto
qed simp

lemma path_request_eq:
  assumes "path_request nodes fresh = Done r" and "nodes \<noteq> []"
  shows "r = \<lparr>sr_to = snd (last nodes), sr_path_id = fresh, sr_recipient = fst (hd nodes), sr_path = zip (map fst (tl nodes)) (map snd (butlast nodes))\<rparr>"
proof -
  obtain path k to where n: "nodes = path @ [(k, to)]" using assms(2) by (cases nodes rule: rev_cases) auto
  show ?thesis using assms(1) shift_keys_eq [of k path to] by (auto simp: path_request_def n Let_def split: if_splits)
qed


subsection \<open>The two ends of the handshake\<close>

lemma take_pieces_concat:
  assumes "n \<le> length (concat pieces)" and "[] \<notin> set pieces"
  shows "\<exists>rest. take_pieces n pieces = Some (take n (concat pieces), rest) \<and> concat rest = drop n (concat pieces) \<and> [] \<notin> set rest"
  using assms
proof (induction n pieces rule: take_pieces.induct)
  case (1 n pieces)
  show ?case
  proof (cases "n = 0")
    case False
    then obtain p ps where p: "pieces = p # ps" "p \<noteq> []" using "1.prems" by (cases pieces) auto
    show ?thesis
    proof (cases "n < length p")
      case True
      then show ?thesis using False p "1.prems"(2) by (simp add: take_pieces.simps)
    next
      case big: False
      obtain rest where "take_pieces (n - length p) ps = Some (take (n - length p) (concat ps), rest)"
        "concat rest = drop (n - length p) (concat ps)" "[] \<notin> set rest"
        using "1.IH" [OF False p(1,2) big] "1.prems" p by fastforce
      then show ?thesis using False big p by (simp add: take_pieces.simps [of n])
    qed
  qed (use "1.prems"(2) in \<open>simp add: take_pieces.simps\<close>)
qed

lemma read_exact_all:
  assumes "concat (hs_in s) = xs @ ys" and "[] \<notin> set (hs_in s)"
  shows "\<exists>rest. read_exact (length xs) s = Some (xs, s\<lparr>hs_in := rest\<rparr>) \<and> concat rest = ys \<and> [] \<notin> set rest"
  using take_pieces_concat [of "length xs" "hs_in s"] assms by (auto simp: read_exact_def)

lemma decode_encode_len: "n < 65536 \<Longrightarrow> decode_len (encode_len n ! 0) (encode_len n ! 1) = n"
  by (simp add: decode_len_def encode_len_def u16_to_be_bytes_def unat_of_nat)

text \<open>The reading end, for a packet that comes in any pieces.\<close>

lemma inbound_reads:
  assumes "concat (hs_in s) = encode_len (length packet) @ packet" and "[] \<notin> set (hs_in s)" and "length packet < 65536"
  shows "upgrade_inbound L W kp False nonce fresh s = run_bind (peel_initial L W kp packet) (\<lambda>r. case r of
     None \<Rightarrow> Done (Inl IMalformedPacket)
   | Some (None, ss, _, _) \<Rightarrow> (case write_all (PACKET_OK # write_confirm L W ss nonce) (s\<lparr>hs_in := []\<rparr>) of
       None \<Rightarrow> Done (Inl WriteAuthPacket) | Some s \<Rightarrow> Done (Inr (Response ss, s)))
   | Some (Some to, ss, n, buf) \<Rightarrow> Done (Inr (Incoming \<lparr>im_to = to, im_buffer = take n buf, im_path_id = fresh\<rparr>, s\<lparr>hs_in := []\<rparr>)))"
proof -
  have l: "length (encode_len (length packet)) = 2" by (simp add: encode_len_def)
  obtain rest where r: "read_exact 2 s = Some (encode_len (length packet), s\<lparr>hs_in := rest\<rparr>)" "concat rest = packet" "[] \<notin> set rest"
    using read_exact_all [OF assms(1,2)] unfolding l by auto
  obtain rest' where r': "read_exact (length packet) (s\<lparr>hs_in := rest\<rparr>) = Some (packet, s\<lparr>hs_in := rest'\<rparr>)" "concat rest' = []" "[] \<notin> set rest'"
    using read_exact_all [of "s\<lparr>hs_in := rest\<rparr>" packet "[]"] r by auto
  have "rest' = []" using r'(2,3) by (cases rest') auto
  then show ?thesis unfolding upgrade_inbound_def using r(1) r'(1) decode_encode_len [OF assms(3)] by simp
qed

subsection \<open>Properties\<close>

text \<open>C23: an onion packet travels exactly the path it was built for. With primitives that work as documented, the request that
  \<open>open_path\<close> makes for any list of nodes (destination first, entry last) goes to the entry node; the packet \<open>new_initial\<close> builds for it, handed
  from node to node, names the next node of the path at every relay, and gives the destination, and it alone, the end of the path and the
  secret the client computed.\<close>

theorem onion_route_delivers:
  assumes "onion_correct L W" and "nodes \<noteq> []" and "path_request (map (\<lambda>(kp, p). (enc_public L kp, p)) nodes) fresh = Done r"
    and "length rands = length (sr_path r)" and "list_all (\<lambda>(_, nonce). length nonce = NONCE_SIZE) rands"
    and "new_initial L W (sr_recipient r) (sr_path r) client seed rands [] = (packet, key)"
  shows "sr_to r = snd (last nodes) \<and> travel L W (rev (map fst nodes)) packet = Done (Some (rev (map snd (butlast nodes)), key))"
proof -
  obtain dest p0 rest where n: "nodes = (dest, p0) # rest" using assms(2) by (cases nodes) auto
  define relays where "relays = zip (map fst rest) (map snd (butlast nodes))"
  have len: "length rest = length (butlast nodes)" by (simp add: n)
  have pk_zip: "zip (map (fst \<circ> (\<lambda>x. (enc_public L (fst x), snd x))) xs) ys = map (\<lambda>x. (enc_public L (fst x), snd x)) (zip (map fst xs) ys)" for xs :: "(enc_keypair \<times> 'a) list" and ys
    by (simp add: zip_map1 split_def comp_def)
  have snd_map: "map (snd \<circ> (\<lambda>x. (enc_public L (fst x), snd x))) xs = map snd xs" for xs :: "(enc_keypair \<times> 'a) list" by simp
  have r: "sr_to r = snd (last nodes)" "sr_recipient r = enc_public L dest" "sr_path r = map (\<lambda>(kp, p). (enc_public L kp, p)) relays"
    using path_request_eq [OF assms(3)] assms(2) by (simp_all add: n relays_def last_map split_def map_butlast pk_zip snd_map del: o_apply)
  obtain cp where e: "encapsulate L client (enc_public L dest) seed = (cp, key)"
    using assms(6) by (auto simp: new_initial_def r split_def Let_def prod_eq_iff)
  have "packet = wrap_path L W client (zip (map (\<lambda>(kp, p). (enc_public L kp, p)) relays) rands) (ct_into_bytes cp) @ pk_into_bytes (enc_public L client)"
    using assms(6) e by (simp add: new_initial_def r)
  moreover have "map fst relays = map fst rest" "map snd relays = map snd (butlast nodes)" using len by (simp_all add: relays_def)
  ultimately show ?thesis using travel_path [OF assms(1) e _ assms(5), of relays] assms(4) r by (simp add: n)
qed

text \<open>Transparent primitives of the right sizes.\<close>

definition sized :: "nat \<Rightarrow> bytes \<Rightarrow> bytes" where
  "sized n bs = take n (bs @ replicate n 0)"

definition onion_toy :: crypto_lib where
  "onion_toy = toy_lib\<lparr>kyber_public := sized KYBER_PUBLICKEYBYTES, kyber_enc := (\<lambda>key seed. (sized KYBER_CIPHERTEXTBYTES seed, replicate 32 7)),
     x_public := sized X25519_BYTES, x_dh := (\<lambda>a b. map2 (\<lambda>x y. x XOR y) (sized X25519_BYTES a) (sized X25519_BYTES b)),
     aes_decrypt := (\<lambda>key nonce asoc ct tag. if tag = replicate 16 0 then Some ct else None)\<rparr>"

definition toy_wire :: "u8 peer_wire" where
  "toy_wire = \<lparr>mh_write = (\<lambda>p. [p, 1]), peer_from_bytes = (\<lambda>bs. if length bs = 2 then Some (hd bs) else None), asoc_data = []\<rparr>"

lemma onion_toy_correct: "onion_correct onion_toy toy_wire"
proof -
  have sz: "length (sized n bs) = n" "sized n (sized n bs) = sized n bs" for n bs by (simp_all add: sized_def)
  have "map2 (\<lambda>x y. x XOR y) a b = map2 (\<lambda>x y. x XOR y) b (a :: bytes)" for a b
    by (induction a b rule: list_induct2') (auto simp: xor.commute)
  then have "dh_correct onion_toy" by (simp add: dh_correct_def onion_toy_def sz)
  moreover have "kyber_correct onion_toy" by (simp add: kyber_correct_def onion_toy_def toy_lib_def)
  moreover have "aes_correct onion_toy" by (auto simp: aes_correct_def onion_toy_def toy_lib_def TAG_SIZE_def)
  ultimately show ?thesis unfolding onion_correct_def by (simp add: onion_toy_def toy_wire_def toy_lib_def sz)
qed


definition toy_nodes :: "(enc_keypair \<times> u8) list" where
  "toy_nodes = [(\<lparr>ek_post = [1], ek_pre = [1]\<rparr>, 10), (\<lparr>ek_post = [2], ek_pre = [2]\<rparr>, 20), (\<lparr>ek_post = [3], ek_pre = [3]\<rparr>, 30)]"

definition toy_request :: "u8 stream_request" where
  "toy_request = \<lparr>sr_to = 30, sr_path_id = 0, sr_recipient = enc_public onion_toy \<lparr>ek_post = [1], ek_pre = [1]\<rparr>,
     sr_path = [(enc_public onion_toy \<lparr>ek_post = [2], ek_pre = [2]\<rparr>, 10), (enc_public onion_toy \<lparr>ek_post = [3], ek_pre = [3]\<rparr>, 20)]\<rparr>"

definition toy_rands :: "(bytes \<times> bytes) list" where
  "toy_rands = [([7], replicate NONCE_SIZE 1), ([8], replicate NONCE_SIZE 2)]"

lemma toy_path: "path_request (map (\<lambda>(kp, p). (enc_public onion_toy kp, p)) toy_nodes) 0 = Done toy_request"
  by (simp add: path_request_def toy_nodes_def toy_request_def)

theorem onion_route_delivers_witness:
  "\<exists>packet key. new_initial onion_toy toy_wire (sr_recipient toy_request) (sr_path toy_request) \<lparr>ek_post = [4], ek_pre = [4]\<rparr> [5] toy_rands [] = (packet, key) \<and>
     sr_to toy_request = snd (last toy_nodes) \<and>
     travel onion_toy toy_wire (rev (map fst toy_nodes)) packet = Done (Some (rev (map snd (butlast toy_nodes)), key))"
proof -
  obtain packet key where e: "new_initial onion_toy toy_wire (sr_recipient toy_request) (sr_path toy_request) \<lparr>ek_post = [4], ek_pre = [4]\<rparr> [5] toy_rands [] = (packet, key)"
    by fastforce
  have "toy_nodes \<noteq> []" "length toy_rands = length (sr_path toy_request)" "list_all (\<lambda>(_, nonce). length nonce = NONCE_SIZE) toy_rands"
    by (simp_all add: toy_nodes_def toy_rands_def toy_request_def)
  from onion_route_delivers [OF onion_toy_correct this(1) toy_path this(2,3) e] e show ?thesis by blast
qed

text \<open>C27: a node can be made to panic from outside. A packet that is encrypted for a node like any other, but whose last byte announces a peer id longer than
  the layer, makes \<open>peel_initial\<close> compute a negative length: the inbound upgrade panics, however the packet arrives. Nothing but the node's public
  key is needed to build it.\<close>

theorem oversized_peer_id_panics:
  assumes "onion_correct L W" and "length nonce = NONCE_SIZE" and "plain \<noteq> []" and "length plain \<le> unat (last plain)"
    and "packet = wrap L W attacker (enc_public L node) (seed, nonce) plain @ pk_into_bytes (enc_public L attacker)" and "length packet < 65536"
    and "concat (hs_in s) = encode_len (length packet) @ packet" and "[] \<notin> set (hs_in s)"
  shows "upgrade_inbound L W node False nonce' fresh s = Panic"
proof -
  have "length plain - 1 < unat (last plain)" using assms(3,4) by (cases plain) auto
  then have "peel_initial L W node packet = Panic" unfolding assms(5) using peel_wrapped [OF assms(1-3), of node attacker seed] by (auto simp: Let_def)
  then show ?thesis unfolding inbound_reads [OF assms(7,8,6)] by simp
qed

theorem oversized_peer_id_panics_witness:
  "\<exists>packet. upgrade_inbound onion_toy toy_wire \<lparr>ek_post = [1], ek_pre = [1]\<rparr> False [] 0
     \<lparr>hs_in = [encode_len (length packet), packet], hs_room = 0, hs_out = []\<rparr> = Panic"
proof -
  let ?packet = "wrap onion_toy toy_wire \<lparr>ek_post = [4], ek_pre = [4]\<rparr> (enc_public onion_toy \<lparr>ek_post = [1], ek_pre = [1]\<rparr>) ([], replicate NONCE_SIZE 0) [9] @
    pk_into_bytes (enc_public onion_toy \<lparr>ek_post = [4], ek_pre = [4]\<rparr>)"
  have len: "length ?packet = 1 + TAG_SIZE + NONCE_SIZE + CS + PKS"
    by (simp add: wrap_def encapsulate_def onion_toy_def toy_lib_def ct_into_bytes_def pk_into_bytes_def enc_public_def sized_def TAG_SIZE_def CS_def PKS_def)
  then have "length ?packet < 65536" "?packet \<noteq> []"
    by (auto simp: TAG_SIZE_def NONCE_SIZE_def CS_def PKS_def KYBER_CIPHERTEXTBYTES_def KYBER_PUBLICKEYBYTES_def X25519_BYTES_def)
  then show ?thesis
    using oversized_peer_id_panics [OF onion_toy_correct _ _ _ refl, where plain = "[9]" and nonce = "replicate NONCE_SIZE 0" and seed = "[]"
        and attacker = "\<lparr>ek_post = [4], ek_pre = [4]\<rparr>" and node = "\<lparr>ek_post = [1], ek_pre = [1]\<rparr>"
        and s = "\<lparr>hs_in = [encode_len (length ?packet), ?packet], hs_room = 0, hs_out = []\<rparr>"]
    by (intro exI [of _ ?packet]) (simp add: encode_len_def u16_to_be_bytes_def)
qed




end
