(* ===== verification/Onion_Behaviour.thy ===== *)
theory Onion_Behaviour
  imports Onion Streaming
begin

section \<open>The onion behaviour (\<open>core/onion/src/behaviour.rs\<close>, \<open>handler.rs\<close>, \<open>key_share.rs\<close>)\<close>

text \<open>
  The behaviour that opens paths and relays streams: requests of this node and incoming streams wait (\<open>pending_requests\<close>,
  \<open>pending_connections\<close>) until the connection handler of the next peer has done the handshake; established
  relays are channels of the router. Streams, connections and peers are type parameters, the time and the ids that \<open>DialOpts\<close> and \<open>PathId\<close> draw are arguments.
  The lemmas follow the paths that were opened: every one is pending or was reported once, and the streams a node relays stay bounded.
\<close>

subsection \<open>The state\<close>

record 'peer onion_config =
  current_peer_id :: 'peer
  max_streams :: nat
  max_error_streams :: nat
  keep_alive_interval :: nat
  oc_dial :: bool

record 's channel =
  ch_from :: 's
  ch_to :: 's
  ch_invalid :: bool
  ch_last_packet :: nat

definition channel_new :: "nat \<Rightarrow> 's \<Rightarrow> 's \<Rightarrow> 's channel" where
  "channel_new now from to = \<lparr>ch_from = from, ch_to = to, ch_invalid = False, ch_last_packet = now\<rparr>"

definition is_valid :: "nat \<Rightarrow> nat \<Rightarrow> 's channel \<Rightarrow> bool \<times> 's channel" where
  "is_valid now timeout ch =
     (if ch_invalid ch then (False, ch)
      else if now < ch_last_packet ch + timeout then (True, ch)
      else (False, ch\<lparr>ch_invalid := True\<rparr>))"

datatype ('peer, 's) onion_event =
  ConnectRequest 'peer
| InboundStream "'s \<times> bytes" nat
| OutboundStream "oupgrade_error + ('s \<times> bytes) \<times> 'peer" nat

datatype ('peer, 'conn, 's) onion_to_swarm =
  OnionEvent "('peer, 's) onion_event"
| DialPeer 'peer 'conn
| InitPacket 'peer 'conn "'peer incoming_meta + 'peer stream_request"

record ('peer, 'conn, 's) onion =
  config :: "'peer onion_config"
  router :: "'s channel list"
  peer_to_connection :: "('peer, 'conn) linear_map"
  dialing_peers :: "('conn, 'peer) linear_map"
  ob_events :: "('peer, 'conn, 's) onion_to_swarm list"
  pending_connections :: "('s \<times> 'peer incoming_meta) list"
  pending_requests :: "'peer stream_request list"
  error_streams :: "('s \<times> u8) list"

definition onion_new :: "'peer onion_config \<Rightarrow> ('peer, 'conn, 's) onion" where
  "onion_new cfg = \<lparr>config = cfg, router = [], peer_to_connection = [], dialing_peers = [], ob_events = [],
     pending_connections = [], pending_requests = [], error_streams = []\<rparr>"

definition push_event :: "('peer, 'conn, 's) onion_to_swarm \<Rightarrow> ('peer, 'conn, 's) onion \<Rightarrow> ('peer, 'conn, 's) onion" where
  "push_event ev b = b\<lparr>ob_events := ob_events b @ [ev]\<rparr>"

subsection \<open>Paths and relayed streams\<close>

definition onion_dial :: "'conn \<Rightarrow> 'peer \<Rightarrow> ('peer, 'conn, 's) onion \<Rightarrow> ('peer, 'conn, 's) onion" where
  "onion_dial fresh peer b =
     push_event (DialPeer peer fresh) (b\<lparr>dialing_peers := snd (lm_insert (dialing_peers b) fresh peer)\<rparr>)"

definition handle_missing_connection :: "'conn \<Rightarrow> 'peer \<Rightarrow> ('peer, 'conn, 's) onion \<Rightarrow> ('peer, 'conn, 's) onion" where
  "handle_missing_connection fresh to b =
     (if oc_dial (config b) then onion_dial fresh to b else push_event (OnionEvent (ConnectRequest to)) b)"

definition push_stream_request :: "'conn \<Rightarrow> 'peer stream_request \<Rightarrow> ('peer, 'conn, 's) onion \<Rightarrow> ('peer, 'conn, 's) onion" where
  "push_stream_request fresh sr b =
     (if sr_to sr = current_peer_id (config b) then b
      else let b = b\<lparr>pending_requests := pending_requests b @ [sr]\<rparr> in
        case lm_get (peer_to_connection b) (sr_to sr) of
          None \<Rightarrow> handle_missing_connection fresh (sr_to sr) b
        | Some conn \<Rightarrow> push_event (InitPacket (sr_to sr) conn (Inr sr)) b)"

definition open_path :: "'conn \<Rightarrow> nat \<Rightarrow> (enc_public_key \<times> 'peer) list \<Rightarrow> ('peer, 'conn, 's) onion \<Rightarrow> (nat \<times> ('peer, 'conn, 's) onion) run" where
  "open_path fresh path_id nodes b =
     run_bind (path_request nodes path_id) (\<lambda>sr. Done (path_id, push_stream_request fresh sr b))"

definition push_incoming_stream :: "nat \<Rightarrow> 'conn \<Rightarrow> 's \<times> 'peer incoming_meta \<Rightarrow> ('peer, 'conn, 's) onion \<Rightarrow> ('peer, 'conn, 's) onion" where
  "push_incoming_stream now fresh is b =
     (let checked = map (is_valid now (keep_alive_interval (config b))) (router b);
          valid_stream_count = length (filter fst checked);
          b = b\<lparr>router := map snd checked\<rparr> in
      if max_streams (config b) < valid_stream_count + length (pending_connections b) then
        if max_error_streams (config b) < length (error_streams b) then b
        else b\<lparr>error_streams := error_streams b @ [(fst is, OCCUPIED_PEER)]\<rparr>
      else if im_to (snd is) = current_peer_id (config b) then b
      else let b = b\<lparr>pending_connections := pending_connections b @ [is]\<rparr> in
        case lm_get (peer_to_connection b) (im_to (snd is)) of
          None \<Rightarrow> handle_missing_connection fresh (im_to (snd is)) b
        | Some conn \<Rightarrow> push_event (InitPacket (im_to (snd is)) conn (Inl (snd is))) b)"

definition add_connection :: "'peer \<Rightarrow> 'conn \<Rightarrow> ('peer, 'conn, 's) onion \<Rightarrow> ('peer, 'conn, 's) onion" where
  "add_connection to to_id b =
     (if lm_get (peer_to_connection b) to \<noteq> None then b
      else b\<lparr>peer_to_connection := snd (lm_insert (peer_to_connection b) to to_id),
             ob_events := ob_events b @
               map (InitPacket to to_id) (map (Inl \<circ> snd) (filter (\<lambda>p. im_to (snd p) = to) (pending_connections b)) @
                 map Inr (filter (\<lambda>p. sr_to p = to) (pending_requests b)))\<rparr>)"

definition report_unreachable :: "'peer \<Rightarrow> ('peer, 'conn, 's) onion \<Rightarrow> ('peer, 'conn, 's) onion" where
  "report_unreachable peer b =
     b\<lparr>error_streams := error_streams b @ map (\<lambda>p. (fst p, MISSING_PEER)) (filter (\<lambda>p. im_to (snd p) = peer) (pending_connections b)),
       pending_connections := filter (\<lambda>p. im_to (snd p) \<noteq> peer) (pending_connections b),
       ob_events := ob_events b @ map (\<lambda>r. OnionEvent (OutboundStream (Inl MissingPeer) (sr_path_id r))) (filter (\<lambda>p. sr_to p = peer) (pending_requests b)),
       pending_requests := filter (\<lambda>p. sr_to p \<noteq> peer) (pending_requests b)\<rparr>"

subsection \<open>Events of the swarm and of the handlers\<close>

definition onion_connection_closed :: "'peer \<Rightarrow> ('peer, 'conn, 's) onion \<Rightarrow> ('peer, 'conn, 's) onion" where
  "onion_connection_closed peer b =
     (let b = (if list_ex (\<lambda>p. sr_to p = peer) (pending_requests b) \<or> list_ex (\<lambda>p. im_to (snd p) = peer) (pending_connections b)
               then push_event (OnionEvent (ConnectRequest peer)) b else b) in
      b\<lparr>peer_to_connection := snd (lm_remove (peer_to_connection b) peer)\<rparr>)"

text \<open>\<open>cond_false\<close> is the error \<open>DialPeerConditionFalse\<close>.\<close>

definition onion_dial_failure :: "'conn \<Rightarrow> bool \<Rightarrow> ('peer, 'conn, 's) onion \<Rightarrow> ('peer, 'conn, 's) onion" where
  "onion_dial_failure conn cond_false b =
     (case lm_remove (dialing_peers b) conn of
        (None, dialing) \<Rightarrow> b\<lparr>dialing_peers := dialing\<rparr>
      | (Some peer, dialing) \<Rightarrow>
          let b = b\<lparr>dialing_peers := dialing\<rparr> in if cond_false then b else report_unreachable peer b)"

datatype ('peer, 's) onion_to_behaviour =
  NewChannel 's nat
| HandlerOutbound "oupgrade_error + 's \<times> bytes" nat 'peer
| HandlerIncoming 's "'peer incoming_meta"
| HandlerResponse "'s \<times> bytes"

definition onion_handler_event :: "nat \<Rightarrow> 'conn \<Rightarrow> nat \<Rightarrow> ('peer, 's) onion_to_behaviour \<Rightarrow> ('peer, 'conn, 's) onion \<Rightarrow> ('peer, 'conn, 's) onion" where
  "onion_handler_event now fresh path_id ev b =
     (case ev of
        NewChannel to pid \<Rightarrow>
          (case find_and_remove (\<lambda>p. im_path_id (snd p) = pid) (pending_connections b) of
             None \<Rightarrow> b
           | Some (from, rest) \<Rightarrow> b\<lparr>pending_connections := rest, router := router b @ [channel_new now (fst from) to]\<rparr>)
      | HandlerIncoming s meta \<Rightarrow> push_incoming_stream now fresh (s, meta) b
      | HandlerResponse s \<Rightarrow> push_event (OnionEvent (InboundStream s path_id)) b
      | HandlerOutbound to pid from \<Rightarrow>
          (case find_and_remove (\<lambda>p. sr_path_id p = pid) (pending_requests b) of
             None \<Rightarrow> b
           | Some (_, rest) \<Rightarrow> push_event (OnionEvent (OutboundStream (map_sum (\<lambda>e. e) (\<lambda>s. (s, from)) to) pid)) (b\<lparr>pending_requests := rest\<rparr>)))"

text \<open>\<open>poll\<close>: which channel and which closing stream, if any, finish when polled is an argument.\<close>

definition onion_poll :: "nat option \<Rightarrow> nat option \<Rightarrow> ('peer, 'conn, 's) onion \<Rightarrow> ('peer, 'conn, 's) onion_to_swarm option \<times> ('peer, 'conn, 's) onion" where
  "onion_poll channel_ends error_ends b =
     (case ob_events b of
        ev # evs \<Rightarrow> (Some ev, b\<lparr>ob_events := evs\<rparr>)
      | [] \<Rightarrow> (None, b\<lparr>router := (case channel_ends of Some i \<Rightarrow> vec_remove i (router b) | None \<Rightarrow> router b),
                    error_streams := (case error_ends of Some i \<Rightarrow> vec_remove i (error_streams b) | None \<Rightarrow> error_streams b)\<rparr>))"

subsection \<open>The connection handler\<close>

datatype ('peer, 's) onion_handler_output =
  OutboundRequest enc_keypair "'peer incoming_meta + 'peer stream_request" "nat \<times> 'peer \<times> bool"
| NotifyOnion "('peer, 's) onion_to_behaviour"

record ('peer, 's) onion_handler =
  oh_keypair :: "enc_keypair option"
  oh_events :: "('peer, 's) onion_handler_output list"

definition onion_handler_new :: "enc_keypair option \<Rightarrow> ('peer, 's) onion_handler" where
  "onion_handler_new kp = \<lparr>oh_keypair = kp, oh_events = []\<rparr>"

definition create_handler :: "enc_keypair option \<Rightarrow> 'peer \<Rightarrow> 'conn \<Rightarrow> ('peer, 'conn, 's) onion \<Rightarrow> ('peer, 's) onion_handler \<times> ('peer, 'conn, 's) onion" where
  "create_handler secret peer conn b = (onion_handler_new secret, add_connection peer conn b)"

text \<open>A client without a key pair draws one for each path.\<close>

definition oh_on_behaviour_event :: "enc_keypair \<Rightarrow> 'peer incoming_meta + 'peer stream_request \<Rightarrow> ('peer, 's) onion_handler \<Rightarrow> ('peer, 's) onion_handler" where
  "oh_on_behaviour_event drawn incoming h =
     (let info = (case incoming of Inl i \<Rightarrow> (im_path_id i, im_to i, False) | Inr r \<Rightarrow> (sr_path_id r, sr_to r, True)) in
      h\<lparr>oh_events := oh_events h @ [OutboundRequest (case oh_keypair h of Some kp \<Rightarrow> kp | None \<Rightarrow> drawn) incoming info]\<rparr>)"

datatype ('peer, 's) onion_connection_event =
  NegotiatedInbound 's "'peer inbound"
| NegotiatedOutbound 's "'peer channel_source"
| OnionUpgradeError "nat \<times> 'peer \<times> bool" oupgrade_error
| OtherOnionEvent

definition oh_on_connection_event :: "('peer, 's) onion_connection_event \<Rightarrow> ('peer, 's) onion_handler \<Rightarrow> ('peer, 's) onion_handler" where
  "oh_on_connection_event ev h =
     (case (case ev of
          NegotiatedInbound s (Incoming meta) \<Rightarrow> Some (HandlerIncoming s meta)
        | NegotiatedInbound s (Response key) \<Rightarrow> Some (HandlerResponse (s, key))
        | NegotiatedInbound s KeySent \<Rightarrow> None
        | NegotiatedOutbound to (Relay from) \<Rightarrow> Some (NewChannel to from)
        | NegotiatedOutbound to (ThisNode key pid from) \<Rightarrow> Some (HandlerOutbound (Inr (to, key)) pid from)
        | OnionUpgradeError (pid, from, mine) error \<Rightarrow> if mine then Some (HandlerOutbound (Inl error) pid from) else None
        | OtherOnionEvent \<Rightarrow> None) of
        Some out \<Rightarrow> h\<lparr>oh_events := oh_events h @ [NotifyOnion out]\<rparr>
      | None \<Rightarrow> h)"

definition oh_poll :: "('peer, 's) onion_handler \<Rightarrow> ('peer, 's) onion_handler_output option \<times> ('peer, 's) onion_handler" where
  "oh_poll h = (case oh_events h of [] \<Rightarrow> (None, h) | ev # evs \<Rightarrow> (Some ev, h\<lparr>oh_events := evs\<rparr>))"

text \<open>\<open>protocol_info\<close>: a client accepts no protocol.\<close>

datatype onion_protocol = RoutingProtocol | KeyShareProtocol

definition inbound_protocols :: "enc_keypair option \<Rightarrow> onion_protocol list" where
  "inbound_protocols kp = (if kp = None then [] else [RoutingProtocol, KeyShareProtocol])"

subsection \<open>The exchange of keys (\<open>key_share.rs\<close>)\<close>

record 'peer key_share =
  ks_keys :: "'peer \<rightharpoonup> enc_public_key"
  ks_new_keys :: "('peer \<times> enc_public_key) list"

record key_handler =
  kh_connect :: bool
  kh_key :: "enc_public_key option"

definition ks_inbound :: key_handler where
  "ks_inbound = \<lparr>kh_connect = False, kh_key = None\<rparr>"

definition ks_outbound :: "'peer \<Rightarrow> 'peer key_share \<Rightarrow> key_handler" where
  "ks_outbound peer k = \<lparr>kh_connect = (ks_keys k peer = None), kh_key = None\<rparr>"

definition ks_handler_event :: "'peer \<Rightarrow> enc_public_key \<Rightarrow> 'peer key_share \<Rightarrow> 'peer key_share" where
  "ks_handler_event peer key k = k\<lparr>ks_keys := (ks_keys k)(peer \<mapsto> key), ks_new_keys := ks_new_keys k @ [(peer, key)]\<rparr>"

definition ks_poll :: "'peer key_share \<Rightarrow> ('peer \<times> enc_public_key) option \<times> 'peer key_share" where
  "ks_poll k = (if ks_new_keys k = [] then (None, k) else (Some (last (ks_new_keys k)), k\<lparr>ks_new_keys := butlast (ks_new_keys k)\<rparr>))"

datatype key_handler_output = RequestKey | HaveKey enc_public_key | KeyPending

definition kh_poll :: "key_handler \<Rightarrow> key_handler_output \<times> key_handler" where
  "kh_poll h =
     (if kh_connect h then (RequestKey, h\<lparr>kh_connect := False\<rparr>)
      else case kh_key h of Some key \<Rightarrow> (HaveKey key, h\<lparr>kh_key := None\<rparr>) | None \<Rightarrow> (KeyPending, h))"

definition kh_negotiated :: "enc_public_key \<Rightarrow> key_handler \<Rightarrow> key_handler" where
  "kh_negotiated key h = h\<lparr>kh_key := Some key\<rparr>"

definition ks_upgrade_outbound :: "handshake \<Rightarrow> (enc_public_key \<times> handshake) option" where
  "ks_upgrade_outbound s = map_option (map_prod pk_from_bytes (\<lambda>s. s)) (read_exact PKS s)"


subsection \<open>The account of the paths\<close>

text \<open>The ids of the paths whose outcome an event reports, and of all paths known of.\<close>

definition reported :: "('peer, 'conn, 's) onion_to_swarm list \<Rightarrow> nat list" where
  "reported evs = concat (map (\<lambda>ev. case ev of OnionEvent (OutboundStream _ pid) \<Rightarrow> [pid] | _ \<Rightarrow> []) evs)"

definition paths :: "('peer, 'conn, 's) onion \<Rightarrow> nat multiset" where
  "paths b = mset (map sr_path_id (pending_requests b)) + mset (reported (ob_events b))"

lemma reported_simps [simp]:
  "reported [] = []" "reported (evs @ evs') = reported evs @ reported evs'"
  "reported (ev # evs) = (case ev of OnionEvent (OutboundStream _ pid) \<Rightarrow> [pid] | _ \<Rightarrow> []) @ reported evs"
  by (simp_all add: reported_def)

lemma reported_no_outcome:
  "reported (map (InitPacket to conn) xs) = []"
  "reported (map (\<lambda>r. OnionEvent (OutboundStream (f r) (sr_path_id r))) rs) = map sr_path_id rs"
  by (induction xs; simp) (induction rs; simp)

lemma find_and_remove_elem: "find_and_remove q xs = Some (x, rest) \<Longrightarrow> mset xs = add_mset x (mset rest) \<and> q x"
  by (auto simp: find_and_remove_def position_Some_iff mset_swap_remove split: option.splits)

lemma paths_missing: "paths (handle_missing_connection fresh to b) = paths b"
  by (simp add: handle_missing_connection_def onion_dial_def push_event_def paths_def)

lemma paths_push_request:
  "paths (push_stream_request fresh sr b) = (if sr_to sr = current_peer_id (config b) then paths b else add_mset (sr_path_id sr) (paths b))"
  by (auto simp: push_stream_request_def Let_def paths_missing split: option.splits) (simp_all add: paths_def push_event_def)

lemma paths_incoming: "paths (push_incoming_stream now fresh is b) = paths b"
  by (auto simp: push_incoming_stream_def Let_def paths_missing split: option.splits) (simp_all add: paths_def push_event_def)

lemma paths_add_connection: "paths (add_connection to conn b) = paths b"
  by (simp add: add_connection_def paths_def reported_no_outcome flip: map_map)

lemma paths_unreachable: "paths (report_unreachable peer b) = paths b"
proof -
  have "mset rs = mset (filter (\<lambda>p. sr_to p \<noteq> peer) rs) + mset (filter (\<lambda>p. sr_to p = peer) rs)" for rs :: "'a stream_request list"
    by (induction rs) auto
  then have "mset (map sr_path_id rs) = mset (map sr_path_id (filter (\<lambda>p. sr_to p \<noteq> peer) rs)) + mset (map sr_path_id (filter (\<lambda>p. sr_to p = peer) rs))"
    for rs :: "'a stream_request list" by (metis image_mset_union mset_map)
  then show ?thesis by (simp add: paths_def report_unreachable_def reported_no_outcome)
qed

lemma paths_swarm: "paths (onion_connection_closed peer b) = paths b" "paths (onion_dial_failure conn cf b) = paths b"
proof -
  show "paths (onion_connection_closed peer b) = paths b" by (simp add: onion_connection_closed_def Let_def push_event_def paths_def)
  have "paths (b\<lparr>dialing_peers := d\<rparr>) = paths b" for d by (simp add: paths_def)
  then show "paths (onion_dial_failure conn cf b) = paths b"
    by (simp add: onion_dial_failure_def Let_def paths_unreachable split: prod.splits option.splits)
qed

lemma paths_handler: "paths (onion_handler_event now fresh pid ev b) = paths b"
proof (cases ev)
  case (HandlerIncoming s meta)
  then show ?thesis by (simp add: onion_handler_event_def paths_incoming)
qed (auto simp: onion_handler_event_def paths_def push_event_def split: option.splits dest!: find_and_remove_elem)

lemma paths_poll: "onion_poll ce ee b = (out, b') \<Longrightarrow> mset (reported (case out of Some ev \<Rightarrow> [ev] | None \<Rightarrow> [])) + paths b' = paths b"
  by (auto simp: onion_poll_def paths_def split: list.splits)

subsection \<open>The bound on relayed streams\<close>

definition open_streams :: "('peer, 'conn, 's) onion \<Rightarrow> nat" where
  "open_streams b = length (pending_connections b) + length (filter (\<lambda>ch. \<not> ch_invalid ch) (router b))"

lemma streams_frame: "pending_connections b' = pending_connections b \<Longrightarrow> router b' = router b \<Longrightarrow> open_streams b' = open_streams b"
  by (simp add: open_streams_def)

lemma checked_valid: "filter (\<lambda>ch. \<not> ch_invalid ch) (map snd (map (is_valid now t) chs)) = map snd (filter fst (map (is_valid now t) chs))"
  by (induction chs) (auto simp: is_valid_def)

lemma valid_shrinks: "length (filter fst (map (is_valid now t) chs)) \<le> length (filter (\<lambda>ch. \<not> ch_invalid ch) chs)"
  by (induction chs) (auto simp: is_valid_def)

lemma missing_frame: "pending_connections (handle_missing_connection fresh to b) = pending_connections b" "router (handle_missing_connection fresh to b) = router b"
  "config (handle_missing_connection fresh to b) = config b"
  by (simp_all add: handle_missing_connection_def onion_dial_def push_event_def)

lemma streams_incoming:
  assumes "open_streams b \<le> max_streams (config b) + 1"
  shows "open_streams (push_incoming_stream now fresh is b) \<le> max_streams (config b) + 1"
proof -
  let ?checked = "map (is_valid now (keep_alive_interval (config b))) (router b)"
  let ?b = "b\<lparr>router := map snd ?checked\<rparr>"
  have n: "length (filter (\<lambda>ch. \<not> ch_invalid ch) (map snd ?checked)) = length (filter fst ?checked)" by (simp only: checked_valid length_map)
  have "open_streams ?b \<le> open_streams b" using n valid_shrinks [of now "keep_alive_interval (config b)" "router b"] by (simp add: open_streams_def)
  moreover have "open_streams ?b = length (filter fst ?checked) + length (pending_connections b)" using n by (simp add: open_streams_def)
  ultimately show ?thesis using assms
    by (auto simp: push_incoming_stream_def Let_def open_streams_def missing_frame push_event_def split: option.splits)
qed

lemma streams_others:
  "open_streams (push_stream_request fresh sr b) = open_streams b" "open_streams (add_connection to conn b) = open_streams b"
  "open_streams (onion_connection_closed peer b) = open_streams b" "open_streams (report_unreachable peer b) \<le> open_streams b"
  by (auto simp: push_stream_request_def add_connection_def onion_connection_closed_def report_unreachable_def open_streams_def Let_def
      missing_frame push_event_def split: option.splits)

lemma streams_dial_failure: "open_streams (onion_dial_failure conn cf b) \<le> open_streams b"
proof -
  have e: "open_streams (b\<lparr>dialing_peers := d\<rparr>) = open_streams b" for d by (simp add: open_streams_def)
  show ?thesis using streams_others(4) [of _ "b\<lparr>dialing_peers := _\<rparr>", unfolded e]
    by (auto simp: onion_dial_failure_def Let_def e split: prod.splits option.splits)
qed

lemma streams_handler:
  assumes "open_streams b \<le> max_streams (config b) + 1"
  shows "open_streams (onion_handler_event now fresh pid ev b) \<le> max_streams (config b) + 1"
proof (cases ev)
  case (NewChannel to p)
  show ?thesis
  proof (cases "find_and_remove (\<lambda>q. im_path_id (snd q) = p) (pending_connections b)")
    case (Some r)
    obtain x rest where x: "r = (x, rest)" by fastforce
    have "size (mset (pending_connections b)) = size (add_mset x (mset rest))" using find_and_remove_elem [of _ _ x rest] Some x by fastforce
    then show ?thesis using assms Some NewChannel x by (simp add: onion_handler_event_def open_streams_def channel_new_def)
  qed (use assms NewChannel in \<open>simp add: onion_handler_event_def\<close>)
next
  case (HandlerIncoming s meta)
  then show ?thesis using streams_incoming [OF assms] by (simp add: onion_handler_event_def)
qed (use assms in \<open>auto simp: onion_handler_event_def open_streams_def push_event_def split: option.splits\<close>)

lemma filter_vec_remove: "length (filter q (vec_remove i xs)) \<le> length (filter q xs)"
proof (induction xs arbitrary: i)
  case (Cons x xs)
  then show ?case by (cases i) (simp_all add: vec_remove_def)
qed (simp add: vec_remove_def)

lemma streams_poll: "onion_poll ce ee b = (out, b') \<Longrightarrow> open_streams b' \<le> open_streams b"
  by (auto simp: onion_poll_def open_streams_def filter_vec_remove split: list.splits option.splits)

lemma config_constant:
  "config (push_stream_request fresh sr b) = config b" "config (add_connection to conn b) = config b"
  "config (onion_connection_closed peer b) = config b" "config (report_unreachable peer b) = config b"
  "config (onion_dial_failure conn cf b) = config b" "config (push_incoming_stream now fresh is b) = config b"
  by (auto simp: push_stream_request_def add_connection_def onion_connection_closed_def report_unreachable_def onion_dial_failure_def
      push_incoming_stream_def Let_def missing_frame push_event_def split: option.splits prod.splits)

lemma config_handler: "config (onion_handler_event now fresh pid ev b) = config b"
  by (cases ev) (auto simp: onion_handler_event_def config_constant push_event_def split: option.splits)

lemma config_poll: "onion_poll ce ee b = (out, b') \<Longrightarrow> config b' = config b"
  by (auto simp: onion_poll_def split: list.splits)


subsection \<open>Runs\<close>

text \<open>A state of a run: the behaviour, the paths opened to other peers, and the events the swarm has taken.\<close>

inductive onion_run :: "'peer onion_config \<Rightarrow> ('peer, 'conn, 's) onion \<Rightarrow> nat list \<Rightarrow> ('peer, 'conn, 's) onion_to_swarm list \<Rightarrow> bool" for cfg where
  start: "onion_run cfg (onion_new cfg) [] []"
| opened: "onion_run cfg b ids evs \<Longrightarrow> open_path fresh pid nodes b = Done (pid', b') \<Longrightarrow> nodes \<noteq> [] \<Longrightarrow>
    onion_run cfg b' (if snd (last nodes) = current_peer_id cfg then ids else ids @ [pid']) evs"
| connected: "onion_run cfg b ids evs \<Longrightarrow> create_handler secret peer conn b = (h, b') \<Longrightarrow> onion_run cfg b' ids evs"
| closed: "onion_run cfg b ids evs \<Longrightarrow> onion_run cfg (onion_connection_closed peer b) ids evs"
| failed: "onion_run cfg b ids evs \<Longrightarrow> onion_run cfg (onion_dial_failure conn cf b) ids evs"
| unreachable: "onion_run cfg b ids evs \<Longrightarrow> onion_run cfg (report_unreachable peer b) ids evs"
| handled: "onion_run cfg b ids evs \<Longrightarrow> onion_run cfg (onion_handler_event now fresh pid ev b) ids evs"
| polled: "onion_run cfg b ids evs \<Longrightarrow> onion_poll ce ee b = (out, b') \<Longrightarrow>
    onion_run cfg b' ids (evs @ (case out of Some ev \<Rightarrow> [ev] | None \<Rightarrow> []))"

lemma onion_run_ok:
  "onion_run cfg b ids evs \<Longrightarrow> config b = cfg \<and> mset ids = paths b + mset (reported evs) \<and> open_streams b \<le> max_streams cfg + 1"
proof (induction rule: onion_run.induct)
  case (opened b ids evs fresh pid nodes pid' b')
  obtain sr where sr: "path_request nodes pid = Done sr" "pid' = pid" "b' = push_stream_request fresh sr b"
    using opened(2) by (auto simp: open_path_def run_simps)
  then have "sr_to sr = snd (last nodes)" "sr_path_id sr = pid" using path_request_eq [OF sr(1) opened(3)] by simp_all
  then show ?case using opened.IH sr by (simp add: config_constant paths_push_request streams_others)
next
  case (polled b ids evs ce ee out b')
  then show ?case using paths_poll [OF polled(2)] streams_poll [OF polled(2)] config_poll [OF polled(2)] by (auto simp: ac_simps)
next
  case (handled b ids evs now fresh pid ev)
  then show ?case using streams_handler [of b now fresh pid ev] by (simp add: config_handler paths_handler)
next
  case (failed b ids evs conn cf)
  then show ?case using streams_dial_failure [of conn cf b] by (simp add: config_constant paths_swarm)
next
  case (unreachable b ids evs peer)
  then show ?case using streams_others(4) [of peer b] by (simp add: config_constant paths_unreachable)
next
  case start
  show ?case by (simp add: onion_new_def paths_def open_streams_def)
qed (auto simp: create_handler_def config_constant paths_add_connection paths_swarm streams_others)

subsection \<open>Properties\<close>


definition lone_config :: "nat onion_config" where
  "lone_config = \<lparr>current_peer_id = 0, max_streams = 20, max_error_streams = 20, keep_alive_interval = 30, oc_dial = True\<rparr>"

definition lone_path :: "(enc_public_key \<times> nat) list" where
  "lone_path = [(pk_from_bytes [1], 1), (pk_from_bytes [2], 2), (pk_from_bytes [3], 3)]"

lemma lone_request: "path_request lone_path 7 = Done \<lparr>sr_to = 3, sr_path_id = 7, sr_recipient = pk_from_bytes [1],
    sr_path = [(pk_from_bytes [2], 1), (pk_from_bytes [3], 2)]\<rparr>"
  by (simp add: path_request_def lone_path_def)


text \<open>C0: a request can be stranded. When the second of two connections to a peer closes, the behaviour forgets the peer although the first
  still stands; a path through it is then dialled, the swarm refuses to dial a connected peer, and that refusal is ignored: the request stays
  pending with nothing under way, and polling never yields another event.\<close>

theorem duplicate_connection_strands_request:
  assumes "oc_dial cfg" and "nodes \<noteq> []" and "path_request nodes pid = Done sr" and "snd (last nodes) \<noteq> current_peer_id cfg"
  shows "\<exists>(b1 :: ('peer, 'conn, 's) onion) b2. open_path fresh pid nodes
      (onion_connection_closed (snd (last nodes)) (add_connection (snd (last nodes)) c2 (add_connection (snd (last nodes)) c1 (onion_new cfg)))) = Done (pid, b1) \<and>
    onion_poll None None b1 = (Some (DialPeer (snd (last nodes)) fresh), b2) \<and>
    (let b3 = onion_dial_failure fresh True b2 in
      pending_requests b3 = [sr] \<and> lm_get (peer_to_connection b3) (snd (last nodes)) = None \<and> dialing_peers b3 = [] \<and>
      onion_poll None None b3 = (None, b3))"
proof -
  have "sr_to sr = snd (last nodes)" using path_request_eq [OF assms(3,2)] by simp
  then show ?thesis using assms(1,3,4)
    by (simp add: open_path_def onion_connection_closed_def add_connection_def onion_new_def push_stream_request_def handle_missing_connection_def onion_dial_def
        push_event_def onion_poll_def onion_dial_failure_def lm_insert_def lm_remove_def lm_get_def lm_key_position_def swap_remove_def Let_def)
qed

theorem duplicate_connection_strands_request_witness:
  "\<exists>(b1 :: (nat, nat, unit) onion) b2. open_path 5 7 lone_path
      (onion_connection_closed (snd (last lone_path)) (add_connection (snd (last lone_path)) 2 (add_connection (snd (last lone_path)) 1 (onion_new lone_config)))) = Done (7, b1) \<and>
    onion_poll None None b1 = (Some (DialPeer (snd (last lone_path)) 5), b2) \<and>
    (let b3 = onion_dial_failure 5 True b2 in
      pending_requests b3 = [\<lparr>sr_to = 3, sr_path_id = 7, sr_recipient = pk_from_bytes [1], sr_path = [(pk_from_bytes [2], 1), (pk_from_bytes [3], 2)]\<rparr>] \<and>
      lm_get (peer_to_connection b3) (snd (last lone_path)) = None \<and> dialing_peers b3 = [] \<and> onion_poll None None b3 = (None, b3))"
  by (rule duplicate_connection_strands_request [OF _ _ lone_request]) (simp_all add: lone_config_def lone_path_def)

text \<open>The keys that two nodes exchange: what a node writes when it is asked for its key is what the other side reads, in any pieces.\<close>

lemma key_share_round_trip:
  assumes "onion_correct L W" and "upgrade_inbound L W kp True nonce fresh s = Done (Inr (KeySent, s'))" and "hs_out s = []"
    and "concat (hs_in c) = hs_out s'" and "[] \<notin> set (hs_in c)"
  shows "\<exists>c'. ks_upgrade_outbound c = Some (enc_public L kp, c')"
proof -
  have "hs_out s' = pk_into_bytes (enc_public L kp)" using assms(2,3) by (auto simp: upgrade_inbound_def write_all_def split: option.splits if_splits)
  then show ?thesis using read_exact_all [of c "pk_into_bytes (enc_public L kp)" "[]"] assms(4,5) onion_facts(1,2) [OF assms(1), where kp = kp]
    by (auto simp: ks_upgrade_outbound_def)
qed

end
