(* ===== verification/Onion_Stream.thy ===== *)
theory Onion_Stream
  imports Onion
begin

section \<open>Streams of the onion behaviour (\<open>core/onion/src/behaviour.rs\<close>)\<close>

text \<open>
  \<open>EncryptedStream\<close> seals each message with the secret of the handshake and sends it as a packet; \<open>Stream::forward_from\<close> and
  \<open>Channel\<close> relay bytes between two streams. The theory builds on the packet reader and writer: what one side writes is what the other side polls,
  and what a relay loses.
\<close>

subsection \<open>Encrypted streams\<close>

record encrypted_stream =
  es_open :: bool
  es_key :: bytes
  es_reader :: packet_reader
  es_writer :: packet_writer

datatype es_error = EsIo io_error | InvalidData

definition es_new :: "bytes \<Rightarrow> nat \<Rightarrow> encrypted_stream" where
  "es_new key cap = \<lparr>es_open = True, es_key = key, es_reader = reader_new, es_writer = writer_new cap\<rparr>"

text \<open>\<open>write\<close>: the guard is dropped on every path. The value is the pieces its codec writes.\<close>

definition es_write :: "crypto_lib \<Rightarrow> 'peer peer_wire \<Rightarrow> bytes \<Rightarrow> bytes list \<Rightarrow> encrypted_stream \<Rightarrow> bool \<times> encrypted_stream" where
  "es_write L W nonce value es =
     (case guard_write [[0], [0]] (guard (es_writer es)) of
        (None, wg) \<Rightarrow> (False, es\<lparr>es_writer := guard_drop wg\<rparr>)
      | (Some (reserved, _), wg) \<Rightarrow> (case guard_write value wg of
          (None, wg) \<Rightarrow> (False, es\<lparr>es_writer := guard_drop wg\<rparr>)
        | (Some (at, len), w, g) \<Rightarrow>
            let (raw, tag) = aes_encrypt L (es_key es) nonce (asoc_data W) (take len (drop at (pw_mem w)));
                full_len = len + length tag + length nonce in
            (case write_bytes tag (w\<lparr>pw_mem := fill (pw_mem w) at raw\<rparr>, g) of
               (None, wg) \<Rightarrow> (False, es\<lparr>es_writer := guard_drop wg\<rparr>)
             | (Some _, wg) \<Rightarrow> (case write_bytes nonce wg of
                 (None, wg) \<Rightarrow> (False, es\<lparr>es_writer := guard_drop wg\<rparr>)
               | (Some _, w, g) \<Rightarrow>
                   (True, es\<lparr>es_writer := guard_drop (w\<lparr>pw_mem := fill (pw_mem w) reserved (encode_len full_len)\<rparr>, g)\<rparr>)))))"

text \<open>\<open>poll\<close>: \<open>None\<close> would be a writer that never stops. The packet is decrypted in the reader's buffer.\<close>

definition es_poll :: "crypto_lib \<Rightarrow> 'peer peer_wire \<Rightarrow> ('d \<Rightarrow> bytes \<Rightarrow> write_result \<times> 'd) \<Rightarrow> encrypted_stream \<Rightarrow> read_item list \<Rightarrow> 'd \<Rightarrow>
    ((es_error + bytes) poll \<times> encrypted_stream \<times> read_item list \<times> 'd) option" where
  "es_poll L W dest es src d =
     (if \<not> es_open es then Some (Pending, es, src, d)
      else case writer_poll dest (es_writer es) d of
        None \<Rightarrow> None
      | Some (Ready (Inl e), w, d) \<Rightarrow> Some (Ready (Inl (EsIo e)), es\<lparr>es_writer := w, es_open := False\<rparr>, src, d)
      | Some (_, w, d) \<Rightarrow>
          (case poll_packet (es_reader es) src of
             (Pending, r, src) \<Rightarrow> Some (Pending, es\<lparr>es_writer := w, es_reader := r\<rparr>, src, d)
           | (Ready (Inl e), r, src) \<Rightarrow> Some (Ready (Inl (EsIo e)), es\<lparr>es_writer := w, es_reader := r, es_open := False\<rparr>, src, d)
           | (Ready (Inr packet), r, src) \<Rightarrow>
               (case peel_wih_key L W (es_key es) packet of
                  None \<Rightarrow> Some (Ready (Inl InvalidData), es\<lparr>es_writer := w, es_reader := r, es_open := False\<rparr>, src, d)
                | Some (len, buf) \<Rightarrow>
                    Some (Ready (Inr (take len buf)),
                      es\<lparr>es_writer := w, es_reader := r\<lparr>read_buffer := fill (read_buffer r) PACKET_LEN_WIDTH buf\<rparr>\<rparr>, src, d))))"

definition es_is_terminated :: "encrypted_stream \<Rightarrow> bool" where
  "es_is_terminated es = (\<not> es_open es)"

definition es_poll_next :: "crypto_lib \<Rightarrow> 'peer peer_wire \<Rightarrow> ('d \<Rightarrow> bytes \<Rightarrow> write_result \<times> 'd) \<Rightarrow> encrypted_stream \<Rightarrow> read_item list \<Rightarrow> 'd \<Rightarrow>
    ((es_error + bytes) option poll \<times> encrypted_stream \<times> read_item list \<times> 'd) option" where
  "es_poll_next L W dest es src d =
     (if es_is_terminated es then Some (Ready None, es, src, d)
      else map_option (\<lambda>(r, rest). (case r of Pending \<Rightarrow> Pending | Ready x \<Rightarrow> Ready (Some x), rest)) (es_poll L W dest es src d))"

subsection \<open>Relays\<close>

record relay_stream =
  poll_cache :: bytes
  written :: nat

definition relay_new :: relay_stream where
  "relay_new = \<lparr>poll_cache = [], written = 0\<rparr>"

definition TEMP_SIZE :: nat where
  "TEMP_SIZE = 65536"

text \<open>The loop that writes what the last write left over.\<close>

function flush_cache :: "('d \<Rightarrow> bytes \<Rightarrow> write_result \<times> 'd) \<Rightarrow> bytes \<Rightarrow> nat \<Rightarrow> 'd \<Rightarrow> (io_error + unit) poll \<times> nat \<times> 'd" where
  "flush_cache dest cache n d =
     (if length cache \<le> n then (Ready (Inr ()), n, d)
      else case dest d (drop n cache) of
        (WPending, d) \<Rightarrow> (Pending, n, d)
      | (WFail, d) \<Rightarrow> (Ready (Inl StreamError), n, d)
      | (WOk w, d) \<Rightarrow> if w = 0 then (Ready (Inl WriteZero), n, d) else flush_cache dest cache (n + w) d)"
  by pat_completeness auto
termination by (relation "measure (\<lambda>(dest, cache, n, d). length cache - n)") auto

declare flush_cache.simps [simp del]

text \<open>The loop that reads and writes until a write is short: it stops with a result, or with the bytes left over.\<close>

lemma poll_read_shrinks:
  "poll_read n src = (Ready (Inr bs), src') \<Longrightarrow> bs \<noteq> [] \<Longrightarrow> length (data_of src') + length src' < length (data_of src) + length src"
  by (cases "(n, src)" rule: poll_read.cases) (auto simp: data_of_def split: if_splits)

function pump :: "('d \<Rightarrow> bytes \<Rightarrow> write_result \<times> 'd) \<Rightarrow> read_item list \<Rightarrow> 'd \<Rightarrow> (io_error poll + bytes) \<times> read_item list \<times> 'd" where
  "pump dest src d =
     (case poll_read TEMP_SIZE src of
        (Pending, src) \<Rightarrow> (Inl Pending, src, d)
      | (Ready (Inl e), src) \<Rightarrow> (Inl (Ready e), src, d)
      | (Ready (Inr bs), src) \<Rightarrow>
          if bs = [] then (Inl (Ready UnexpectedEof), src, d)
          else (case dest d bs of
              (WPending, d) \<Rightarrow> (Inl (Ready WriteZero), src, d)
            | (WFail, d) \<Rightarrow> (Inl (Ready StreamError), src, d)
            | (WOk w, d) \<Rightarrow>
                if w = 0 then (Inl (Ready WriteZero), src, d)
                else if w \<noteq> length bs then (Inr (drop w bs), src, d)
                else pump dest src d))"
  by pat_completeness auto
termination
  by (relation "measure (\<lambda>(dest, src, d). length (data_of src) + length src)") (auto dest: poll_read_shrinks [OF sym])

declare pump.simps [simp del]

lemma pump_shrinks: "pump dest src d = (Inr rest, src', d') \<Longrightarrow> length (data_of src') + length src' < length (data_of src) + length src"
proof (induction dest src d rule: pump.induct)
  case (1 dest src d)
  show ?case
  proof (cases "poll_read TEMP_SIZE src")
    case (Pair p src1)
    then show ?thesis
    proof (cases p)
      case (Ready e)
      then show ?thesis
      proof (cases e)
        case (Inr bs)
        show ?thesis
        proof (cases "bs = []")
          case False
          obtain r d1 where r: "dest d bs = (r, d1)" by fastforce
          note s = poll_read_shrinks [OF Pair [unfolded Ready Inr] False]
          have "length (data_of src') + length src' < length (data_of src1) + length src1" if "r = WOk (length bs)"
            using "1.IH" [OF Pair [symmetric] Ready Inr False r [symmetric] that] "1.prems" Pair Ready Inr False r that
            by (simp add: pump.simps [of dest src])
          then show ?thesis using "1.prems" Pair Ready Inr False r s by (cases r) (auto simp: pump.simps [of dest src] split: if_splits)
        qed (use "1.prems" Pair Ready Inr in \<open>simp add: pump.simps\<close>)
      qed (use "1.prems" Pair Ready in \<open>simp add: pump.simps\<close>)
    qed (use "1.prems" in \<open>simp add: pump.simps\<close>)
  qed
qed

text \<open>\<open>forward_from\<close>: the two loops in turn. \<open>written\<close> is not reset when the cache is cleared.\<close>

function forward_from :: "('d \<Rightarrow> bytes \<Rightarrow> write_result \<times> 'd) \<Rightarrow> relay_stream \<Rightarrow> read_item list \<Rightarrow> 'd \<Rightarrow> io_error poll \<times> relay_stream \<times> read_item list \<times> 'd" where
  "forward_from dest st src d =
     (case flush_cache dest (poll_cache st) (written st) d of
        (Pending, n, d) \<Rightarrow> (Pending, st\<lparr>written := n\<rparr>, src, d)
      | (Ready (Inl e), n, d) \<Rightarrow> (Ready e, st\<lparr>written := n\<rparr>, src, d)
      | (Ready (Inr _), n, d) \<Rightarrow>
          (case pump dest src d of
             (Inl r, src, d) \<Rightarrow> (r, \<lparr>poll_cache = [], written = n\<rparr>, src, d)
           | (Inr rest, src, d) \<Rightarrow> forward_from dest \<lparr>poll_cache = rest, written = n\<rparr> src d))"
  by pat_completeness auto
termination
  by (relation "measure (\<lambda>(dest, st, src, d). length (data_of src) + length src)") (auto dest: pump_shrinks [OF sym])

declare forward_from.simps [simp del]

datatype channel_error = ChIo io_error | ConnectionAborted

text \<open>\<open>Channel::poll\<close>: both directions, the second only while the first is pending.\<close>

definition channel_poll :: "('d \<Rightarrow> bytes \<Rightarrow> write_result \<times> 'd) \<Rightarrow> bool \<Rightarrow> relay_stream \<times> read_item list \<times> 'd \<Rightarrow> relay_stream \<times> read_item list \<times> 'd \<Rightarrow>
    channel_error poll \<times> (relay_stream \<times> read_item list \<times> 'd) \<times> (relay_stream \<times> read_item list \<times> 'd)" where
  "channel_poll dest invalid from to =
     (if invalid then (Ready ConnectionAborted, from, to)
      else case (from, to) of ((sf, rf, df), (st, rt, dt)) \<Rightarrow>
        (case forward_from dest sf rt df of
           (Ready e, sf, rt, df) \<Rightarrow> (Ready (ChIo e), (sf, rf, df), (st, rt, dt))
         | (Pending, sf, rt, df) \<Rightarrow>
             (case forward_from dest st rf dt of
                (Ready e, st, rf, dt) \<Rightarrow> (Ready (ChIo e), (sf, rf, df), (st, rt, dt))
              | (Pending, st, rf, dt) \<Rightarrow> (Pending, (sf, rf, df), (st, rt, dt)))))"


subsection \<open>What is written is read\<close>

text \<open>A writer that nothing has been sent from yet.\<close>

definition unsent :: "packet_writer \<Rightarrow> bool" where
  "unsent w \<longleftrightarrow> pw_start w = 0 \<and> pw_end w = pw_len w \<and> pw_len w \<le> length (pw_mem w)"

lemma guard_unsent: "unsent w \<Longrightarrow> guard w = (w, Extending True (pw_end w))"
  by (simp add: guard_def unsent_def)

lemma extend_write:
  assumes "e \<le> length (pw_mem w)" and "guard_write value (w, Extending True e) = (Some r, wg)"
  shows "e + length (concat value) \<le> length (pw_mem w) \<and> r = (e, length (concat value)) \<and>
    wg = (w\<lparr>pw_mem := fill (pw_mem w) e (concat value), pw_end := e + length (concat value)\<rparr>, Extending True (e + length (concat value)))"
proof (cases "e + length (concat value) \<le> length (pw_mem w)")
  case True
  then show ?thesis using assms(2) write_chunks_fit [OF True] by (simp add: guard_write_def Let_def)
next
  case False
  then show ?thesis using assms write_chunks_spec [of e "length (pw_mem w)" "pw_mem w" "value"]
    by (cases "write_chunks (pw_mem w) e (length (pw_mem w)) value") (simp add: guard_write_def Let_def)
qed

definition sealed :: "crypto_lib \<Rightarrow> 'peer peer_wire \<Rightarrow> bytes \<Rightarrow> bytes \<Rightarrow> bytes \<Rightarrow> bytes" where
  "sealed L W key nonce m = (case aes_encrypt L key nonce (asoc_data W) m of (ct, tag) \<Rightarrow> ct @ tag @ nonce)"

lemma es_write_ok:
  assumes "onion_correct L W" and "unsent (es_writer es)" and "es_write L W nonce value es = (True, es')"
  defines "p \<equiv> sealed L W (es_key es) nonce (concat value)"
  shows "unsent (es_writer es') \<and> es_key es' = es_key es \<and> queued (es_writer es') = queued (es_writer es) @ packet_bytes p \<and>
    length (pw_mem (es_writer es')) = length (pw_mem (es_writer es)) \<and> length p < length (pw_mem (es_writer es))"
proof -
  define w e m where "w = es_writer es" and "e = pw_end w" and "m = concat value"
  have u: "pw_start w = 0" "pw_len w = e" "e \<le> length (pw_mem w)" using assms(2) by (simp_all add: unsent_def w_def e_def)
  obtain r1 wg1 where g1: "guard_write [[0], [0]] (w, Extending True e) = (Some r1, wg1)"
    using assms(3) guard_unsent [OF assms(2)] by (auto simp: es_write_def w_def e_def split: prod.splits option.splits)
  define w1 where "w1 = w\<lparr>pw_mem := fill (pw_mem w) e [0, 0], pw_end := e + 2\<rparr>"
  have s1: "e + 2 \<le> length (pw_mem w)" "r1 = (e, 2)" "wg1 = (w1, Extending True (e + 2))" using extend_write [OF u(3) g1] by (simp_all add: w1_def)
  then have len1: "length (pw_mem w1) = length (pw_mem w)" by (simp add: w1_def length_fill)
  obtain r2 wg2 where g2: "guard_write value (w1, Extending True (e + 2)) = (Some r2, wg2)"
    using assms(3) guard_unsent [OF assms(2)] g1 s1 by (auto simp: es_write_def w_def e_def split: prod.splits option.splits)
  define w2 where "w2 = w1\<lparr>pw_mem := fill (pw_mem w1) (e + 2) m, pw_end := e + 2 + length m\<rparr>"
  have s2: "e + 2 + length m \<le> length (pw_mem w)" "r2 = (e + 2, length m)" "wg2 = (w2, Extending True (e + 2 + length m))"
    using extend_write [OF _ g2] s1 len1 by (simp_all add: w2_def m_def)
  obtain ct tag where a: "aes_encrypt L (es_key es) nonce (asoc_data W) m = (ct, tag)" by fastforce
  have ct: "length ct = length m" by (rule aes_facts(3) [OF assms(1) a])
  have raw: "take (length m) (drop (e + 2) (pw_mem w2)) = m" using s2(1) len1 by (simp add: w2_def fill_def)
  define w3 where "w3 = w2\<lparr>pw_mem := fill (pw_mem w2) (e + 2) ct\<rparr>"
  have mem3: "pw_mem w3 = fill (pw_mem w) e ([0, 0] @ ct)"
    using s1(1) s2(1) ct fill_header [of ct m "e + 2" "[]" "pw_mem w1"] len1 fill_fill [of e "[0, 0]" ct "pw_mem w"] by (simp add: w3_def w2_def w1_def)
  then have len3: "length (pw_mem w3) = length (pw_mem w)" using s2(1) ct by (simp add: length_fill)
  obtain r3 wg3 where g3: "guard_write [tag] (w3, Extending True (e + 2 + length m)) = (Some r3, wg3)"
    using assms(3) guard_unsent [OF assms(2)] g1 s1 g2 s2 a raw by (auto simp: es_write_def w_def e_def w3_def write_bytes_def split: prod.splits option.splits)
  define w4 where "w4 = w3\<lparr>pw_mem := fill (pw_mem w3) (e + 2 + length m) tag, pw_end := e + 2 + length m + length tag\<rparr>"
  have s3: "e + 2 + length m + length tag \<le> length (pw_mem w)" "wg3 = (w4, Extending True (e + 2 + length m + length tag))"
    using extend_write [OF _ g3] s2(1) len3 by (simp_all add: w4_def)
  have mem4: "pw_mem w4 = fill (pw_mem w) e ([0, 0] @ ct @ tag)"
    using s3(1) ct fill_fill [of e "[0, 0] @ ct" tag "pw_mem w"] by (simp add: w4_def mem3 add.assoc)
  then have len4: "length (pw_mem w4) = length (pw_mem w)" using s3(1) ct by (simp add: length_fill)
  obtain r4 wg4 where g4: "guard_write [nonce] (w4, Extending True (e + 2 + length m + length tag)) = (Some r4, wg4)"
    using assms(3) guard_unsent [OF assms(2)] g1 s1 g2 s2 g3 s3 a raw by (auto simp: es_write_def w_def e_def w3_def write_bytes_def split: prod.splits option.splits)
  define n where "n = e + 2 + length m + length tag + length nonce"
  define w5 where "w5 = w4\<lparr>pw_mem := fill (pw_mem w4) (e + 2 + length m + length tag) nonce, pw_end := n\<rparr>"
  have s4: "n \<le> length (pw_mem w)" "wg4 = (w5, Extending True n)" using extend_write [OF _ g4] s3(1) len4 by (simp_all add: w5_def n_def)
  have mem5: "pw_mem w5 = fill (pw_mem w) e ([0, 0] @ ct @ tag @ nonce)"
    using s4(1) ct fill_fill [of e "[0, 0] @ ct @ tag" nonce "pw_mem w"] by (simp add: w5_def mem4 add.assoc n_def)
  have p: "p = ct @ tag @ nonce" "length p = length m + length tag + length nonce" using ct by (simp_all add: p_def sealed_def a flip: m_def)
  have mem6: "fill (pw_mem w5) e (encode_len (length p)) = fill (pw_mem w) e (packet_bytes p)"
    using s4(1) ct fill_header [of "encode_len (length p)" "[0, 0]" e p "pw_mem w"] by (simp add: mem5 p packet_bytes_def encode_len_def n_def)
  have es': "es' = es\<lparr>es_writer := w5\<lparr>pw_mem := fill (pw_mem w) e (packet_bytes p), pw_len := n\<rparr>\<rparr>"
    using assms(3) guard_unsent [OF assms(2)] g1 s1 g2 s2 g3 s3 g4 s4 a raw mem6
    by (auto simp: es_write_def w_def e_def w3_def write_bytes_def guard_drop_def p(2) split: prod.splits option.splits)
  have "pw_end w5 = n" "pw_start w5 = 0" using u by (simp_all add: w5_def w4_def w3_def w2_def w1_def)
  moreover have "take n (fill (pw_mem w) e (packet_bytes p)) = take e (pw_mem w) @ packet_bytes p"
    using take_fill(1) [OF u(3), of "packet_bytes p"] by (simp add: n_def p(2) ac_simps)
  moreover have "length (fill (pw_mem w) e (packet_bytes p)) = length (pw_mem w)" using s4(1) p(2) by (simp add: length_fill n_def)
  moreover have "queued w = take e (pw_mem w)" using u e_def by (simp add: queued_straight)
  ultimately show ?thesis using s4(1) p(2) unfolding es' w_def [symmetric] by (simp add: unsent_def queued_straight n_def)
qed


text \<open>Writing messages one after the other, each with a nonce of its own; polling until nothing more comes.\<close>

fun es_write_all :: "crypto_lib \<Rightarrow> 'peer peer_wire \<Rightarrow> (bytes \<times> bytes list) list \<Rightarrow> encrypted_stream \<Rightarrow> encrypted_stream option" where
  "es_write_all L W [] es = Some es"
| "es_write_all L W ((nonce, value) # ms) es =
     (case es_write L W nonce value es of (True, es') \<Rightarrow> es_write_all L W ms es' | (False, _) \<Rightarrow> None)"

fun es_read_all :: "nat \<Rightarrow> crypto_lib \<Rightarrow> 'peer peer_wire \<Rightarrow> ('d \<Rightarrow> bytes \<Rightarrow> write_result \<times> 'd) \<Rightarrow> encrypted_stream \<Rightarrow> read_item list \<Rightarrow> 'd \<Rightarrow> bytes list" where
  "es_read_all 0 L W dest es src d = []"
| "es_read_all (Suc fuel) L W dest es src d =
     (case es_poll L W dest es src d of
        Some (Ready (Inr m), es', src', d') \<Rightarrow> m # es_read_all fuel L W dest es' src' d'
      | Some (Pending, es', src', d') \<Rightarrow> if src' = [] then [] else es_read_all fuel L W dest es' src' d'
      | _ \<Rightarrow> [])"

lemma es_write_all_ok:
  assumes "onion_correct L W" and "unsent (es_writer es)" and "es_write_all L W ms es = Some es'" and "length (pw_mem (es_writer es)) < 65536"
  shows "queued (es_writer es') = queued (es_writer es) @ concat (map (\<lambda>(nonce, v). packet_bytes (sealed L W (es_key es) nonce (concat v))) ms) \<and>
    (\<forall>(nonce, v)\<in>set ms. length (sealed L W (es_key es) nonce (concat v)) < 65536)"
  using assms(2-)
proof (induction ms arbitrary: es)
  case (Cons m ms)
  obtain nonce v where m: "m = (nonce, v)" by fastforce
  obtain b es1 where e: "es_write L W nonce v es = (b, es1)" by fastforce
  then have b: "b" using Cons.prems(2) m by (cases b) auto
  note w = es_write_ok [OF assms(1) Cons.prems(1) e [unfolded b [THEN eqTrueI]]]
  then show ?case using Cons.IH [of es1] Cons.prems(2,3) m e b by auto
qed simp

lemma empty_writer_poll: "writer_poll dest (writer_new cap) d = Some (Ready (Inr ()), writer_new cap, d)"
  by (subst writer_poll.simps) (simp add: writable_parts_def writer_new_def)

lemma peel_message: "onion_correct L W \<Longrightarrow> length nonce = NONCE_SIZE \<Longrightarrow>
    \<exists>buf. peel_wih_key L W key (sealed L W key nonce m) = Some (length m, buf) \<and> take (length m) buf = m"
  using peel_sealed [of L W key nonce m] by (cases "aes_encrypt L key nonce (asoc_data W) m") (auto simp: sealed_def)

lemma poll_packet_offset: "poll_packet r src = (Ready (Inr p), r', src') \<Longrightarrow> read_offset r' = 0"
  by (auto simp: poll_packet_def Let_def split: prod.splits poll.splits sum.splits)

lemma es_read_all_ok:
  assumes "onion_correct L W" and "es_open es" and "es_writer es = writer_new cap" and "alive src" and "reader_ok (es_reader es)" and "frame_ok (es_reader es)"
    and "unread (es_reader es) src = concat (map (\<lambda>(nonce, m). packet_bytes (sealed L W (es_key es) nonce m)) ms)"
    and "\<forall>(nonce, m)\<in>set ms. length nonce = NONCE_SIZE \<and> length (sealed L W (es_key es) nonce m) < 65536"
    and "read_work (es_reader es) src < fuel"
  shows "es_read_all fuel L W dest es src d = map snd ms"
  using assms(2-)
proof (induction fuel arbitrary: es src d ms)
  case (Suc fuel)
  obtain res r' src' where e: "poll_packet (es_reader es) src = (res, r', src')" by (metis prod_cases3)
  note s = poll_packet_spec [OF e Suc.prems(3-5)]
  note poll = es_poll_def [of L W dest es src d, unfolded Suc.prems(2) empty_writer_poll e]
  from s consider (got) p where "res = Ready (Inr p)" "length p < 65536" "unread (es_reader es) src = packet_bytes p @ unread r' src'" "length src' \<le> length src"
    | (wait) "res = Pending" "unread r' src' = unread (es_reader es) src" "src' = [] \<longrightarrow> incomplete (unread r' src')"
      "src' = [] \<or> length src' < length src" by blast
  then show ?case
  proof cases
    case got
    then have "ms \<noteq> []" using Suc.prems(6) by (auto simp: packet_bytes_def encode_len_def u16_to_be_bytes_def)
    then obtain nonce m qs where ms: "ms = (nonce, m) # qs" by (cases ms) auto
    let ?q = "sealed L W (es_key es) nonce m"
    have q: "p = ?q \<and> unread r' src' = concat (map (\<lambda>(nonce, m). packet_bytes (sealed L W (es_key es) nonce m)) qs)"
      using first_packet_unique [of p "unread r' src'" ?q "concat (map (\<lambda>(nonce, m). packet_bytes (sealed L W (es_key es) nonce m)) qs)"] got Suc.prems(6,7) ms by simp
    obtain buf where buf: "peel_wih_key L W (es_key es) ?q = Some (length m, buf)" "take (length m) buf = m"
      using peel_message [OF assms(1), of nonce "es_key es" m] Suc.prems(7) ms by auto
    let ?r = "r'\<lparr>read_buffer := fill (read_buffer r') PACKET_LEN_WIDTH buf\<rparr>"
    let ?es = "es\<lparr>es_writer := writer_new cap, es_reader := ?r\<rparr>"
    have o: "read_offset r' = 0" using poll_packet_offset e got(1) by blast
    then have u: "unread ?r src' = unread r' src'" "reader_ok ?r" "frame_ok ?r" by (simp_all add: unread_def reader_ok_def frame_ok_def)
    have "read_work ?r src' < fuel" using Suc.prems(8) got u(1) by (simp add: read_work_def)
    then have "es_read_all fuel L W dest ?es src' d = map snd qs" using Suc.IH [of ?es src' qs d] s q u Suc.prems(1,7) ms by simp
    moreover have "es_poll L W dest es src d = Some (Ready (Inr m), ?es, src', d)" using poll got(1) q buf Suc.prems(1) by simp
    ultimately show ?thesis using ms by simp
  next
    case wait
    let ?es = "es\<lparr>es_writer := writer_new cap, es_reader := r'\<rparr>"
    have p: "es_poll L W dest es src d = Some (Pending, ?es, src', d)" using poll wait(1) Suc.prems(1) by simp
    show ?thesis
    proof (cases "src' = []")
      case True
      have "ms = []"
      proof (rule ccontr)
        assume "ms \<noteq> []"
        then obtain nonce m qs where ms: "ms = (nonce, m) # qs" by (cases ms) auto
        then have "announced (unread (es_reader es) src) = length (sealed L W (es_key es) nonce m) + 2"
          "length (sealed L W (es_key es) nonce m) + 2 \<le> length (unread (es_reader es) src)"
          using announced_packet Suc.prems(6,7) by simp_all
        then show False using wait True by (simp add: incomplete_def PACKET_LEN_WIDTH_def)
      qed
      then show ?thesis using p True by simp
    next
      case False
      then have "read_work r' src' < fuel" using Suc.prems(8) wait by (auto simp: read_work_def)
      then show ?thesis using Suc.IH [of ?es src' ms d] s p wait False Suc.prems(1,6,7) by simp
    qed
  qed
qed simp

subsection \<open>Properties\<close>



text \<open>C28: a relay loses bytes. While every write takes all it is offered, the relay passes on exactly what it reads. The count of bytes written from the cache is never reset:
  after a short write that left \<open>k\<close> bytes over, the next short write drops the first \<open>k\<close> bytes of its own rest (all of it, if it is not longer).\<close>

theorem relay_loses_bytes:
  assumes "0 < n1" and "n1 < length c1" and "length c1 \<le> TEMP_SIZE" and "0 < n2" and "n2 < length c2" and "length c2 \<le> TEMP_SIZE"
  shows "snd (snd (snd (snd (forward_from script_dest relay_new [Chunk c1, Chunk c2] ([length c1, length c2], []))))) = c1 @ c2 \<and>
    snd (snd (snd (snd (forward_from script_dest relay_new [Chunk c1, Chunk c2] ([n1, length c1, n2, length c2], []))))) =
      c1 @ take n2 c2 @ drop (length c1 - n1) (drop n2 c2) \<and>
    c1 @ take n2 c2 @ drop (length c1 - n1) (drop n2 c2) \<noteq> c1 @ c2"
proof -
  have ne: "c1 \<noteq> []" "c2 \<noteq> []" using assms by auto
  have "length (drop (length c1 - n1) (drop n2 c2)) < length (drop n2 c2)" using assms by simp
  then have "drop (length c1 - n1) (drop n2 c2) \<noteq> drop n2 c2" by (metis less_irrefl)
  then have "take n2 c2 @ drop (length c1 - n1) (drop n2 c2) \<noteq> c2" by (metis append_same_eq append_take_drop_id same_append_eq)
  moreover have "snd (snd (snd (snd (forward_from script_dest relay_new [Chunk c1, Chunk c2] ([length c1, length c2], []))))) = c1 @ c2"
    using assms ne by (simp add: forward_from.simps flush_cache.simps relay_new_def pump.simps)
  moreover have "snd (snd (snd (snd (forward_from script_dest relay_new [Chunk c1, Chunk c2] ([n1, length c1, n2, length c2], []))))) =
      c1 @ take n2 c2 @ drop (length c1 - n1) (drop n2 c2)"
    using assms ne by (simp add: forward_from.simps flush_cache.simps relay_new_def pump.simps)
  ultimately show ?thesis by simp
qed

theorem relay_loses_bytes_witness:
  "snd (snd (snd (snd (forward_from script_dest relay_new [Chunk [1, 2], Chunk [3, 4]] ([1, 2, 1, 2], []))))) = [1, 2] @ take 1 [3, 4] @ drop (length [1, 2 :: u8] - 1) (drop 1 [3, 4])"
  using relay_loses_bytes [of 1 "[1, 2]" 1 "[3, 4]"] by (simp add: TEMP_SIZE_def numeral_2_eq_2)

end
