(* ===== verification/Spec2Isabelle.thy ===== *)
theory Spec2Isabelle
  imports Codec Dht Node_Staker User_Manager Crypto Chat_Spec Chat_Server Profile_Server Kyber_Correct Server Packets Fec Merkle Onion_Behaviour Onion_Stream
begin

text \<open>
  A verification development of the orion network: a peer-to-peer chat whose nodes are members by a stake on a chain, replicate
  chats and profiles among the five nearest members of a topic, and talk over post-quantum encrypted streams. The
  theories follow the crates under \<open>src/\<close>, one theory (or a few, for the large ones) per component; the
  definitions keep the names of the code and come in its order.

  \<^bold>\<open>The parts and how they interact.\<close> The contracts (\<open>contracts/node_staker\<close>, \<open>contracts/user_manager\<close>) hold the membership
  and the user names. A server (\<open>nodes/server\<close>) follows the membership events of the chain in its routing table
  (\<open>core/dht\<close>), takes requests from clients and from other servers, decodes them with the wire codec
  (\<open>utils/component-utils/src/codec.rs\<close>), dispatches them to the handlers of chats and profiles, and answers. A
  handler may be wrapped: \<open>Repl\<close> asks the other replicators of the topic and waits for a majority, \<open>Retry\<close> first restores what this server misses.
  Both use the remote calls (\<open>core/rpc\<close>), which use the stream negotiation (\<open>core/streaming\<close>) and
  the packet streams (\<open>component-utils/src/stream.rs\<close>). The data of the protocol are in \<open>core/chat-spec\<close>; keys, signatures and
  secrets come from \<open>core/crypto\<close>, which pairs classical primitives with \<open>utils/kyber\<close>. The onion packets
  (\<open>core/onion\<close>), the erasure code (\<open>utils/berkleamp-welch\<close>) and the Merkle tree (\<open>utils/merkle-tree\<close>) are libraries of their own.

  \<^bold>\<open>Conventions.\<close> A struct is a record, an enum a datatype, a Rust integer a word of its width or an integer with the reduction
  written out; \<open>usize\<close> counters that index memory are natural numbers. Code that may panic returns \<open>'a run\<close> (\<open>Done\<close> or \<open>Panic\<close>: failed
  assertions, out-of-range reads, arithmetic that overflows in a checked build), code that fails returns a sum or an option.
  Maps of the code are maps, vectors are lists; \<open>swap_remove\<close>, binary search and chunks are in the prelude. Cryptographic primitives, hash functions,
  the chain and the network are parameters; what is relied on of them is a named hypothesis of the theorems that need it, and
  each witness instantiates it with a concrete function.

  \<^bold>\<open>The theories.\<close>
  \<^item> \<open>Prelude\<close>: machine integers, outcomes, vector operations, and the interface \<open>id_map\<close> of maps with keys, which the routing table and the linear map implement.
  \<^item> \<open>Codec\<close> (\<open>component-utils/src/codec.rs\<close>, \<open>codec-derive\<close>): the buffers (vector, slice, capacity bounded), each with its interpretation of the locale
    \<open>buffer\<close>; every encoder and decoder, as instances of the locale \<open>codec\<close>, whose lemmas give round trips for composed types.
  \<^item> \<open>Node_Staker\<close>, \<open>User_Manager\<close> (\<open>contracts/\<close>): the storage of the contracts, every message, reachability under arbitrary
    sequences of calls, the invariants of the storage, slashing and solvency, and the node addresses of \<open>core/chain-types\<close>.
  \<^item> \<open>Dht\<close> (\<open>core/dht\<close>): the sorted table, its refinement of a map under membership events, the order of the closest routes, the replicators of a topic.
  \<^item> \<open>Crypto\<close> (\<open>core/crypto\<close>): hybrid encapsulation and signatures over abstract primitives: agreement of both sides.
  \<^item> \<open>Kyber_Ntt\<close>, \<open>Kyber_Poly\<close>, \<open>Kyber_Mul\<close>, \<open>Kyber_Kem\<close>, \<open>Kyber_Correct\<close> (\<open>utils/kyber\<close>): the reductions on machine integers, the transform, the byte formats, sampling and
    the key encapsulation as executable functions. The lemmas show the reductions exact, the transform to be the ring isomorphism it is meant to be, the formats to
    round trip, and decapsulation to invert encapsulation whenever the noise is small.
  \<^item> \<open>Onion\<close>, \<open>Onion_Stream\<close>, \<open>Onion_Behaviour\<close> (\<open>core/onion\<close>): building and peeling of onion packets, both ends of the handshake, encrypted streams over
    the packet reader and writer, relays, and the behaviour as a state machine over all interleavings, with its handler and the exchange of keys.
  \<^item> \<open>Chat_Spec\<close> (\<open>core/chat-spec\<close>): topics, nonces, proofs, message buffers with the in-place filter (pointer code over an explicit memory, refined to a filter on lists), profiles and mail.
  \<^item> \<open>Server_Context\<close>, \<open>Chat_Server\<close>, \<open>Profile_Server\<close> (\<open>nodes/server/src\<close>): the handlers on the store of chats and profiles; invariants over reachable stores, authorisation, quorums, mail.
  \<^item> \<open>Linear_Map\<close>, \<open>Packets\<close> (\<open>component-utils/src/stream.rs\<close>): the linear map, the packet reader and writer over arbitrary streams.
  \<^item> \<open>Streaming\<close>, \<open>Rpc\<close> (\<open>core/streaming\<close>, \<open>core/rpc\<close>): the behaviours as state machines over all interleavings of swarm events, requests and polls.
  \<^item> \<open>Replication\<close>, \<open>Retry\<close>, \<open>Server\<close> (\<open>handlers/replicated.rs\<close>, \<open>retry.rs\<close>, \<open>handlers.rs\<close>, \<open>main.rs\<close>): the wrappers over the remote calls, and the dispatch of requests and answers.
  \<^item> \<open>Galois\<close>, \<open>Interpolation\<close>, \<open>Fec_Matrix\<close>, \<open>Fec\<close> (\<open>utils/berkleamp-welch\<close>): the generated tables form the field of 256 elements (the type \<open>gf\<close> with
    its class instances), the inverted Vandermonde matrix holds the Lagrange basis, the elimination inverts, and a lost share is rebuilt.
  \<^item> \<open>Merkle\<close> (\<open>utils/merkle-tree\<close>): the incremental tree refines the recursive one, and proofs are its audit paths.

  \<^bold>\<open>Bounds and fuel.\<close> Loops over data are structural or have a measure. The polling loops of the packet writer and of the behaviours run until
  nothing changes; they are functions with a measure (the queued bytes, the queued events). The rejection sampling of
  Kyber may run forever and takes fuel: the theorems state its result for the fuel at which it returns, and that
  it does not return at all when the first blocks are rejected. The iterator of a Merkle proof runs for the logarithm of the length, as in the code.

  \<^bold>\<open>Where the code does not do what it means to.\<close> Theorems also record behaviour that looks unintended: among them a request lost while a stream is
  being opened, a relay that loses bytes, a packet that makes a node panic, calls whose failure is never reported, votes counted for unset slots, a forwarded mail that empties the mail box, the rebuild of
  two lost shares, the in-place vector multiplication, and the panic of \<open>root\<close> on one leaf. The manifest of findings lists them with their lines.

  \<^bold>\<open>Not modelled.\<close> Falcon (\<open>utils/falcon\<close>) is a machine translation of the reference C code over pointers and emulated
  floating point; the signature scheme is a parameter of \<open>Crypto\<close>. The client (\<open>nodes/client\<close>) is a browser user interface,
  \<open>topology-vis\<close>, \<open>topology-wrapper\<close> and \<open>websocket-websys\<close> are drawing and bindings. \<open>chain-api\<close>, \<open>contract_macro\<close> and \<open>config\<close> wrap remote procedure calls,
  generated bindings and environment variables. Of the erasure code the error correction (\<open>decode\<close>, \<open>correct\<close>, \<open>berklekamp_welch\<close>)
  and the helpers only it uses are left out. \<open>storage-spec\<close> and the satellite and storage nodes are unfinished. Wakers, timers and logging are left out everywhere; start up and key files of the server too.
\<close>

end
